(* ===== verification/Prelude.thy ===== *)
theory Prelude
  imports Main "HOL-Library.Multiset" "HOL-Library.Word"
begin

text \<open>
  Shared material of the development: the arithmetic of Go's 64-bit signed integers
  (\<open>int\<close> and \<open>int64\<close> are both 64 bits wide on the two platforms the image is built for),
  the parts of Go's standard library that several components call (\<^verbatim>\<open>sort.Slice\<close> and
  \<^verbatim>\<open>sort.Search\<close>), and the generic list lemmas the component proofs share.
\<close>

named_theorems go_arith \<open>64-bit arithmetic that does not overflow\<close>
named_theorems cache_simps \<open>how each cache operation changes each field\<close>

subsection \<open>Go's 64-bit integers\<close>

type_synonym byte = "8 word"

text \<open>
  A Go \<open>int64\<close> is an \<open>int\<close> between \<open>-2^63\<close> and \<open>2^63 - 1\<close>; \<open>wrap64\<close> is what an
  arithmetic operation does to an exact result that leaves this interval. Division truncates
  towards zero.
\<close>

definition wrap64 :: "int \<Rightarrow> int" where
  "wrap64 x = (x + 2 ^ 63) mod 2 ^ 64 - 2 ^ 63"

definition in64 :: "int \<Rightarrow> bool" where
  "in64 x \<longleftrightarrow> - (2 ^ 63) \<le> x \<and> x < 2 ^ 63"

definition tdiv :: "int \<Rightarrow> int \<Rightarrow> int" where
  "tdiv a b = sgn a * sgn b * (\<bar>a\<bar> div \<bar>b\<bar>)"

lemma wrap64_id [go_arith]: "in64 x \<Longrightarrow> wrap64 x = x"
  by (simp add: wrap64_def in64_def)

lemma in64_wrap64 [simp]: "in64 (wrap64 x)"
proof -
  have "0 \<le> (x + 2 ^ 63) mod 2 ^ 64 \<and> (x + 2 ^ 63) mod 2 ^ 64 < (2 ^ 64 :: int)"
    by (simp add: pos_mod_sign pos_mod_bound)
  then show ?thesis by (simp add: wrap64_def in64_def)
qed

lemma tdiv_nonneg [go_arith]: "0 \<le> a \<Longrightarrow> 0 < b \<Longrightarrow> tdiv a b = a div b"
  by (cases "a = 0") (simp_all add: tdiv_def)

lemma tdiv_mono: "0 \<le> a \<Longrightarrow> a \<le> b \<Longrightarrow> 0 < c \<Longrightarrow> tdiv a c \<le> tdiv b c"
  by (simp add: tdiv_nonneg zdiv_mono1)

lemma tdiv_neg: "a < 0 \<Longrightarrow> 0 < b \<Longrightarrow> tdiv a b \<le> 0"
  by (simp add: tdiv_def pos_imp_zdiv_nonneg_iff)

lemma div_mult_le: "(0::int) < b \<Longrightarrow> a div b * b \<le> a"
  by (metis add_increasing2 div_mult_mod_eq order_refl pos_mod_sign)

lemma div_less_bound: "(0::int) < b \<Longrightarrow> a < n * b \<Longrightarrow> a div b < n"
  using div_mult_le [of b a] mult_less_cancel_right_pos [of b "a div b" n] by linarith

lemma div_le_self: "(0::int) \<le> a \<Longrightarrow> 0 < b \<Longrightarrow> a div b \<le> a"
  using zdiv_mono2 [of a 1 b] by simp

lemma mult_div_bounds:
  fixes a b :: int
  assumes "0 < b"
  shows "a - b < a div b * b" and "a div b * b \<le> a"
  using assms pos_mod_bound [of b a] pos_mod_sign [of b a] div_mult_mod_eq [of a b]
  by linarith+

subsection \<open>Lists without repetition\<close>

lemma distinct_mset_sub: "distinct xs \<Longrightarrow> mset ys \<subseteq># mset xs \<Longrightarrow> distinct ys"
proof (induction ys arbitrary: xs)
  case (Cons y ys)
  then have y: "y \<in> set xs" by (auto dest: mset_subset_eqD)
  with Cons.prems have sub: "mset ys \<subseteq># mset (remove1 y xs)"
    by (simp add: insert_subset_eq_iff)
  from Cons.IH [OF _ sub] Cons.prems(1) have "distinct ys" by simp
  moreover have "set ys \<subseteq> set (remove1 y xs)"
    using set_mset_mono [OF sub] by (simp only: set_mset_mset)
  then have "y \<notin> set ys" using Cons.prems(1) by auto
  ultimately show ?case by simp
qed simp

subsection \<open>Filtering with a partial function\<close>

lemma map_filter_update:
  assumes "i < length xs"
  shows "List.map_filter f (xs[i := x]) =
    List.map_filter f (take i xs) @ (case f x of None \<Rightarrow> [] | Some y \<Rightarrow> [y]) @
    List.map_filter f (drop (Suc i) xs)"
  using assms by (simp add: upd_conv_take_nth_drop List.map_filter_def split: option.splits)

lemma map_filter_split:
  assumes "i < length xs"
  shows "List.map_filter f xs =
    List.map_filter f (take i xs) @ (case f (xs ! i) of None \<Rightarrow> [] | Some y \<Rightarrow> [y]) @
    List.map_filter f (drop (Suc i) xs)"
  using map_filter_update [OF assms, of f "xs ! i"] by simp

lemma set_map_filter: "set (List.map_filter f xs) = {y. \<exists>x \<in> set xs. f x = Some y}"
  by (induction xs) (auto simp: List.map_filter_simps split: option.splits)

lemma map_filter_nth: "i < length xs \<Longrightarrow> f (xs ! i) = Some y \<Longrightarrow> y \<in> set (List.map_filter f xs)"
  by (auto simp: set_map_filter)

lemma distinct_map_filter_inj:
  assumes "distinct (List.map_filter f xs)" and "i < length xs" and "j < length xs"
    and "f (xs ! i) = Some y" and "f (xs ! j) = Some y"
  shows "i = j"
  using assms
proof (induction xs arbitrary: i j)
  case (Cons x xs)
  show ?case
  proof (cases i; cases j)
    fix i' j'
    assume "i = Suc i'" "j = Suc j'"
    with Cons show ?thesis by (auto simp: List.map_filter_simps split: option.splits)
  qed (use Cons.prems map_filter_nth [of _ xs f y] in
      \<open>auto simp: List.map_filter_simps split: option.splits\<close>)
qed simp

lemma filter_update_count:
  "i < length xs \<Longrightarrow>
    int (length (filter P (xs[i := y]))) =
      int (length (filter P xs)) - of_bool (P (xs ! i)) + of_bool (P y)"
proof (induction xs arbitrary: i)
  case (Cons x xs)
  then show ?case by (cases i) auto
qed simp

subsection \<open>Sorting a slice\<close>

text \<open>
  \<^verbatim>\<open>sort.Slice(x, less)\<close> promises a permutation of \<open>x\<close> in which no element is less than an
  earlier one, and leaves the order of equal elements open. The locale is that contract; the
  executable instance is a stable insertion sort, which is also what \<^verbatim>\<open>sort.SliceStable\<close>
  promises.
\<close>

locale slice_sort =
  fixes lt :: "'a \<Rightarrow> 'a \<Rightarrow> bool"
    and srt :: "'a list \<Rightarrow> 'a list"
  assumes mset_srt: "mset (srt xs) = mset xs"
    and sorted_srt: "sorted_wrt (\<lambda>a b. \<not> lt b a) (srt xs)"
begin

lemma set_srt: "set (srt xs) = set xs"
  by (metis mset_srt set_mset_mset)

lemma length_srt: "length (srt xs) = length xs"
  by (metis mset_srt size_mset)

lemma distinct_srt: "distinct (srt xs) = distinct xs"
  by (metis mset_srt mset_eq_imp_distinct_iff)

end

fun insert_by :: "('a \<Rightarrow> 'a \<Rightarrow> bool) \<Rightarrow> 'a \<Rightarrow> 'a list \<Rightarrow> 'a list" where
  "insert_by lt x [] = [x]"
| "insert_by lt x (y # ys) = (if lt y x then y # insert_by lt x ys else x # y # ys)"

fun sort_by :: "('a \<Rightarrow> 'a \<Rightarrow> bool) \<Rightarrow> 'a list \<Rightarrow> 'a list" where
  "sort_by lt [] = []"
| "sort_by lt (x # xs) = insert_by lt x (sort_by lt xs)"

lemma mset_insert_by: "mset (insert_by lt x xs) = add_mset x (mset xs)"
  by (induction xs) auto

lemma mset_sort_by: "mset (sort_by lt xs) = mset xs"
  by (induction xs) (auto simp: mset_insert_by)

lemma set_insert_by [simp]: "set (insert_by lt x xs) = insert x (set xs)"
  by (metis mset_insert_by set_mset_add_mset_insert set_mset_mset)

lemma sorted_insert_by:
  assumes "\<And>a b. lt a b \<Longrightarrow> \<not> lt b a"
    and "\<And>a b c. \<not> lt b a \<Longrightarrow> \<not> lt c b \<Longrightarrow> \<not> lt c a"
    and "sorted_wrt (\<lambda>a b. \<not> lt b a) xs"
  shows "sorted_wrt (\<lambda>a b. \<not> lt b a) (insert_by lt x xs)"
  using assms(3)
proof (induction xs)
  case (Cons y ys)
  show ?case
  proof (cases "lt y x")
    case True
    with Cons assms(1) show ?thesis by auto
  next
    case False
    with Cons.prems assms(2) show ?thesis by auto
  qed
qed simp

text \<open>A strict weak order, the precondition of \<^verbatim>\<open>sort.Slice\<close>, makes \<open>sort_by\<close> an instance.\<close>

lemma slice_sort_by:
  assumes "\<And>a b. lt a b \<Longrightarrow> \<not> lt b a"
    and "\<And>a b c. \<not> lt b a \<Longrightarrow> \<not> lt c b \<Longrightarrow> \<not> lt c a"
  shows "slice_sort lt (sort_by lt)"
proof
  show "mset (sort_by lt xs) = mset xs" for xs
    by (rule mset_sort_by)
  show "sorted_wrt (\<lambda>a b. \<not> lt b a) (sort_by lt xs)" for xs
    by (induction xs) (simp_all add: sorted_insert_by [OF assms])
qed

subsection \<open>Binary search\<close>

text \<open>
  \<^verbatim>\<open>sort.Search(n, f)\<close>, the loop as the library writes it: the least index in \<open>[0, n)\<close> at
  which \<open>f\<close> holds, \<open>n\<close> if there is none, for an \<open>f\<close> that stays true once it is true.
\<close>

function search_loop :: "(nat \<Rightarrow> bool) \<Rightarrow> nat \<Rightarrow> nat \<Rightarrow> nat" where
  "search_loop f i j =
     (if i < j
      then let h = (i + j) div 2
           in if \<not> f h then search_loop f (h + 1) j else search_loop f i h
      else i)"
  by pat_completeness auto
termination
  by (relation "measure (\<lambda>(f, i, j). j - i)") auto

declare search_loop.simps [simp del]

definition sort_Search :: "nat \<Rightarrow> (nat \<Rightarrow> bool) \<Rightarrow> nat" where
  "sort_Search n f = search_loop f 0 n"

lemma search_loop_spec:
  assumes "\<And>a b. a \<le> b \<Longrightarrow> b < n \<Longrightarrow> f a \<Longrightarrow> f b" and "i \<le> j" and "j \<le> n"
    and "\<And>k. k < i \<Longrightarrow> \<not> f k" and "\<And>k. j \<le> k \<Longrightarrow> k < n \<Longrightarrow> f k"
  shows "search_loop f i j \<le> n \<and> (\<forall>k < search_loop f i j. \<not> f k) \<and>
    (\<forall>k. search_loop f i j \<le> k \<and> k < n \<longrightarrow> f k)"
  using assms
proof (induction f i j rule: search_loop.induct)
  case (1 f i j)
  note mono = "1.prems"(1)
  let ?h = "(i + j) div 2"
  note step = search_loop.simps [of f i j]
  show ?case
  proof (cases "i < j")
    case False
    then have "search_loop f i j = i" by (simp add: step)
    with "1.prems" False show ?thesis by auto
  next
    case ij: True
    with "1.prems"(3) have h: "i \<le> ?h" "?h < j" "?h < n" by auto
    show ?thesis
    proof (cases "f ?h")
      case True
      have "f k" if "?h \<le> k" "k < n" for k
        using mono [OF that] True by blast
      with "1.IH"(2) [OF ij refl] "1.prems" True h ij show ?thesis
        by (simp add: step Let_def)
    next
      case False
      have "\<not> f k" if "k < ?h + 1" for k
        using mono [of k ?h] that False h by auto
      with "1.IH"(1) [OF ij refl] "1.prems" False h ij show ?thesis
        by (simp add: step Let_def)
    qed
  qed
qed

lemma sort_Search_spec:
  assumes "\<And>a b. a \<le> b \<Longrightarrow> b < n \<Longrightarrow> f a \<Longrightarrow> f b"
  shows "sort_Search n f \<le> n" and "k < sort_Search n f \<Longrightarrow> \<not> f k"
    and "sort_Search n f \<le> k \<Longrightarrow> k < n \<Longrightarrow> f k"
  using search_loop_spec [of n f 0 n] assms by (auto simp: sort_Search_def)

end
