(* ===== verification/Ranges.thy ===== *)
theory Ranges
  imports Prelude
begin

text \<open>
  Piece ranges, after \<^verbatim>\<open>src/server/torr/storage/torrstor/ranges.go\<close>: the windows of pieces that
  the open readers protect. \<^verbatim>\<open>mergeRange\<close> sorts and joins them in place, \<^verbatim>\<open>inRanges\<close> looks a
  piece up by binary search, \<^verbatim>\<open>fillPieceInRange\<close> spreads them into a bitmap for the eviction
  scan; \<^verbatim>\<open>pieceBudgetCount\<close> and \<^verbatim>\<open>perReaderReadahead\<close> size the prefetch front.
\<close>

subsection \<open>Data\<close>

text \<open>What a range keeps of \<^verbatim>\<open>*torrent.File\<close>: its offset in the torrent and its length.\<close>

record tfile =
  Offset :: int
  Length :: int

record range =
  Start :: int
  End :: int
  File :: tfile

abbreviation covers :: "range \<Rightarrow> int \<Rightarrow> bool" where
  "covers r x \<equiv> Start r \<le> x \<and> x \<le> End r"

abbreviation covered :: "range list \<Rightarrow> int \<Rightarrow> bool" where
  "covered rs x \<equiv> \<exists>r \<in> set rs. covers r x"

subsection \<open>Operations\<close>

definition inRanges :: "range list \<Rightarrow> int \<Rightarrow> bool" where
  "inRanges ranges ind =
     (let i = sort_Search (length ranges) (\<lambda>i. End (ranges ! i) \<ge> ind)
      in i < length ranges \<and> Start (ranges ! i) \<le> ind)"

text \<open>
  \<open>mark_from dst i end\<close> is the loop \<^verbatim>\<open>for i := start; i <= end; i++ { dst[i] = true }\<close>; an index
  outside the slice panics, which is \<open>None\<close>.
\<close>

function mark_from :: "bool list \<Rightarrow> int \<Rightarrow> int \<Rightarrow> bool list option" where
  "mark_from dst i e =
     (if i \<le> e
      then if 0 \<le> i \<and> i < int (length dst) then mark_from (dst[nat i := True]) (i + 1) e else None
      else Some dst)"
  by pat_completeness auto
termination
  by (relation "measure (\<lambda>(dst, i, e). nat (e + 1 - i))") auto

declare mark_from.simps [simp del]

fun mark_ranges :: "bool list \<Rightarrow> range list \<Rightarrow> int \<Rightarrow> bool list option" where
  "mark_ranges dst [] pieceCount = Some dst"
| "mark_ranges dst (rng # rngs) pieceCount =
     (let start = (if Start rng < 0 then 0 else Start rng);
          e = (if End rng \<ge> pieceCount then pieceCount - 1 else End rng)
      in case mark_from dst start e of
           None \<Rightarrow> None
         | Some dst' \<Rightarrow> mark_ranges dst' rngs pieceCount)"

definition fillPieceInRange :: "bool list \<Rightarrow> range list \<Rightarrow> int \<Rightarrow> bool list option" where
  "fillPieceInRange dst ranges pieceCount =
     mark_ranges (replicate (length dst) False) ranges pieceCount"

definition pieceEvictable :: "int \<Rightarrow> bool \<Rightarrow> bool \<Rightarrow> bool" where
  "pieceEvictable sz complete inReaderWindow \<longleftrightarrow> sz > 0 \<and> complete \<and> \<not> inReaderWindow"

definition range_less :: "range \<Rightarrow> range \<Rightarrow> bool" where
  "range_less a b \<longleftrightarrow>
     (if Start a < Start b then True
      else if Start a = Start b \<and> End a < End b then True
      else False)"

text \<open>The joining loop works in place: \<open>merged[0..j]\<close> holds the ranges joined so far.\<close>

function merge_loop :: "range list \<Rightarrow> nat \<Rightarrow> nat \<Rightarrow> range list \<times> nat" where
  "merge_loop merged j i =
     (if i < length merged
      then if End (merged ! j) \<ge> Start (merged ! i)
           then if End (merged ! j) < End (merged ! i)
                then merge_loop (merged[j := (merged ! j)\<lparr>End := End (merged ! i)\<rparr>]) j (i + 1)
                else merge_loop merged j (i + 1)
           else merge_loop (merged[j + 1 := merged ! i]) (j + 1) (i + 1)
      else (merged, j))"
  by pat_completeness auto
termination
  by (relation "measure (\<lambda>(merged, j, i). length merged - i)") auto

declare merge_loop.simps [simp del]

definition mergeRange_by :: "(range list \<Rightarrow> range list) \<Rightarrow> range list \<Rightarrow> range list" where
  "mergeRange_by srt ranges =
     (if length ranges \<le> 1 then ranges
      else let (merged, j) = merge_loop (srt ranges) 0 1 in take (j + 1) merged)"

definition mergeRange :: "range list \<Rightarrow> range list" where
  "mergeRange = mergeRange_by (sort_by range_less)"

definition prefetchBudgetPct :: int where
  "prefetchBudgetPct = 40"

definition pieceBudgetCount :: "int \<Rightarrow> int \<Rightarrow> int \<Rightarrow> int" where
  "pieceBudgetCount cnt capacity pieceLength =
     (if cnt \<le> 1 \<or> capacity \<le> 0 \<or> pieceLength \<le> 0 then cnt
      else let m = tdiv (tdiv (wrap64 (capacity * prefetchBudgetPct)) 100) pieceLength;
               m = (if m < 1 then 1 else m)
           in if m < cnt then m else cnt)"

definition minPerReaderReadahead :: int where
  "minPerReaderReadahead = 8 * 2 ^ 20"

definition perReaderReadahead :: "int \<Rightarrow> int \<Rightarrow> int" where
  "perReaderReadahead tot readers =
     (let readers = (if readers < 1 then 1 else readers);
          ra = tdiv tot readers;
          ra = (if ra < minPerReaderReadahead then minPerReaderReadahead else ra)
      in if ra > tot then tot else ra)"

subsection \<open>Joining ranges\<close>

text \<open>What the in-place loop computes, as a recursion over the ranges not yet joined.\<close>

fun merge_ref :: "range \<Rightarrow> range list \<Rightarrow> range list" where
  "merge_ref cur [] = [cur]"
| "merge_ref cur (r # rs) =
     (if Start r \<le> End cur then merge_ref (cur\<lparr>End := max (End cur) (End r)\<rparr>) rs
      else cur # merge_ref r rs)"

lemma merge_loop_ref:
  assumes "j < i" and "i \<le> length merged"
  shows "(let (m, k) = merge_loop merged j i in take (k + 1) m) =
    take j merged @ merge_ref (merged ! j) (drop i merged)"
  using assms
proof (induction merged j i rule: merge_loop.induct)
  case (1 m j i)
  note step = merge_loop.simps [of m j i]
  show ?case
  proof (cases "i < length m")
    case False
    then have "merge_loop m j i = (m, j)" by (simp add: step)
    with "1.prems" False show ?thesis by (simp add: take_Suc_conv_app_nth)
  next
    case i: True
    then have drop: "drop i m = m ! i # drop (Suc i) m"
      by (simp add: Cons_nth_drop_Suc)
    consider (grow) "Start (m ! i) \<le> End (m ! j)" "End (m ! j) < End (m ! i)"
      | (keep) "Start (m ! i) \<le> End (m ! j)" "\<not> End (m ! j) < End (m ! i)"
      | (next_one) "\<not> Start (m ! i) \<le> End (m ! j)" by blast
    then show ?thesis
    proof cases
      case grow
      with "1.IH"(1) i "1.prems" show ?thesis by (simp add: step drop max_def)
    next
      case keep
      then have "(m ! j)\<lparr>End := max (End (m ! j)) (End (m ! i))\<rparr> = m ! j"
        by (simp add: max_def)
      with "1.IH"(2) keep i "1.prems" show ?thesis by (simp add: step drop)
    next
      case next_one
      have "drop (Suc i) (m[Suc j := m ! i]) = drop (Suc i) m"
        using "1.prems" by simp
      with "1.IH"(3) next_one i "1.prems" show ?thesis
        by (simp add: step drop take_Suc_conv_app_nth)
    qed
  qed
qed

lemma merge_ref_covered:
  assumes "\<forall>r \<in> set rs. Start cur \<le> Start r" and "sorted_wrt (\<lambda>a b. \<not> range_less b a) rs"
  shows "covered (merge_ref cur rs) x \<longleftrightarrow> covered (cur # rs) x"
  using assms
proof (induction cur rs rule: merge_ref.induct)
  case (2 cur r rs)
  then have rest: "\<forall>q \<in> set rs. Start r \<le> Start q"
    by (auto simp: range_less_def split: if_splits)
  show ?case
  proof (cases "Start r \<le> End cur")
    case True
    with "2.IH"(1) "2.prems" show ?thesis by (auto simp: max_def)
  next
    case False
    with "2.IH"(2) "2.prems" rest show ?thesis by auto
  qed
qed simp

definition separated :: "range list \<Rightarrow> bool" where
  "separated rs \<longleftrightarrow> sorted_wrt (\<lambda>a b. End a < Start b \<and> Start a \<le> Start b) rs"

lemma merge_ref_starts: "r \<in> set (merge_ref cur rs) \<Longrightarrow> Start r \<in> Start ` set (cur # rs)"
  by (induction cur rs rule: merge_ref.induct) (auto split: if_splits)

lemma merge_ref_separated:
  assumes "\<forall>r \<in> set rs. Start cur \<le> Start r" and "sorted_wrt (\<lambda>a b. \<not> range_less b a) rs"
  shows "separated (merge_ref cur rs)"
  using assms
proof (induction cur rs rule: merge_ref.induct)
  case (2 cur r rs)
  then have rest: "\<forall>q \<in> set rs. Start r \<le> Start q"
    by (auto simp: range_less_def split: if_splits)
  show ?case
  proof (cases "Start r \<le> End cur")
    case True
    with "2.IH"(1) "2.prems" show ?thesis by simp
  next
    case False
    have "End cur < Start q \<and> Start cur \<le> Start q" if "q \<in> set (merge_ref r rs)" for q
      using merge_ref_starts [OF that] rest False "2.prems"(1) by fastforce
    with "2.IH"(2) "2.prems" rest False show ?thesis by (simp add: separated_def)
  qed
qed (simp add: separated_def)

text \<open>For any sort that keeps the contract of \<^verbatim>\<open>sort.Slice\<close>, whatever it does with ties.\<close>

locale range_sort = slice_sort range_less srt for srt :: "range list \<Rightarrow> range list"
begin

lemma mergeRange_by_ref:
  "mergeRange_by srt ranges =
    (if length ranges \<le> 1 then ranges else merge_ref (hd (srt ranges)) (tl (srt ranges)))"
proof (cases "length ranges \<le> 1")
  case False
  then have "srt ranges \<noteq> []"
    using length_srt [of ranges] by auto
  then have "srt ranges ! 0 = hd (srt ranges)" "drop 1 (srt ranges) = tl (srt ranges)"
    and "Suc 0 \<le> length (srt ranges)"
    by (simp_all add: hd_conv_nth drop_Suc Suc_leI)
  with merge_loop_ref [of 0 1 "srt ranges"] False show ?thesis
    by (simp add: mergeRange_by_def)
qed (simp add: mergeRange_by_def)

lemma srt_starts:
  assumes "srt ranges \<noteq> []"
  shows "\<forall>r \<in> set (tl (srt ranges)). Start (hd (srt ranges)) \<le> Start r"
    and "sorted_wrt (\<lambda>a b. \<not> range_less b a) (tl (srt ranges))"
  using assms sorted_srt [of ranges]
  by (cases "srt ranges"; auto simp: range_less_def split: if_splits)+

lemma mergeRange_by_covered: "covered (mergeRange_by srt ranges) x \<longleftrightarrow> covered ranges x"
proof (cases "length ranges \<le> 1")
  case False
  then have ne: "srt ranges \<noteq> []"
    using length_srt [of ranges] by auto
  then have "covered (srt ranges) x \<longleftrightarrow> covered ranges x"
    using set_srt by simp
  with merge_ref_covered [OF srt_starts [OF ne], of x] False ne show ?thesis
    by (simp add: mergeRange_by_ref del: set_simps)
qed (simp add: mergeRange_by_def)

lemma mergeRange_by_separated: "separated (mergeRange_by srt ranges)"
proof (cases "length ranges \<le> 1")
  case True
  then show ?thesis
    by (cases ranges) (auto simp: mergeRange_by_def separated_def)
next
  case False
  then have ne: "srt ranges \<noteq> []"
    using length_srt [of ranges] by auto
  with merge_ref_separated [OF srt_starts [OF ne]] False show ?thesis
    by (simp add: mergeRange_by_ref)
qed

end

interpretation rs: range_sort "sort_by range_less"
  by (intro range_sort.intro slice_sort_by) (auto simp: range_less_def split: if_splits)

text \<open>
  C5. Joining the readers' windows in place loses and adds no piece: a piece index is covered by
  the joined ranges exactly if it was covered by one of the given ranges, and the joined ranges
  are in order with a gap between neighbours.
\<close>

theorem mergeRange_correct:
  "(covered (mergeRange ranges) x \<longleftrightarrow> covered ranges x) \<and> separated (mergeRange ranges)"
  by (simp add: mergeRange_def rs.mergeRange_by_covered rs.mergeRange_by_separated)

subsection \<open>Looking a piece up\<close>

lemma merge_ref_nonempty:
  "\<forall>r \<in> set (cur # rs). Start r \<le> End r \<Longrightarrow> \<forall>r \<in> set (merge_ref cur rs). Start r \<le> End r"
  by (induction cur rs rule: merge_ref.induct) (auto simp: max_def)

lemma mergeRange_nonempty:
  assumes "\<forall>r \<in> set ranges. Start r \<le> End r"
  shows "\<forall>r \<in> set (mergeRange ranges). Start r \<le> End r"
proof (cases "length ranges \<le> 1")
  case False
  then have "sort_by range_less ranges \<noteq> []"
    using rs.length_srt [of ranges] by auto
  then have "\<forall>r \<in> set (hd (sort_by range_less ranges) # tl (sort_by range_less ranges)).
      Start r \<le> End r"
    using assms rs.set_srt [of ranges] by (simp del: set_simps)
  from merge_ref_nonempty [OF this] False show ?thesis
    by (simp add: mergeRange_def rs.mergeRange_by_ref)
qed (use assms in \<open>simp add: mergeRange_def mergeRange_by_def\<close>)

lemma separated_nth:
  "separated rs \<Longrightarrow> a < b \<Longrightarrow> b < length rs \<Longrightarrow> End (rs ! a) < Start (rs ! b)"
  by (simp add: separated_def sorted_wrt_iff_nth_less)

lemma inRanges_separated:
  assumes "separated rs" and "\<forall>r \<in> set rs. Start r \<le> End r"
  shows "inRanges rs x \<longleftrightarrow> covered rs x"
proof -
  let ?f = "\<lambda>i. x \<le> End (rs ! i)"
  let ?i = "sort_Search (length rs) ?f"
  have mono: "?f b" if "a \<le> b" "b < length rs" "?f a" for a b
    using that separated_nth [OF assms(1), of a b] assms(2) nth_mem [of b rs]
    by (cases "a = b") fastforce+
  have spec: "\<not> ?f k" if "k < ?i" for k
    using sort_Search_spec(2) [of "length rs" ?f] mono that by blast
  have found: "?f ?i" if "?i < length rs"
    using sort_Search_spec(3) [of "length rs" ?f ?i] mono that by blast
  show ?thesis
  proof
    assume "inRanges rs x"
    with found have "covers (rs ! ?i) x" "?i < length rs"
      by (auto simp: inRanges_def Let_def)
    then show "covered rs x" by auto
  next
    assume "covered rs x"
    then obtain k where k: "k < length rs" "covers (rs ! k) x"
      by (auto simp: in_set_conv_nth)
    with spec [of k] have "?i \<le> k" by force
    moreover have "Start (rs ! ?i) \<le> x"
    proof (cases "?i = k")
      case False
      with \<open>?i \<le> k\<close> k separated_nth [OF assms(1), of ?i k]
        have "End (rs ! ?i) < x" and "?i < length rs" by auto
      with found show ?thesis by auto
    qed (use k in simp)
    ultimately show "inRanges rs x"
      using k by (simp add: inRanges_def Let_def)
  qed
qed

text \<open>
  Looking a piece up in the joined windows by binary search is the same as asking whether one
  of the readers' windows contains it, for windows that are not empty.
\<close>

theorem inRanges_mergeRange:
  assumes "\<forall>r \<in> set ranges. Start r \<le> End r"
  shows "inRanges (mergeRange ranges) x \<longleftrightarrow> (\<exists>r \<in> set ranges. Start r \<le> x \<and> x \<le> End r)"
  using inRanges_separated [OF rs.mergeRange_by_separated mergeRange_nonempty [OF assms, unfolded mergeRange_def]]
  by (simp add: mergeRange_def rs.mergeRange_by_covered)

abbreviation "rng s e \<equiv> \<lparr>Start = s, End = e, File = \<lparr>Offset = 0, Length = 100\<rparr>\<rparr>"

theorem inRanges_mergeRange_witness:
  "inRanges (mergeRange [rng 7 9, rng 1 3, rng 3 5]) 4 \<and>
   \<not> inRanges (mergeRange [rng 7 9, rng 1 3, rng 3 5]) 6"
proof -
  have h: "\<forall>r \<in> set [rng 7 9, rng 1 3, rng 3 5]. Start r \<le> End r" by simp
  show ?thesis using h inRanges_mergeRange [OF h] by simp
qed


subsection \<open>The bitmap of the eviction scan\<close>

lemma mark_from_spec:
  assumes "0 \<le> i" and "e < int (length dst)"
  shows "\<exists>d. mark_from dst i e = Some d \<and> length d = length dst \<and>
    (\<forall>k < length dst. d ! k \<longleftrightarrow> dst ! k \<or> (i \<le> int k \<and> int k \<le> e))"
  using assms
proof (induction dst i e rule: mark_from.induct)
  case (1 dst i e)
  show ?case
  proof (cases "i \<le> e")
    case False
    with "1.prems" show ?thesis by (auto simp: mark_from.simps [of dst i e])
  next
    case True
    with "1.prems" have i: "0 \<le> i \<and> i < int (length dst)" by simp
    from "1.IH" [OF True i] "1.prems" obtain d where
      d: "mark_from (dst[nat i := True]) (i + 1) e = Some d" "length d = length dst"
      and k: "\<forall>k < length dst. d ! k \<longleftrightarrow>
        dst[nat i := True] ! k \<or> (i + 1 \<le> int k \<and> int k \<le> e)"
      by auto
    from k True i have "\<forall>k < length dst. d ! k \<longleftrightarrow> dst ! k \<or> (i \<le> int k \<and> int k \<le> e)"
      by (auto simp: nth_list_update split: if_splits)
    with d True i show ?thesis by (simp add: mark_from.simps [of dst i e])
  qed
qed

lemma mark_ranges_spec:
  assumes "int (length dst) = pieceCount"
  shows "\<exists>d. mark_ranges dst rngs pieceCount = Some d \<and> length d = length dst \<and>
    (\<forall>k < length dst. d ! k \<longleftrightarrow> dst ! k \<or> covered rngs (int k))"
  using assms
proof (induction dst rngs pieceCount rule: mark_ranges.induct)
  case (2 dst r rngs n)
  let ?s = "if Start r < 0 then 0 else Start r"
  let ?e = "if End r \<ge> n then n - 1 else End r"
  have "0 \<le> ?s" "?e < int (length dst)" using "2.prems" by auto
  from mark_from_spec [OF this] obtain d where
    d: "mark_from dst ?s ?e = Some d" "length d = length dst"
    and k: "\<forall>k < length dst. d ! k \<longleftrightarrow> dst ! k \<or> (?s \<le> int k \<and> int k \<le> ?e)"
    by blast
  have win: "?s \<le> int k \<and> int k \<le> ?e \<longleftrightarrow> covers r (int k)" if "k < length dst" for k
    using that "2.prems" by auto
  from "2.IH" [OF refl refl d(1)] d(2) "2.prems" obtain d' where
    d': "mark_ranges d rngs n = Some d'" "length d' = length dst"
    and k': "\<forall>k < length dst. d' ! k \<longleftrightarrow> d ! k \<or> covered rngs (int k)"
    by auto
  have "d' ! i \<longleftrightarrow> dst ! i \<or> covered (r # rngs) (int i)" if "i < length dst" for i
    using that k k' win [OF that] by simp
  with d d' show ?case by (simp add: Let_def)
qed simp

text \<open>
  C6. Filling the bitmap never indexes out of range, and afterwards the bit of a piece is set
  exactly if one of the ranges contains the piece, whatever the ranges are: beyond the last
  piece, before the first one, overlapping or empty.
\<close>

theorem fillPieceInRange_spec:
  assumes "int (length dst) = pieceCount"
  shows "\<exists>bm. fillPieceInRange dst ranges pieceCount = Some bm \<and> length bm = length dst \<and>
    (\<forall>k < length dst. bm ! k \<longleftrightarrow> (\<exists>r \<in> set ranges. Start r \<le> int k \<and> int k \<le> End r))"
  using mark_ranges_spec [of "replicate (length dst) False" pieceCount ranges] assms
  by (auto simp: fillPieceInRange_def)

theorem fillPieceInRange_spec_witness:
  "int (length [True, False, True, False]) = 4 \<and>
   (\<exists>bm. fillPieceInRange [True, False, True, False] [rng (-3) 1, rng 3 9] 4 = Some bm \<and>
     bm ! 0 \<and> bm ! 1 \<and> \<not> bm ! 2 \<and> bm ! 3)"
proof -
  have h: "int (length [True, False, True, False]) = 4" by simp
  show ?thesis
    using fillPieceInRange_spec [OF h, of "[rng (-3) 1, rng 3 9]"] by (fastforce simp: h)
qed

subsection \<open>The prefetch front\<close>

text \<open>
  The prefetch count is only ever lowered, never below one, and when more than one piece is
  allowed the pieces together take at most 40 percent of the cache.
\<close>

theorem pieceBudgetCount_bounds:
  assumes "1 < n" and "0 < capacity" and "0 < pieceLength" and "capacity < 2 ^ 57"
  defines "c \<equiv> pieceBudgetCount n capacity pieceLength"
  shows "1 \<le> c \<and> c \<le> n \<and> (c = 1 \<or> 100 * (c * pieceLength) \<le> 40 * capacity)"
proof -
  let ?m = "capacity * 40 div 100 div pieceLength"
  have "in64 (capacity * 40)" using assms(2,4) by (simp add: in64_def)
  then have eq: "c = min n (max 1 ?m)"
    using assms(1-3) by (simp add: c_def pieceBudgetCount_def prefetchBudgetPct_def go_arith
      Let_def min_def max_def pos_imp_zdiv_nonneg_iff)
  moreover have "100 * (c * pieceLength) \<le> 40 * capacity" if "c \<le> ?m"
  proof -
    from that have "c * pieceLength \<le> ?m * pieceLength"
      using assms(3) by (intro mult_right_mono) auto
    also have "\<dots> \<le> capacity * 40 div 100" using assms(3) by (rule div_mult_le)
    finally show ?thesis by simp
  qed
  ultimately show ?thesis using assms(1) by (auto simp: max_def min_def split: if_splits)
qed

theorem pieceBudgetCount_bounds_witness:
  "(1 < (25::int) \<and> 0 < (134217728::int) \<and> 0 < (4194304::int) \<and> (134217728::int) < 2 ^ 57) \<and>
   pieceBudgetCount 25 134217728 4194304 \<le> 25 \<and> pieceBudgetCount 25 134217728 4194304 = 12"
  using pieceBudgetCount_bounds [of 25 134217728 4194304]
  by (simp add: pieceBudgetCount_def prefetchBudgetPct_def wrap64_def tdiv_def)

text \<open>
  A reader's share of the readahead never exceeds the whole, is at least 8 MiB unless the
  whole is smaller, and where the floor of 8 MiB does not apply the shares of all the readers
  together stay within the whole.
\<close>

theorem perReaderReadahead_bounds:
  assumes "0 \<le> tot" and "0 < readers"
  defines "ra \<equiv> perReaderReadahead tot readers"
  shows "ra \<le> tot \<and> min tot (8 * 2 ^ 20) \<le> ra \<and>
    (readers * ra \<le> tot \<or> tot < readers * (8 * 2 ^ 20))"
proof -
  let ?q = "tot div readers"
  have le: "?q \<le> tot" using assms(1,2) by (rule div_le_self)
  have "ra = (let r = if ?q < 8 * 2 ^ 20 then 8 * 2 ^ 20 else ?q in if tot < r then tot else r)"
    using assms(1,2)
    by (simp add: ra_def perReaderReadahead_def minPerReaderReadahead_def go_arith)
  then have eq: "ra = min tot (max (8 * 2 ^ 20) ?q)"
    using le by (auto simp: Let_def min_def max_def)
  have "readers * ?q \<le> tot"
    using div_mult_le [OF assms(2), of tot] by (simp add: mult.commute)
  moreover have "tot < readers * (8 * 2 ^ 20)" if "?q < 8 * 2 ^ 20"
  proof -
    have "(?q + 1) * readers \<le> 8 * 2 ^ 20 * readers"
      using that assms(2) by (intro mult_right_mono) auto
    with mult_div_bounds(1) [OF assms(2), of tot] show ?thesis by (simp add: algebra_simps)
  qed
  ultimately show ?thesis using eq le by (auto simp: min_def max_def)
qed

theorem perReaderReadahead_bounds_witness:
  "((0::int) \<le> 67108864 \<and> (0::int) < 3) \<and> 3 * perReaderReadahead 67108864 3 \<le> 67108864"
  using perReaderReadahead_bounds [of 67108864 3] by simp

end
