(* ===== verification/PieceStore.thy ===== *)
theory PieceStore
  imports Prelude
begin

text \<open>
  The memory of one torrent's cache, after \<^verbatim>\<open>mempiece.go\<close>, \<^verbatim>\<open>piece.go\<close> and the buffer free list
  of \<^verbatim>\<open>cache.go\<close> in \<^verbatim>\<open>src/server/torr/storage/torrstor\<close>. Buffers are byte arrays at addresses of
  an explicit heap, because the code shares them: a buffer moves from a piece to the free list
  and from there to another piece, and its old bytes are not cleared. A \<^verbatim>\<open>Piece\<close> and its
  \<^verbatim>\<open>MemPiece\<close> (they point to each other and are made together) are one record.
  A Go panic is the result \<open>None\<close>; the state reached before the panic is kept.
\<close>

subsection \<open>State\<close>

datatype prio = PiecePriorityNone | PiecePriorityNormal | PiecePriorityHigh
  | PiecePriorityReadahead | PiecePriorityNext | PiecePriorityNow

text \<open>The calls the cache makes on the torrent engine, in the order it makes them.\<close>

datatype torr_call = SetPriority nat prio | UpdateCompletion nat
  | SetPiecePriorities "(nat \<times> prio) list" | SetPlaybackPressure bool int

record piece =
  Id :: nat
  Size :: int
  Complete :: bool
  Accessed :: int
  buffer :: "nat option"

text \<open>
  \<open>objs\<close> are the \<^verbatim>\<open>Piece\<close> objects \<^verbatim>\<open>Init\<close> made: they outlive \<^verbatim>\<open>Close\<close>, because the engine keeps
  references to them. \<open>pieces\<close> is the key set of the map \<^verbatim>\<open>c.pieces\<close>, \<open>None\<close> for a nil map.
  \<open>cleanTrigger\<close> says whether the one-slot channel is full. \<open>saves\<close> are the goroutines
  \<^verbatim>\<open>go p.saveIndexPieceToDisk()\<close> that have been started and have not run yet.
\<close>

record mem =
  capacity :: int
  filled :: int
  pieceLength :: int
  pieceCount :: nat
  objs :: "piece list"
  pieces :: "nat list option"
  isClosed :: bool
  cleanTrigger :: bool
  isIndexPiece :: "bool list"
  free :: "nat list"
  freeCap :: int
  heap :: "byte list list"
  torrent :: bool
  calls :: "torr_call list"
  saves :: "nat list"

definition upd_obj :: "nat \<Rightarrow> (piece \<Rightarrow> piece) \<Rightarrow> 'a mem_scheme \<Rightarrow> 'a mem_scheme" where
  "upd_obj i f s = s\<lparr>objs := (objs s)[i := f (objs s ! i)]\<rparr>"

abbreviation is_index :: "'a mem_scheme \<Rightarrow> nat \<Rightarrow> bool" where
  "is_index s i \<equiv> i < length (isIndexPiece s) \<and> isIndexPiece s ! i"

subsection \<open>The buffer free list\<close>

definition getBuffer :: "'a mem_scheme \<Rightarrow> nat option \<times> 'a mem_scheme" where
  "getBuffer c =
     (if length (free c) = 0 then (None, c)
      else (Some (free c ! (length (free c) - 1)),
            c\<lparr>free := take (length (free c) - 1) (free c)\<rparr>))"

definition putBuffer :: "nat \<Rightarrow> 'a mem_scheme \<Rightarrow> 'a mem_scheme" where
  "putBuffer b c =
     (if int (length (heap c ! b)) \<noteq> pieceLength c \<or> pieceLength c = 0 \<or> isClosed c then c
      else if int (length (free c)) \<ge> freeCap c then c
      else c\<lparr>free := free c @ [b]\<rparr>)"

subsection \<open>Reading and writing a piece\<close>

text \<open>\<^verbatim>\<open>make([]byte, n)\<close>: a new zeroed array; a negative length panics.\<close>

definition make_buffer :: "'a mem_scheme \<Rightarrow> nat option \<times> 'a mem_scheme" where
  "make_buffer c =
     (if pieceLength c < 0 then (None, c)
      else (Some (length (heap c)), c\<lparr>heap := heap c @ [replicate (nat (pieceLength c)) 0]\<rparr>))"

definition ensure_buffer :: "nat \<Rightarrow> 'a mem_scheme \<Rightarrow> nat option \<times> 'a mem_scheme" where
  "ensure_buffer i s =
     (case buffer (objs s ! i) of
        Some a \<Rightarrow> (Some a, s)
      | None \<Rightarrow>
          (let s = s\<lparr>cleanTrigger := True\<rparr>;
               (b, s) = getBuffer s;
               (b, s) = (case b of Some a \<Rightarrow> (Some a, s) | None \<Rightarrow> make_buffer s)
           in (b, upd_obj i (\<lambda>p. p\<lparr>buffer := b\<rparr>) s)))"

definition splice :: "byte list \<Rightarrow> nat \<Rightarrow> byte list \<Rightarrow> byte list" where
  "splice buf off b =
     (let n = min (length buf - off) (length b)
      in take off buf @ take n b @ drop (off + n) buf)"

definition WriteAt :: "int \<Rightarrow> byte list \<Rightarrow> int \<Rightarrow> nat \<Rightarrow> 'a mem_scheme \<Rightarrow>
    nat option \<times> 'a mem_scheme" where
  "WriteAt now b off i s =
     (case ensure_buffer i s of
        (None, s) \<Rightarrow> (None, s)
      | (Some a, s) \<Rightarrow>
          if off < 0 \<or> off > int (length (heap s ! a)) then (None, s)
          else
            let n = min (length (heap s ! a) - nat off) (length b);
                s = s\<lparr>heap := (heap s)[a := splice (heap s ! a) (nat off) b]\<rparr>;
                sz = wrap64 (Size (objs s ! i) + int n);
                sz = (if sz > pieceLength s then pieceLength s else sz)
            in (Some n, upd_obj i (\<lambda>p. p\<lparr>Size := sz, Accessed := now\<rparr>) s))"

datatype read_result = Data "byte list" | EOF

definition buf_bytes :: "nat \<Rightarrow> 'a mem_scheme \<Rightarrow> byte list" where
  "buf_bytes i s = (case buffer (objs s ! i) of None \<Rightarrow> [] | Some a \<Rightarrow> heap s ! a)"

definition ReadAt :: "int \<Rightarrow> nat \<Rightarrow> int \<Rightarrow> nat \<Rightarrow> 'a mem_scheme \<Rightarrow>
    read_result option \<times> 'a mem_scheme" where
  "ReadAt now blen off i s =
     (let buf = buf_bytes i s;
          len = int (length buf);
          sz = int blen;
          sz = (if wrap64 (sz + off) > len
                then let sz = wrap64 (len - off) in if sz < 0 then 0 else sz
                else sz)
      in if len < off \<or> len < wrap64 (off + sz) then (Some EOF, s)
         else if off < 0 \<or> wrap64 (off + sz) < off then (None, s)
         else
           let dat = take (nat sz) (drop (nat off) buf);
               s = upd_obj i (\<lambda>p. p\<lparr>Accessed := now\<rparr>) s;
               s = (if wrap64 (int blen + off) \<ge> Size (objs s ! i)
                    then s\<lparr>cleanTrigger := True\<rparr> else s)
           in (Some (if length dat = 0 then EOF else Data dat), s))"

definition mem_Release :: "nat \<Rightarrow> 'a mem_scheme \<Rightarrow> 'a mem_scheme" where
  "mem_Release i s =
     (let s = (case buffer (objs s ! i) of
                 None \<Rightarrow> s
               | Some a \<Rightarrow> upd_obj i (\<lambda>p. p\<lparr>buffer := None\<rparr>) (putBuffer a s))
      in upd_obj i (\<lambda>p. p\<lparr>Size := 0, Complete := False\<rparr>) s)"

definition drop_piece :: "nat \<Rightarrow> 'a mem_scheme \<Rightarrow> 'a mem_scheme" where
  "drop_piece i s = upd_obj i (\<lambda>p. p\<lparr>buffer := None, Size := 0, Complete := False\<rparr>) s"

subsection \<open>Piece\<close>

definition NewPiece :: "nat \<Rightarrow> piece" where
  "NewPiece i = \<lparr>Id = i, Size = 0, Complete = False, Accessed = 0, buffer = None\<rparr>"

definition MarkComplete :: "nat \<Rightarrow> 'a mem_scheme \<Rightarrow> 'a mem_scheme" where
  "MarkComplete i s =
     (let s = upd_obj i (\<lambda>p. p\<lparr>Complete := True\<rparr>) s
      in if is_index s (Id (objs s ! i)) then s\<lparr>saves := saves s @ [i]\<rparr> else s)"

definition Completion :: "nat \<Rightarrow> 'a mem_scheme \<Rightarrow> bool" where
  "Completion i s = Complete (objs s ! i)"

definition Release :: "nat \<Rightarrow> 'a mem_scheme \<Rightarrow> 'a mem_scheme" where
  "Release i s =
     (if \<not> isClosed s \<and> is_index s (Id (objs s ! i)) then s
      else
        let s = mem_Release i s
        in if \<not> isClosed s \<and> torrent s
           then s\<lparr>calls := calls s @ [SetPriority (Id (objs s ! i)) PiecePriorityNone,
                                     UpdateCompletion (Id (objs s ! i))]\<rparr>
           else s)"

definition removePiece :: "nat \<Rightarrow> 'a mem_scheme \<Rightarrow> 'a mem_scheme" where
  "removePiece i c = (if \<not> isClosed c then Release i c else c)"

subsection \<open>Who owns a buffer\<close>

text \<open>The addresses of the buffers that pieces hold, in the order of the pieces.\<close>

definition owned :: "'a mem_scheme \<Rightarrow> nat list" where
  "owned s = List.map_filter buffer (objs s)"

definition piece_ok :: "'a mem_scheme \<Rightarrow> piece \<Rightarrow> bool" where
  "piece_ok s p \<longleftrightarrow> 0 \<le> Size p \<and> Size p \<le> pieceLength s \<and> (buffer p = None \<longrightarrow> Size p = 0)"

definition buf_ok :: "'a mem_scheme \<Rightarrow> nat \<Rightarrow> bool" where
  "buf_ok s a \<longleftrightarrow> a < length (heap s) \<and> length (heap s ! a) = nat (pieceLength s)"

text \<open>
  The invariant: no buffer has two owners (two pieces, a piece and the free list, or the free list
  twice), every buffer in use or on the free list has exactly the piece length, the free list
  keeps its bound, and a piece's size lies between 0 and the piece length and is 0 without a
  buffer.
\<close>

definition bufs_inv :: "'a mem_scheme \<Rightarrow> bool" where
  "bufs_inv s \<longleftrightarrow>
     distinct (owned s @ free s) \<and> (\<forall>a \<in> set (owned s @ free s). buf_ok s a)"

definition mem_inv :: "'a mem_scheme \<Rightarrow> bool" where
  "mem_inv s \<longleftrightarrow>
     0 < pieceLength s \<and> pieceLength s < 2 ^ 62 \<and> length (objs s) = pieceCount s \<and>
     length (isIndexPiece s) = pieceCount s \<and> bufs_inv s \<and>
     0 \<le> freeCap s \<and> int (length (free s)) \<le> freeCap s \<and>
     (\<forall>p \<in> set (objs s). piece_ok s p)"

definition contents :: "'a mem_scheme \<Rightarrow> nat \<Rightarrow> byte list option" where
  "contents s i = (if i < length (objs s) then map_option ((!) (heap s)) (buffer (objs s ! i)) else None)"

lemma set_owned: "set (owned s) = {a. \<exists>p \<in> set (objs s). buffer p = Some a}"
  by (simp add: owned_def set_map_filter)

lemma owned_nth: "i < length (objs s) \<Longrightarrow> buffer (objs s ! i) = Some a \<Longrightarrow> a \<in> set (owned s)"
  by (simp add: owned_def map_filter_nth)

lemma owned_disjoint:
  "distinct (owned s) \<Longrightarrow> i < length (objs s) \<Longrightarrow> j < length (objs s) \<Longrightarrow>
    buffer (objs s ! i) = Some a \<Longrightarrow> buffer (objs s ! j) = Some a \<Longrightarrow> i = j"
  unfolding owned_def by (rule distinct_map_filter_inj)

lemma bufs_inv_sub:
  assumes "bufs_inv s" and "mset (owned s' @ free s') \<subseteq># mset (owned s @ free s)"
    and "\<And>a. buf_ok s a \<Longrightarrow> buf_ok s' a"
  shows "bufs_inv s'"
  using assms distinct_mset_sub [OF _ assms(2)] mset_subset_eqD [OF assms(2)]
  by (auto simp: bufs_inv_def simp del: mset_append set_append distinct_append)

lemma upd_obj_simps [cache_simps]:
  "pieceLength (upd_obj i f s) = pieceLength s" "pieceCount (upd_obj i f s) = pieceCount s"
  "isIndexPiece (upd_obj i f s) = isIndexPiece s" "free (upd_obj i f s) = free s"
  "freeCap (upd_obj i f s) = freeCap s" "heap (upd_obj i f s) = heap s"
  "isClosed (upd_obj i f s) = isClosed s" "pieces (upd_obj i f s) = pieces s"
  "calls (upd_obj i f s) = calls s" "torrent (upd_obj i f s) = torrent s"
  "capacity (upd_obj i f s) = capacity s" "filled (upd_obj i f s) = filled s"
  "saves (upd_obj i f s) = saves s" "cleanTrigger (upd_obj i f s) = cleanTrigger s"
  "length (objs (upd_obj i f s)) = length (objs s)"
  "objs (upd_obj i f s) = (objs s)[i := f (objs s ! i)]"
  "mem.more (upd_obj i f s) = mem.more s"
  by (simp_all add: upd_obj_def)

lemma owned_upd_keep:
  assumes "\<And>p. buffer (f p) = buffer p"
  shows "owned (upd_obj i f s) = owned s"
proof (cases "i < length (objs s)")
  case True
  then show ?thesis
    using map_filter_update [OF True, of buffer] map_filter_split [OF True, of buffer] assms
    by (simp add: owned_def cache_simps)
qed (simp add: owned_def cache_simps list_update_beyond)

lemma owned_upd_set:
  assumes "i < length (objs s)" and "buffer (objs s ! i) = None" and "\<And>p. buffer (f p) = Some a"
  shows "mset (owned (upd_obj i f s)) = add_mset a (mset (owned s))"
  using assms map_filter_split [OF assms(1), of buffer]
  by (simp add: owned_def cache_simps map_filter_update)

lemma owned_upd_clear:
  assumes "i < length (objs s)" and "buffer (objs s ! i) = Some a" and "\<And>p. buffer (f p) = None"
  shows "mset (owned s) = add_mset a (mset (owned (upd_obj i f s)))"
  using assms map_filter_split [OF assms(1), of buffer]
  by (simp add: owned_def cache_simps map_filter_update)

lemma mem_inv_upd_keep:
  assumes "mem_inv s" and "\<And>p. buffer (f p) = buffer p"
    and "i < length (objs s) \<Longrightarrow> piece_ok s (f (objs s ! i))"
  shows "mem_inv (upd_obj i f s)"
proof -
  have "piece_ok (upd_obj i f s) p = piece_ok s p" for p
    by (simp add: piece_ok_def cache_simps)
  moreover have "\<forall>p \<in> set (objs (upd_obj i f s)). piece_ok s p"
    using assms(1,3) set_update_subset_insert [of "objs s" i "f (objs s ! i)"]
    by (cases "i < length (objs s)") (auto simp: mem_inv_def cache_simps list_update_beyond)
  ultimately show ?thesis
    using assms(1) owned_upd_keep [of f i s, OF assms(2)]
    by (simp add: mem_inv_def bufs_inv_def buf_ok_def cache_simps)
qed

subsection \<open>Every operation keeps the invariant\<close>

lemma getBuffer_cases:
  obtains (none) "free s = []" "getBuffer s = (None, s)"
  | (some) a fs where "free s = fs @ [a]" "getBuffer s = (Some a, s\<lparr>free := fs\<rparr>)"
proof (cases "free s" rule: rev_cases)
  case Nil
  then show ?thesis by (intro none) (simp_all add: getBuffer_def)
next
  case (snoc fs a)
  then show ?thesis by (intro some) (simp_all add: getBuffer_def)
qed

lemma putBuffer_cases:
  obtains (dropped) "putBuffer a s = s"
  | (kept) "putBuffer a s = s\<lparr>free := free s @ [a]\<rparr>" "\<not> isClosed s"
      "int (length (free s)) < freeCap s"
proof -
  let ?wrong = "int (length (heap s ! a)) \<noteq> pieceLength s \<or> pieceLength s = 0 \<or> isClosed s"
  let ?full = "int (length (free s)) \<ge> freeCap s"
  consider "?wrong" | "\<not> ?wrong" "?full" | "\<not> ?wrong" "\<not> ?full" by blast
  then show ?thesis
  proof cases
    case 1
    then have "putBuffer a s = s" unfolding putBuffer_def by (simp only: if_True)
    then show ?thesis by (rule dropped)
  next
    case 2
    then have "putBuffer a s = s" unfolding putBuffer_def by (simp only: if_True if_False)
    then show ?thesis by (rule dropped)
  next
    case 3
    then show ?thesis by (intro kept) (simp_all add: putBuffer_def)
  qed
qed

lemma mem_inv_give:
  assumes "mem_inv s" and "i < length (objs s)" and "buffer (objs s ! i) = None"
    and "objs t = objs s" and "pieceLength t = pieceLength s" and "pieceCount t = pieceCount s"
    and "isIndexPiece t = isIndexPiece s" and "freeCap t = freeCap s"
    and "length (free t) \<le> length (free s)"
    and "distinct (a # owned t @ free t)" and "\<forall>b \<in> set (a # owned t @ free t). buf_ok t b"
  shows "mem_inv (upd_obj i (\<lambda>p. p\<lparr>buffer := Some a\<rparr>) t)" (is "mem_inv ?t")
proof -
  have m: "mset (owned ?t @ free ?t) = mset (a # owned t @ free t)"
    using owned_upd_set [of i t "\<lambda>p. p\<lparr>buffer := Some a\<rparr>" a] assms(2-4) by (simp add: cache_simps)
  have bok: "buf_ok ?t b = buf_ok t b" for b by (simp add: buf_ok_def cache_simps)
  have pok: "piece_ok ?t p = piece_ok s p" for p
    using assms(5) by (simp add: piece_ok_def cache_simps)
  from m assms(10) have "distinct (owned ?t @ free ?t)"
    by (metis mset_eq_imp_distinct_iff)
  moreover from m assms(11) have "\<forall>b \<in> set (owned ?t @ free ?t). buf_ok ?t b"
    unfolding bok by (metis mset_eq_setD)
  moreover have "\<forall>p \<in> set (objs ?t). piece_ok s p"
    using assms(1-4) set_update_subset_insert [of "objs s" i]
    by (fastforce simp: mem_inv_def cache_simps piece_ok_def)
  ultimately show ?thesis
    using assms(1,4-9) by (simp add: mem_inv_def bufs_inv_def pok cache_simps)
qed

text \<open>
  What \<^verbatim>\<open>WriteAt\<close> does before it copies: afterwards the piece has a buffer, its own if it had one,
  and only the free list, the new buffer and the piece's buffer field have changed.
\<close>

lemma ensure_buffer_inv:
  assumes "mem_inv s" and "i < length (objs s)"
  obtains a s' where "ensure_buffer i s = (Some a, s')" "mem_inv s'"
    "buffer (objs s' ! i) = Some a" "length (objs s') = length (objs s)"
    "Size (objs s' ! i) = Size (objs s ! i)"
    "\<forall>j. j \<noteq> i \<longrightarrow> objs s' ! j = objs s ! j"
    "\<forall>b < length (heap s). heap s' ! b = heap s ! b"
    "pieceLength s' = pieceLength s"
    "buffer (objs s ! i) = None \<or> s' = s"
proof (cases "buffer (objs s ! i)")
  case (Some a)
  with assms show ?thesis by (intro that [of a s]) (simp_all add: ensure_buffer_def)
next
  case None
  let ?set = "\<lambda>a. upd_obj i (\<lambda>p. p\<lparr>buffer := Some a\<rparr>)"
  have ok: "piece_ok s (objs s ! i)" using assms by (simp add: mem_inv_def)
  let ?s = "s\<lparr>cleanTrigger := True\<rparr>"
  show ?thesis
  proof (cases rule: getBuffer_cases [of ?s])
    case none
    let ?t = "?s\<lparr>heap := heap s @ [replicate (nat (pieceLength s)) 0]\<rparr>"
    let ?a = "length (heap s)"
    have e: "ensure_buffer i s = (Some ?a, ?set ?a ?t)"
      using assms None none by (simp add: ensure_buffer_def make_buffer_def mem_inv_def)
    have new: "\<And>b. buf_ok s b \<Longrightarrow> buf_ok ?t b" "buf_ok ?t ?a" "owned ?t = owned s"
      by (simp_all add: buf_ok_def nth_append owned_def)
    have old: "distinct (owned s @ free s)"
      "\<forall>b \<in> set (owned s @ free s). buf_ok s b \<and> b < length (heap s)"
      using assms(1) by (auto simp: mem_inv_def bufs_inv_def buf_ok_def)
    have "mem_inv (?set ?a ?t)"
    proof (rule mem_inv_give [OF assms None])
      show "distinct (?a # owned ?t @ free ?t)" using old new(3) by auto
      show "\<forall>b \<in> set (?a # owned ?t @ free ?t). buf_ok ?t b" using old new by auto
    qed simp_all
    with e assms(2) None show ?thesis
      by (intro that [of ?a "?set ?a ?t"]) (simp_all add: cache_simps nth_append)
  next
    case (some a fs)
    have e: "ensure_buffer i s = (Some a, ?set a (?s\<lparr>free := fs\<rparr>))"
      using None some by (simp add: ensure_buffer_def)
    let ?t = "?s\<lparr>free := fs\<rparr>"
    have "mem_inv (?set a ?t)"
    proof (rule mem_inv_give [OF assms None])
      show "distinct (a # owned ?t @ free ?t)" "\<forall>b \<in> set (a # owned ?t @ free ?t). buf_ok ?t b"
        using assms(1) some by (auto simp: mem_inv_def bufs_inv_def buf_ok_def owned_def)
    qed (use some in simp_all)
    with e assms(2) None show ?thesis
      by (intro that [of a "?set a ?t"]) (simp_all add: cache_simps)
  qed
qed

lemma length_splice [simp]: "off \<le> length buf \<Longrightarrow> length (splice buf off b) = length buf"
  by (simp add: splice_def Let_def)

lemma owned_heap [simp]: "owned (s\<lparr>heap := h\<rparr>) = owned s"
  by (simp add: owned_def)

lemma mem_inv_heap:
  assumes "mem_inv s" and "length bs = length (heap s ! a)"
  shows "mem_inv (s\<lparr>heap := (heap s)[a := bs]\<rparr>)"
proof -
  have "buf_ok (s\<lparr>heap := (heap s)[a := bs]\<rparr>) b" if "buf_ok s b" for b
    using that assms(2) by (cases "a = b") (auto simp: buf_ok_def)
  with assms(1) show ?thesis by (simp add: mem_inv_def bufs_inv_def piece_ok_def)
qed

lemma Size_add_ok:
  assumes "mem_inv s" and "i < length (objs s)" and "int n \<le> pieceLength s"
  shows "wrap64 (Size (objs s ! i) + int n) = Size (objs s ! i) + int n"
    and "0 \<le> Size (objs s ! i)"
proof -
  have "piece_ok s (objs s ! i)" "pieceLength s < 2 ^ 62"
    using assms by (simp_all add: mem_inv_def)
  with assms(3) show "wrap64 (Size (objs s ! i) + int n) = Size (objs s ! i) + int n"
    and "0 \<le> Size (objs s ! i)"
    by (auto simp: piece_ok_def in64_def intro!: wrap64_id)
qed

text \<open>The number of bytes a write at \<open>off\<close> copies, and the piece's size afterwards.\<close>

abbreviation copied :: "'a mem_scheme \<Rightarrow> int \<Rightarrow> byte list \<Rightarrow> nat" where
  "copied s off b \<equiv> min (nat (pieceLength s) - nat off) (length b)"

abbreviation grown :: "'a mem_scheme \<Rightarrow> nat \<Rightarrow> nat \<Rightarrow> int" where
  "grown s i n \<equiv> min (pieceLength s) (Size (objs s ! i) + int n)"

text \<open>The effect of a write that does not panic, in terms of the state that holds the buffer.\<close>

lemma ensure_buffer_length:
  assumes "mem_inv s'" and "buffer (objs s' ! i) = Some a" and "i < length (objs s')"
  shows "length (heap s' ! a) = nat (pieceLength s')" and "a < length (heap s')"
  using owned_nth [OF assms(3,2)] assms(1) by (auto simp: mem_inv_def bufs_inv_def buf_ok_def)

lemma WriteAt_effect:
  assumes "mem_inv s" and "i < length (objs s)" and "0 \<le> off" and "off \<le> pieceLength s"
  obtains a s' where "ensure_buffer i s = (Some a, s')" "mem_inv s'"
    "pieceLength s' = pieceLength s" "length (objs s') = length (objs s)"
    "buffer (objs s' ! i) = Some a"
    "\<forall>j. j \<noteq> i \<longrightarrow> objs s' ! j = objs s ! j"
    "\<forall>b < length (heap s). heap s' ! b = heap s ! b"
    "buffer (objs s ! i) = None \<or> s' = s"
    "WriteAt now b off i s =
      (Some (copied s off b),
       upd_obj i (\<lambda>p. p\<lparr>Size := grown s i (copied s off b), Accessed := now\<rparr>)
         (s'\<lparr>heap := (heap s')[a := splice (heap s' ! a) (nat off) b]\<rparr>))"
proof -
  obtain a s' where e: "ensure_buffer i s = (Some a, s')" and inv: "mem_inv s'"
    and a: "buffer (objs s' ! i) = Some a" and len: "length (objs s') = length (objs s)"
    and sz: "Size (objs s' ! i) = Size (objs s ! i)"
    and o: "\<forall>j. j \<noteq> i \<longrightarrow> objs s' ! j = objs s ! j"
    and h: "\<forall>b < length (heap s). heap s' ! b = heap s ! b"
    and pl: "pieceLength s' = pieceLength s"
    and old: "buffer (objs s ! i) = None \<or> s' = s"
    by (rule ensure_buffer_inv [OF assms(1,2)])
  have ba: "length (heap s' ! a) = nat (pieceLength s)"
    using ensure_buffer_length(1) [OF inv a] assms(2) len pl by simp
  define n where "n = copied s off b"
  have "int n \<le> pieceLength s'" using assms(3,4) pl unfolding n_def by linarith
  then have w: "wrap64 (Size (objs s ! i) + int n) = Size (objs s ! i) + int n"
    using Size_add_ok(1) [OF inv, of i n] assms(2) len by (simp only: sz)
  have g: "(if pieceLength s < x then pieceLength s else x) = min (pieceLength s) x" for x
    by (simp add: min_def)
  have "WriteAt now b off i s =
      (Some (copied s off b),
       upd_obj i (\<lambda>p. p\<lparr>Size := grown s i (copied s off b), Accessed := now\<rparr>)
         (s'\<lparr>heap := (heap s')[a := splice (heap s' ! a) (nat off) b]\<rparr>))"
    using e assms(3,4) ba pl by (simp add: WriteAt_def Let_def sz w g flip: n_def)
  with e inv pl len a o h old show ?thesis by (rule that)
qed

lemma WriteAt_panic:
  assumes "mem_inv s" and "i < length (objs s)" and "\<not> (0 \<le> off \<and> off \<le> pieceLength s)"
  shows "WriteAt now b off i s = (None, snd (ensure_buffer i s))"
proof -
  obtain a s' where e: "ensure_buffer i s = (Some a, s')" and inv: "mem_inv s'"
    and a: "buffer (objs s' ! i) = Some a" and len: "length (objs s') = length (objs s)"
    and pl: "pieceLength s' = pieceLength s"
    by (rule ensure_buffer_inv [OF assms(1,2)])
  then have "length (heap s' ! a) = nat (pieceLength s)"
    using ensure_buffer_length(1) [OF inv a] assms(2) by simp
  with e assms(1,3) show ?thesis by (auto simp: WriteAt_def mem_inv_def)
qed

lemma WriteAt_inv:
  assumes "mem_inv s" and "i < length (objs s)"
  shows "mem_inv (snd (WriteAt now b off i s))"
proof (cases "0 \<le> off \<and> off \<le> pieceLength s")
  case True
  then have o: "0 \<le> off" "off \<le> pieceLength s" by auto
  obtain a s' where e: "ensure_buffer i s = (Some a, s')" and inv: "mem_inv s'"
    and pl: "pieceLength s' = pieceLength s" and len: "length (objs s') = length (objs s)"
    and a: "buffer (objs s' ! i) = Some a"
    and w: "WriteAt now b off i s =
      (Some (copied s off b),
       upd_obj i (\<lambda>p. p\<lparr>Size := grown s i (copied s off b), Accessed := now\<rparr>)
         (s'\<lparr>heap := (heap s')[a := splice (heap s' ! a) (nat off) b]\<rparr>))"
    by (rule WriteAt_effect [OF assms o, of now b])
  let ?h = "s'\<lparr>heap := (heap s')[a := splice (heap s' ! a) (nat off) b]\<rparr>"
  have "length (heap s' ! a) = nat (pieceLength s)"
    using ensure_buffer_length(1) [OF inv a] assms(2) len pl by simp
  then have "mem_inv ?h" using inv o
    by (intro mem_inv_heap length_splice) (simp_all add: nat_mono)
  moreover have "0 \<le> Size (objs s ! i)" "0 < pieceLength s"
    using assms by (simp_all add: mem_inv_def piece_ok_def)
  ultimately show ?thesis
    unfolding w snd_conv using a pl by (intro mem_inv_upd_keep) (simp_all add: piece_ok_def)
next
  case False
  obtain a s' where "ensure_buffer i s = (Some a, s')" "mem_inv s'"
    by (rule ensure_buffer_inv [OF assms])
  with WriteAt_panic [OF assms False] show ?thesis by simp
qed

lemma ReadAt_inv:
  assumes "mem_inv s"
  shows "mem_inv (snd (ReadAt now n off i s))"
proof -
  have "mem_inv (upd_obj i (\<lambda>p. p\<lparr>Accessed := now\<rparr>) s)"
    using assms by (intro mem_inv_upd_keep) (auto simp: mem_inv_def piece_ok_def)
  moreover have "mem_inv (t\<lparr>cleanTrigger := True\<rparr>)" if "mem_inv t" for t :: "'a mem_scheme"
    using that by (simp add: mem_inv_def bufs_inv_def buf_ok_def owned_def piece_ok_def)
  ultimately show ?thesis using assms by (simp add: ReadAt_def Let_def)
qed

lemma mem_inv_free:
  assumes "mem_inv s" and "a \<notin> set (owned s @ free s)" and "buf_ok s a"
    and "int (length (free s)) < freeCap s"
  shows "mem_inv (s\<lparr>free := free s @ [a]\<rparr>)"
proof -
  have "owned (s\<lparr>free := free s @ [a]\<rparr>) = owned s" by (simp add: owned_def)
  moreover have "buf_ok (s\<lparr>free := free s @ [a]\<rparr>) b = buf_ok s b" for b
    by (simp add: buf_ok_def)
  ultimately show ?thesis
    using assms by (auto simp: mem_inv_def bufs_inv_def piece_ok_def)
qed

text \<open>Taking the buffer away from a piece, whatever else is reset with it.\<close>

lemma mem_inv_clear:
  assumes "mem_inv s" and "\<And>p. buffer (f p) = None" and "\<And>p. Size (f p) = 0"
  shows "mem_inv (upd_obj i f s)"
proof (cases "i < length (objs s)")
  case True
  have "mset (owned (upd_obj i f s)) \<subseteq># mset (owned s)"
  proof (cases "buffer (objs s ! i)")
    case None
    then show ?thesis
      using map_filter_split [OF True, of buffer] map_filter_update [OF True, of buffer] assms(2)
      by (simp add: owned_def cache_simps)
  next
    case (Some a)
    from owned_upd_clear [OF True this, of f] assms(2) show ?thesis by simp
  qed
  then have sub: "mset (owned (upd_obj i f s) @ free (upd_obj i f s)) \<subseteq># mset (owned s @ free s)"
    by (simp only: mset_append upd_obj_simps subset_mset.add_right_mono)
  have "bufs_inv s" using assms(1) by (simp only: mem_inv_def)
  then have "bufs_inv (upd_obj i f s)"
    by (rule bufs_inv_sub [OF _ sub]) (simp only: buf_ok_def upd_obj_simps)
  moreover have "\<forall>p \<in> set (objs (upd_obj i f s)). piece_ok s p"
    using assms True set_update_subset_insert [of "objs s" i "f (objs s ! i)"]
    by (fastforce simp: mem_inv_def cache_simps piece_ok_def)
  ultimately show ?thesis
    using assms(1) by (simp add: mem_inv_def piece_ok_def cache_simps)
next
  case False
  then have "upd_obj i f s = s" by (simp add: upd_obj_def list_update_beyond)
  with assms(1) show ?thesis by simp
qed

lemma drop_piece_inv: "mem_inv s \<Longrightarrow> mem_inv (drop_piece i s)"
  unfolding drop_piece_def by (rule mem_inv_clear) simp_all

lemma upd_obj_twice: "upd_obj i f (upd_obj i g s) = upd_obj i (\<lambda>p. f (g p)) s"
  by (cases "i < length (objs s)") (simp_all add: upd_obj_def list_update_beyond)

lemma upd_obj_free: "upd_obj i f (s\<lparr>free := fs\<rparr>) = upd_obj i f s\<lparr>free := fs\<rparr>"
  by (simp add: upd_obj_def)

lemma mem_Release_drop:
  "mem_Release i s = drop_piece i s \<or>
   (\<exists>a. buffer (objs s ! i) = Some a \<and> int (length (free s)) < freeCap s \<and>
      mem_Release i s = (drop_piece i s)\<lparr>free := free s @ [a]\<rparr>)"
proof (cases "buffer (objs s ! i)")
  case None
  then have "(objs s ! i)\<lparr>buffer := None, Size := 0, Complete := False\<rparr> =
      (objs s ! i)\<lparr>Size := 0, Complete := False\<rparr>"
    by (cases "objs s ! i") simp
  then have "drop_piece i s = upd_obj i (\<lambda>p. p\<lparr>Size := 0, Complete := False\<rparr>) s"
    by (simp only: drop_piece_def upd_obj_def)
  with None show ?thesis by (simp add: mem_Release_def)
next
  case (Some a)
  show ?thesis
  proof (cases rule: putBuffer_cases [of a s])
    case dropped
    with Some show ?thesis by (simp add: mem_Release_def drop_piece_def upd_obj_twice)
  next
    case kept
    with Some show ?thesis
      by (simp add: mem_Release_def drop_piece_def upd_obj_twice upd_obj_free)
  qed
qed

lemma mem_Release_inv:
  assumes "mem_inv s" and "i < length (objs s)"
  shows "mem_inv (mem_Release i s)"
  using mem_Release_drop [of i s]
proof
  assume "mem_Release i s = drop_piece i s"
  with drop_piece_inv [OF assms(1)] show ?thesis by simp
next
  assume "\<exists>a. buffer (objs s ! i) = Some a \<and> int (length (free s)) < freeCap s \<and>
      mem_Release i s = (drop_piece i s)\<lparr>free := free s @ [a]\<rparr>"
  then obtain a where a: "buffer (objs s ! i) = Some a" "int (length (free s)) < freeCap s"
    and r: "mem_Release i s = (drop_piece i s)\<lparr>free := free s @ [a]\<rparr>" by blast
  have m: "mset (owned s) = add_mset a (mset (owned (drop_piece i s)))"
    unfolding drop_piece_def by (rule owned_upd_clear [OF assms(2) a(1)]) simp
  have "distinct (owned s @ free s)" and "a \<in> set (owned s)"
    using assms owned_nth [OF assms(2) a(1)] by (auto simp: mem_inv_def bufs_inv_def)
  moreover have "distinct (a # owned (drop_piece i s))"
    using m \<open>distinct (owned s @ free s)\<close> mset_eq_imp_distinct_iff [of "owned s" "a # owned (drop_piece i s)"]
    by simp
  ultimately have "a \<notin> set (owned (drop_piece i s) @ free (drop_piece i s))"
    by (auto simp: drop_piece_def cache_simps)
  moreover have "buf_ok (drop_piece i s) a"
    using assms \<open>a \<in> set (owned s)\<close>
    by (auto simp: mem_inv_def bufs_inv_def buf_ok_def drop_piece_def cache_simps)
  ultimately have "mem_inv ((drop_piece i s)\<lparr>free := free (drop_piece i s) @ [a]\<rparr>)"
    using a(2) by (intro mem_inv_free drop_piece_inv assms(1)) (simp_all add: drop_piece_def cache_simps)
  then show ?thesis by (simp add: r drop_piece_def cache_simps)
qed

lemma mem_inv_calls: "mem_inv (s\<lparr>calls := cs\<rparr>) = mem_inv s"
  by (simp add: mem_inv_def bufs_inv_def buf_ok_def owned_def piece_ok_def)

lemma mem_inv_saves: "mem_inv (s\<lparr>saves := cs\<rparr>) = mem_inv s"
  by (simp add: mem_inv_def bufs_inv_def buf_ok_def owned_def piece_ok_def)

lemma Release_inv: "mem_inv s \<Longrightarrow> i < length (objs s) \<Longrightarrow> mem_inv (Release i s)"
  by (simp add: Release_def Let_def mem_Release_inv mem_inv_calls)

lemma MarkComplete_inv: "mem_inv s \<Longrightarrow> mem_inv (MarkComplete i s)"
proof -
  assume "mem_inv s"
  then have "mem_inv (upd_obj i (\<lambda>p. p\<lparr>Complete := True\<rparr>) s)"
    by (intro mem_inv_upd_keep) (auto simp: mem_inv_def piece_ok_def)
  then show ?thesis by (simp add: MarkComplete_def Let_def mem_inv_saves)
qed

subsection \<open>The store as its clients see it\<close>

lemma splice_nth:
  assumes "off \<le> length buf" and "k < length buf"
  shows "splice buf off b ! k = (if off \<le> k \<and> k < off + length b then b ! (k - off) else buf ! k)"
  using assms by (auto simp: splice_def Let_def nth_append min_def)

definition holds_at :: "byte list \<Rightarrow> nat \<Rightarrow> byte list \<Rightarrow> bool" where
  "holds_at c off b \<longleftrightarrow> off + length b \<le> length c \<and> (\<forall>k < length b. c ! (off + k) = b ! k)"

lemma holds_at_splice: "off + length b \<le> length c \<Longrightarrow> holds_at (splice c off b) off b"
  by (simp add: holds_at_def splice_nth)

lemma holds_at_disjoint:
  assumes "holds_at c off b" and "off' \<le> length c"
    and "off + length b \<le> off' \<or> off' + length b' \<le> off"
  shows "holds_at (splice c off' b') off b"
  using assms by (auto simp: holds_at_def splice_nth)

lemma holds_at_take: "holds_at c off b \<Longrightarrow> take (length b) (drop off c) = b"
  by (intro nth_equalityI) (auto simp: holds_at_def)

text \<open>
  Requests of the torrent engine to a piece store: writing a chunk, giving a piece's memory back,
  dropping it. \<open>leaves_alone\<close> says that a request does not touch a given stretch of a piece.
\<close>

datatype store_op = Put nat nat "byte list" | Evict nat | Discard nat

fun op_piece :: "store_op \<Rightarrow> nat" where
  "op_piece (Put j off b) = j"
| "op_piece (Evict j) = j"
| "op_piece (Discard j) = j"

fun leaves_alone :: "nat \<Rightarrow> nat \<Rightarrow> nat \<Rightarrow> store_op \<Rightarrow> bool" where
  "leaves_alone i off n (Put j off' b) \<longleftrightarrow> j \<noteq> i \<or> off + n \<le> off' \<or> off' + length b \<le> off"
| "leaves_alone i off n (Evict j) \<longleftrightarrow> j \<noteq> i"
| "leaves_alone i off n (Discard j) \<longleftrightarrow> j \<noteq> i"

text \<open>
  The contract of a piece store: a write changes the piece it names as an assignment to a stretch
  of an array does (a piece that had no memory starts from unspecified bytes), and no request
  changes another piece.
\<close>

locale piece_store =
  fixes inv :: "'s \<Rightarrow> bool" and plen :: "'s \<Rightarrow> nat" and valid :: "'s \<Rightarrow> nat \<Rightarrow> bool"
    and bytes :: "'s \<Rightarrow> nat \<Rightarrow> byte list option" and step :: "store_op \<Rightarrow> 's \<Rightarrow> 's"
  assumes inv_step: "inv s \<Longrightarrow> valid s (op_piece p) \<Longrightarrow> inv (step p s)"
    and plen_step: "inv s \<Longrightarrow> valid s (op_piece p) \<Longrightarrow> plen (step p s) = plen s"
    and valid_step: "inv s \<Longrightarrow> valid s (op_piece p) \<Longrightarrow> valid (step p s) j = valid s j"
    and bytes_len: "inv s \<Longrightarrow> bytes s i = Some c \<Longrightarrow> length c = plen s"
    and put_same: "inv s \<Longrightarrow> valid s i \<Longrightarrow> off \<le> plen s \<Longrightarrow>
      \<exists>base. length base = plen s \<and> (\<forall>c. bytes s i = Some c \<longrightarrow> c = base) \<and>
        bytes (step (Put i off b) s) i = Some (splice base off b)"
    and put_outside: "inv s \<Longrightarrow> valid s i \<Longrightarrow> plen s < off \<Longrightarrow> bytes s i = Some c \<Longrightarrow>
      bytes (step (Put i off b) s) i = Some c"
    and other: "inv s \<Longrightarrow> valid s (op_piece p) \<Longrightarrow> j \<noteq> op_piece p \<Longrightarrow>
      bytes (step p s) j = bytes s j"
begin

lemma run_inv:
  "inv s \<Longrightarrow> \<forall>p \<in> set ps. valid s (op_piece p) \<Longrightarrow>
    inv (fold step ps s) \<and> plen (fold step ps s) = plen s \<and> valid (fold step ps s) j = valid s j"
  by (induction ps arbitrary: s) (auto simp: inv_step plen_step valid_step)

lemma step_keeps:
  assumes "inv s" and "valid s (op_piece p)" and "leaves_alone i off (length b) p"
    and "bytes s i = Some c" and "holds_at c off b"
  shows "\<exists>c'. bytes (step p s) i = Some c' \<and> holds_at c' off b"
proof (cases "op_piece p = i")
  case False
  with other assms show ?thesis by metis
next
  case True
  then obtain off' b' where p: "p = Put i off' b'" using assms(3) by (cases p) auto
  show ?thesis
  proof (cases "off' \<le> plen s")
    case True
    with put_same [of s i off' b'] assms p have "bytes (step p s) i = Some (splice c off' b')"
      by auto
    with holds_at_disjoint [OF assms(5), of off' b'] bytes_len [OF assms(1,4)] assms(3) p True
    show ?thesis by auto
  next
    case False
    with put_outside [of s i off' c b'] assms p show ?thesis by auto
  qed
qed

lemma run_keeps:
  assumes "inv s" and "\<forall>p \<in> set ps. valid s (op_piece p) \<and> leaves_alone i off (length b) p"
    and "bytes s i = Some c" and "holds_at c off b"
  shows "\<exists>c'. bytes (fold step ps s) i = Some c' \<and> holds_at c' off b"
  using assms
proof (induction ps arbitrary: s c)
  case (Cons p ps)
  then have v: "valid s (op_piece p)" by simp
  from step_keeps [OF Cons.prems(1) v _ Cons.prems(3,4)] Cons.prems(2) obtain c' where
    "bytes (step p s) i = Some c'" "holds_at c' off b" by auto
  with Cons.IH [of "step p s" c'] Cons.prems inv_step [OF _ v] valid_step [OF _ v] show ?case
    by simp
qed simp

lemma put_then_run:
  assumes "inv s" and "valid s i" and "off + length b \<le> plen s"
    and "\<forall>p \<in> set ps. valid s (op_piece p) \<and> leaves_alone i off (length b) p"
  shows "\<exists>c. bytes (fold step ps (step (Put i off b) s)) i = Some c \<and> holds_at c off b"
proof -
  obtain base where "length base = plen s"
    and put: "bytes (step (Put i off b) s) i = Some (splice base off b)"
    using put_same [of s i off b] assms by auto
  then have "holds_at (splice base off b) off b"
    using assms(3) by (simp add: holds_at_splice)
  with run_keeps [OF inv_step [of s "Put i off b"] _ put] valid_step [of s "Put i off b"] assms
  show ?thesis by simp
qed

end

subsection \<open>The cache's memory is a piece store\<close>

fun store_step :: "int \<Rightarrow> store_op \<Rightarrow> 'a mem_scheme \<Rightarrow> 'a mem_scheme" where
  "store_step now (Put i off b) s = snd (WriteAt now b (int off) i s)"
| "store_step now (Evict i) s = mem_Release i s"
| "store_step now (Discard i) s = drop_piece i s"

lemma contents_upd_keep:
  "(\<And>p. buffer (f p) = buffer p) \<Longrightarrow> contents (upd_obj i f s) j = contents s j"
  by (cases "i = j") (auto simp: contents_def cache_simps)

lemma contents_upd_other: "j \<noteq> i \<Longrightarrow> contents (upd_obj i f s) j = contents s j"
  by (simp add: contents_def cache_simps)

lemma contents_length: "mem_inv s \<Longrightarrow> contents s i = Some c \<Longrightarrow> length c = nat (pieceLength s)"
  using ensure_buffer_length(1) [of s i] by (auto simp: contents_def split: if_splits)

lemma contents_eqI:
  assumes "mem_inv s" and "length (objs s') = length (objs s)" and "objs s' ! j = objs s ! j"
    and "\<forall>b < length (heap s). heap s' ! b = heap s ! b"
  shows "contents s' j = contents s j"
  using assms ensure_buffer_length(2) [OF assms(1), of j]
  by (cases "buffer (objs s ! j)") (auto simp: contents_def)

lemma contents_put_other:
  assumes "mem_inv s" and "i < length (objs s)" and "j \<noteq> i"
  shows "contents (snd (WriteAt now b off i s)) j = contents s j"
proof (cases "0 \<le> off \<and> off \<le> pieceLength s")
  case True
  then have o: "0 \<le> off" "off \<le> pieceLength s" by auto
  obtain a s' where inv: "mem_inv s'" and len: "length (objs s') = length (objs s)"
    and a: "buffer (objs s' ! i) = Some a" and oj: "\<forall>j. j \<noteq> i \<longrightarrow> objs s' ! j = objs s ! j"
    and h: "\<forall>b < length (heap s). heap s' ! b = heap s ! b"
    and w: "WriteAt now b off i s =
      (Some (copied s off b),
       upd_obj i (\<lambda>p. p\<lparr>Size := grown s i (copied s off b), Accessed := now\<rparr>)
         (s'\<lparr>heap := (heap s')[a := splice (heap s' ! a) (nat off) b]\<rparr>))"
    by (rule WriteAt_effect [OF assms(1,2) o, of now b])
  let ?t = "s'\<lparr>heap := (heap s')[a := splice (heap s' ! a) (nat off) b]\<rparr>"
  have "buffer (objs s' ! j) \<noteq> Some a" if "j < length (objs s')"
    using owned_disjoint [of s' i j a] inv a that assms(2,3) len
    by (auto simp: mem_inv_def bufs_inv_def)
  then have "contents ?t j = contents s' j"
    by (cases "buffer (objs s' ! j)") (auto simp: contents_def)
  also have "\<dots> = contents s j"
    using oj assms(3) by (intro contents_eqI [OF assms(1) len _ h]) simp
  finally show ?thesis by (simp add: w contents_upd_other [OF assms(3)])
next
  case False
  obtain a s' where "ensure_buffer i s = (Some a, s')" and len: "length (objs s') = length (objs s)"
    and oj: "\<forall>j. j \<noteq> i \<longrightarrow> objs s' ! j = objs s ! j"
    and h: "\<forall>b < length (heap s). heap s' ! b = heap s ! b"
    by (rule ensure_buffer_inv [OF assms(1,2)])
  with contents_eqI [OF assms(1) len _ h] WriteAt_panic [OF assms(1,2) False] assms(3)
  show ?thesis by simp
qed

lemma contents_put_same:
  assumes "mem_inv s" and "i < length (objs s)" and "0 \<le> off" and "off \<le> pieceLength s"
  shows "\<exists>base. length base = nat (pieceLength s) \<and> (\<forall>c. contents s i = Some c \<longrightarrow> c = base) \<and>
    contents (snd (WriteAt now b off i s)) i = Some (splice base (nat off) b)"
proof -
  obtain a s' where inv: "mem_inv s'" and pl: "pieceLength s' = pieceLength s"
    and len: "length (objs s') = length (objs s)"
    and a: "buffer (objs s' ! i) = Some a"
    and old: "buffer (objs s ! i) = None \<or> s' = s"
    and w: "WriteAt now b off i s =
      (Some (copied s off b),
       upd_obj i (\<lambda>p. p\<lparr>Size := grown s i (copied s off b), Accessed := now\<rparr>)
         (s'\<lparr>heap := (heap s')[a := splice (heap s' ! a) (nat off) b]\<rparr>))"
    by (rule WriteAt_effect [OF assms, of now b])
  have ba: "length (heap s' ! a) = nat (pieceLength s)" "a < length (heap s')"
    using ensure_buffer_length [OF inv a] assms(2) len pl by simp_all
  have "contents (snd (WriteAt now b off i s)) i =
      contents (s'\<lparr>heap := (heap s')[a := splice (heap s' ! a) (nat off) b]\<rparr>) i"
    by (simp add: w contents_upd_keep)
  also have "\<dots> = Some (splice (heap s' ! a) (nat off) b)"
    using a ba(2) assms(2) len by (simp add: contents_def)
  finally have "contents (snd (WriteAt now b off i s)) i = Some (splice (heap s' ! a) (nat off) b)" .
  moreover have "c = heap s' ! a" if "contents s i = Some c" for c
    using that old a assms(2) by (auto simp: contents_def split: if_splits)
  ultimately show ?thesis using ba(1) by blast
qed

lemma contents_put_outside:
  assumes "mem_inv s" and "i < length (objs s)" and "pieceLength s < off" and "contents s i = Some c"
  shows "contents (snd (WriteAt now b off i s)) i = Some c"
proof -
  have "buffer (objs s ! i) \<noteq> None" using assms(2,4) by (auto simp: contents_def)
  then have "snd (ensure_buffer i s) = s" by (auto simp: ensure_buffer_def)
  with WriteAt_panic [OF assms(1,2), of off now b] assms(3,4) show ?thesis by simp
qed

lemma WriteAt_frame:
  assumes "mem_inv s" and "i < length (objs s)"
  shows "pieceLength (snd (WriteAt now b off i s)) = pieceLength s"
    and "length (objs (snd (WriteAt now b off i s))) = length (objs s)"
proof -
  obtain a s' where e: "ensure_buffer i s = (Some a, s')" and pl: "pieceLength s' = pieceLength s"
    and len: "length (objs s') = length (objs s)"
    by (rule ensure_buffer_inv [OF assms])
  then show "pieceLength (snd (WriteAt now b off i s)) = pieceLength s"
    and "length (objs (snd (WriteAt now b off i s))) = length (objs s)"
    by (simp_all add: WriteAt_def Let_def cache_simps)
qed

lemma mem_Release_frame:
  "pieceLength (mem_Release i s) = pieceLength s"
  "length (objs (mem_Release i s)) = length (objs s)"
  "heap (mem_Release i s) = heap s"
  "objs (mem_Release i s) = objs (drop_piece i s)"
  using mem_Release_drop [of i s] by (auto simp: drop_piece_def cache_simps)

lemma contents_release_other: "j \<noteq> i \<Longrightarrow> contents (mem_Release i s) j = contents s j"
  by (simp add: contents_def mem_Release_frame) (simp add: drop_piece_def cache_simps)

text \<open>What a write leaves alone, whatever happens in it.\<close>

lemma WriteAt_static:
  "capacity (snd (WriteAt now b off i s)) = capacity s" "filled (snd (WriteAt now b off i s)) = filled s"
  "pieceCount (snd (WriteAt now b off i s)) = pieceCount s"
  "pieces (snd (WriteAt now b off i s)) = pieces s" "isClosed (snd (WriteAt now b off i s)) = isClosed s"
  "isIndexPiece (snd (WriteAt now b off i s)) = isIndexPiece s"
  "freeCap (snd (WriteAt now b off i s)) = freeCap s" "torrent (snd (WriteAt now b off i s)) = torrent s"
  "calls (snd (WriteAt now b off i s)) = calls s" "saves (snd (WriteAt now b off i s)) = saves s"
  "mem.more (snd (WriteAt now b off i s)) = mem.more s"
  by (auto simp: WriteAt_def ensure_buffer_def getBuffer_def make_buffer_def Let_def upd_obj_simps
      split: option.splits if_splits)

lemma WriteAt_objs:
  assumes "mem_inv s" and "i < length (objs s)" and "0 \<le> off" and "off \<le> pieceLength s"
  shows "j \<noteq> i \<Longrightarrow> objs (snd (WriteAt now b off i s)) ! j = objs s ! j"
    and "buffer (objs (snd (WriteAt now b off i s)) ! i) \<noteq> None"
proof -
  obtain a s' where "length (objs s') = length (objs s)" "buffer (objs s' ! i) = Some a"
    "\<forall>j. j \<noteq> i \<longrightarrow> objs s' ! j = objs s ! j"
    "WriteAt now b off i s =
      (Some (copied s off b),
       upd_obj i (\<lambda>p. p\<lparr>Size := grown s i (copied s off b), Accessed := now\<rparr>)
         (s'\<lparr>heap := (heap s')[a := splice (heap s' ! a) (nat off) b]\<rparr>))"
    by (rule WriteAt_effect [OF assms, of now b])
  with assms(2) show "j \<noteq> i \<Longrightarrow> objs (snd (WriteAt now b off i s)) ! j = objs s ! j"
    and "buffer (objs (snd (WriteAt now b off i s)) ! i) \<noteq> None"
    by (simp_all add: upd_obj_simps)
qed

interpretation store: piece_store mem_inv "\<lambda>s. nat (pieceLength s)"
    "\<lambda>s i. i < length (objs s)" contents "store_step now"
proof
  fix s :: "'a mem_scheme" and p and i j off :: nat and b c
  assume inv: "mem_inv s"
  then have pos: "0 < pieceLength s" by (simp add: mem_inv_def)
  show "contents s i = Some c \<Longrightarrow> length c = nat (pieceLength s)"
    using contents_length [OF inv] .
  show "i < length (objs s) \<Longrightarrow> off \<le> nat (pieceLength s) \<Longrightarrow>
      \<exists>base. length base = nat (pieceLength s) \<and> (\<forall>c. contents s i = Some c \<longrightarrow> c = base) \<and>
        contents (store_step now (Put i off b) s) i = Some (splice base off b)"
    using contents_put_same [OF inv, of i "int off" now b] pos by (simp add: le_nat_iff)
  show "i < length (objs s) \<Longrightarrow> nat (pieceLength s) < off \<Longrightarrow> contents s i = Some c \<Longrightarrow>
      contents (store_step now (Put i off b) s) i = Some c"
    using contents_put_outside [OF inv, of i "int off" c now b] pos by (simp add: nat_less_iff)
  assume v: "op_piece p < length (objs s)"
  show "mem_inv (store_step now p s)"
    using inv v by (cases p) (simp_all add: WriteAt_inv mem_Release_inv drop_piece_inv)
  show "nat (pieceLength (store_step now p s)) = nat (pieceLength s)"
    using inv v by (cases p) (simp_all add: WriteAt_frame mem_Release_frame drop_piece_def cache_simps)
  show "(j < length (objs (store_step now p s))) = (j < length (objs s))"
    using inv v by (cases p) (simp_all add: WriteAt_frame mem_Release_frame drop_piece_def cache_simps)
  show "j \<noteq> op_piece p \<Longrightarrow> contents (store_step now p s) j = contents s j"
    using inv v by (cases p) (simp_all add: contents_put_other contents_release_other
      drop_piece_def contents_upd_other)
qed

subsection \<open>Reading\<close>

lemma buf_bytes_contents:
  "i < length (objs s) \<Longrightarrow> buf_bytes i s = (case contents s i of None \<Rightarrow> [] | Some c \<Rightarrow> c)"
  by (simp add: buf_bytes_def contents_def split: option.splits)

lemma ReadAt_fst:
  assumes "0 \<le> off" and "off < 2 ^ 62" and "blen < 2 ^ 62" and "length (buf_bytes i s) < 2 ^ 62"
  shows "fst (ReadAt now blen off i s) =
    Some (let d = take blen (drop (nat off) (buf_bytes i s)) in if d = [] then EOF else Data d)"
proof -
  let ?buf = "buf_bytes i s"
  define l where "l = int (length ?buf)"
  define n where "n = int blen"
  have b: "0 \<le> l" "l < 2 ^ 62" "0 \<le> n" "n < 2 ^ 62" using assms(3,4) by (simp_all add: l_def n_def)
  have w: "wrap64 (n + off) = n + off" "wrap64 (off + n) = off + n" "wrap64 (l - off) = l - off"
    using assms(1,2) b by (simp_all add: wrap64_id in64_def)
  show ?thesis
  proof (cases "l < n + off")
    case False
    then have "length (take blen (drop (nat off) ?buf)) = blen"
      using assms(1) by (simp add: l_def n_def)
    with False w b assms(1) show ?thesis
      unfolding ReadAt_def Let_def
      by (simp flip: l_def n_def) (auto simp: n_def)
  next
    case short: True
    show ?thesis
    proof (cases "l < off")
      case True
      then have "take blen (drop (nat off) ?buf) = []" by (simp add: l_def)
      with True short w show ?thesis unfolding ReadAt_def Let_def by (simp flip: l_def n_def)
    next
      case False
      then have t: "take (nat (l - off)) (drop (nat off) ?buf) = take blen (drop (nat off) ?buf)"
        using short by (simp add: l_def n_def)
      from False b have "wrap64 (off + (l - off)) = l" by (simp add: wrap64_id in64_def)
      with False short w b assms(1) t show ?thesis
        unfolding ReadAt_def Let_def by (simp flip: l_def n_def) (auto simp: min_def)
    qed
  qed
qed

text \<open>
  C3. A chunk written to a piece can be read back as written, whatever happens to the cache in
  between, as long as nobody overwrites that stretch or evicts the piece: other pieces may be
  written, evicted (their buffer goes to the free list and to the next piece that needs one) and
  dropped, and other stretches of the same piece may be written.
\<close>

theorem write_then_read:
  assumes "mem_inv s" and "i < length (objs s)" and "b \<noteq> []"
    and "int off + int (length b) \<le> pieceLength s"
    and "\<forall>p \<in> set ps. op_piece p < length (objs s) \<and> leaves_alone i off (length b) p"
  shows "fst (ReadAt now (length b) (int off) i
    (fold (store_step t) ps (snd (WriteAt t b (int off) i s)))) = Some (Data b)"
proof -
  let ?s = "fold (store_step t) ps (store_step t (Put i off b) s)"
  have pos: "0 < pieceLength s" "pieceLength s < 2 ^ 62" using assms(1) by (simp_all add: mem_inv_def)
  then have fits: "off + length b \<le> nat (pieceLength s)" "nat (pieceLength s) < 2 ^ 62"
    using assms(4) by (simp_all add: le_nat_iff nat_less_iff)
  with store.put_then_run [of s i off b ps t] assms obtain c where
    c: "contents ?s i = Some c" "holds_at c off b" by auto
  have put: "mem_inv (store_step t (Put i off b) s)"
      "length (objs (store_step t (Put i off b) s)) = length (objs s)"
      "pieceLength (store_step t (Put i off b) s) = pieceLength s"
    using assms(1,2) by (simp_all add: WriteAt_inv WriteAt_frame)
  have "mem_inv ?s" "nat (pieceLength ?s) = nat (pieceLength s)"
    and "i < length (objs ?s)"
    using store.run_inv [OF put(1), of ps t i] put assms(2,5) by auto
  then have "buf_bytes i ?s = c" "length c = nat (pieceLength s)"
    using c contents_length [of ?s i c] by (simp_all add: buf_bytes_contents)
  moreover have "off < nat (pieceLength s)" using fits(1) assms(3) by (cases b) auto
  ultimately show ?thesis
    using ReadAt_fst [of "int off" "length b" i ?s now] holds_at_take [OF c(2)] fits assms(3)
    by (simp add: Let_def)
qed

definition mem0 :: mem where
  "mem0 = \<lparr>capacity = 16, filled = 0, pieceLength = 4, pieceCount = 3,
     objs = [NewPiece 0, NewPiece 1, NewPiece 2], pieces = Some [0, 1, 2], isClosed = False,
     cleanTrigger = False, isIndexPiece = [True, False, False], free = [], freeCap = 2, heap = [],
     torrent = True, calls = [], saves = []\<rparr>"

lemma mem0_inv: "mem_inv mem0"
  by (simp add: mem_inv_def bufs_inv_def mem0_def owned_def piece_ok_def NewPiece_def
    List.map_filter_simps)

theorem write_then_read_witness:
  "fst (ReadAt 9 2 1 1
     (fold (store_step 5) [Put 2 0 [1, 2, 3, 4], Evict 2, Put 0 0 [8], Put 1 3 [6]]
       (snd (WriteAt 5 [7, 7] 1 1 mem0)))) = Some (Data [7, 7])"
proof -
  have "\<forall>p \<in> set [Put 2 0 [1, 2, 3, 4], Evict 2, Put 0 0 [8], Put 1 3 [6]].
      op_piece p < length (objs mem0) \<and> leaves_alone 1 1 (length [7, 7 :: byte]) p"
    by (simp add: mem0_def)
  from write_then_read [OF mem0_inv _ _ _ this, of 9 5] show ?thesis
    by (simp add: mem0_def [THEN arg_cong, of "\<lambda>s. length (objs s)"]
      mem0_def [THEN arg_cong, of pieceLength] numeral_2_eq_2)
qed

end
