(* ===== verification/Float64.thy ===== *)
theory Float64
  imports Prelude "HOL-Library.Log_Nat"
begin

text \<open>
  Go's \<open>float64\<close> arithmetic as far as the code uses it: a product or quotient is the exact rational
  result, rounded to the nearest binary64 value, ties to even. Values are rationals; the model
  has no infinities, because no caller leaves the range of \<open>int64\<close>.
\<close>

definition round_half_even :: "rat \<Rightarrow> int" where
  "round_half_even x =
     (let f = \<lfloor>x\<rfloor>; d = x - of_int f
      in if d < 1 / 2 then f
         else if d > 1 / 2 then f + 1
         else if even f then f else f + 1)"

text \<open>The exponent of the smallest positive value, \<open>2^-1074\<close>, and the number of significant bits.\<close>

definition qmin :: nat where
  "qmin = 1074"

definition prec :: int where
  "prec = 53"

text \<open>
  \<open>ulp x\<close> is the distance of neighbouring binary64 values around \<open>x\<close>: 53 significant bits, no
  finer than \<open>2^-1074\<close>.
\<close>

definition ulp :: "rat \<Rightarrow> rat" where
  "ulp x = 2 ^ nat (bitlen \<lfloor>\<bar>x\<bar> * 2 ^ qmin\<rfloor> - prec) / 2 ^ qmin"

definition fl :: "rat \<Rightarrow> rat" where
  "fl x = of_int (round_half_even (x / ulp x)) * ulp x"

text \<open>\<^verbatim>\<open>int64(x)\<close> of a float drops the fraction.\<close>

definition trunc :: "rat \<Rightarrow> int" where
  "trunc x = (if x < 0 then \<lceil>x\<rceil> else \<lfloor>x\<rfloor>)"

lemma round_half_even_error: "\<bar>of_int (round_half_even x) - x\<bar> \<le> 1 / 2"
proof -
  have "0 \<le> x - of_int \<lfloor>x\<rfloor>" "x - of_int \<lfloor>x\<rfloor> < 1" by linarith+
  then show ?thesis by (auto simp: round_half_even_def Let_def abs_le_iff)
qed

lemma round_half_even_nonneg: "0 \<le> x \<Longrightarrow> 0 \<le> round_half_even x"
  by (auto simp: round_half_even_def Let_def)

lemma ulp_pos [simp]: "0 < ulp x"
  by (simp add: ulp_def)

lemma fl_error: "\<bar>fl x - x\<bar> \<le> ulp x / 2"
proof -
  have "fl x - x = (of_int (round_half_even (x / ulp x)) - x / ulp x) * ulp x"
    using ulp_pos [of x, THEN less_imp_neq] by (simp add: fl_def left_diff_distrib)
  then have "\<bar>fl x - x\<bar> = \<bar>of_int (round_half_even (x / ulp x)) - x / ulp x\<bar> * ulp x"
    using abs_of_pos [OF ulp_pos, of x] by (simp add: abs_mult)
  also have "\<dots> \<le> 1 / 2 * ulp x"
    by (intro mult_right_mono round_half_even_error) (simp add: less_imp_le)
  finally show ?thesis by simp
qed

lemma ulp_bound: "ulp x \<le> \<bar>x\<bar> / 2 ^ 52 + 1 / 2 ^ qmin"
proof (cases "bitlen \<lfloor>\<bar>x\<bar> * 2 ^ qmin\<rfloor> \<le> prec")
  case True
  then have "ulp x = 1 / 2 ^ qmin" by (simp add: ulp_def)
  then show ?thesis by simp
next
  case False
  define m where "m = \<lfloor>\<bar>x\<bar> * 2 ^ qmin\<rfloor>"
  define k where "k = nat (bitlen m - prec)"
  have "0 \<le> m" by (simp add: m_def)
  moreover have "m \<noteq> 0" using False by (auto simp: prec_def bitlen_def floorlog_def m_def [symmetric])
  ultimately have m: "0 < m" by simp
  have "2 ^ nat (bitlen m - 1) \<le> m" using bitlen_bounds [OF m] by simp
  moreover have "nat (bitlen m - 1) = 52 + k"
    using False by (simp add: k_def prec_def m_def [symmetric])
  ultimately have "(2::int) ^ 52 * 2 ^ k \<le> m" by (simp only: power_add)
  then have "of_int (2 ^ 52 * 2 ^ k) \<le> (of_int m :: rat)" by (simp only: of_int_le_iff)
  moreover have "of_int m \<le> \<bar>x\<bar> * 2 ^ qmin" unfolding m_def by (rule of_int_floor_le)
  ultimately have le: "(2::rat) ^ 52 * 2 ^ k \<le> \<bar>x\<bar> * 2 ^ qmin" by simp
  have "ulp x = 2 ^ k / 2 ^ qmin" by (simp add: ulp_def k_def m_def)
  also have "\<dots> = (2 ^ 52 * 2 ^ k) / (2 ^ 52 * 2 ^ qmin)"
    by (rule mult_divide_mult_cancel_left [symmetric]) simp
  also have "\<dots> \<le> (\<bar>x\<bar> * 2 ^ qmin) / (2 ^ 52 * 2 ^ qmin)"
    by (rule divide_right_mono [OF le]) simp
  also have "\<dots> = \<bar>x\<bar> / 2 ^ 52" by simp
  finally show ?thesis by (simp add: add_increasing2)
qed

text \<open>
  The relative error of one operation: half a unit in the last place, and of a non-negative
  result.
\<close>

lemma fl_le: "0 \<le> x \<Longrightarrow> fl x \<le> x * (1 + 1 / 2 ^ 53) + 1 / 2 ^ qmin"
proof -
  assume "0 \<le> x"
  have "fl x \<le> x + ulp x / 2" using fl_error [of x] by linarith
  also have "\<dots> \<le> x + (x / 2 ^ 52 + 1 / 2 ^ qmin) / 2"
    using ulp_bound [of x] \<open>0 \<le> x\<close> by simp
  also have "\<dots> \<le> x * (1 + 1 / 2 ^ 53) + 1 / 2 ^ qmin"
    by (simp add: field_simps)
  finally show ?thesis .
qed

lemma fl_nonneg: "0 \<le> x \<Longrightarrow> 0 \<le> fl x"
  by (simp add: fl_def round_half_even_nonneg less_imp_le)

lemma trunc_nonneg: "0 \<le> x \<Longrightarrow> 0 \<le> trunc x" "0 \<le> x \<Longrightarrow> of_int (trunc x) \<le> x"
  by (simp_all add: trunc_def)

text \<open>A coarser bound that is easy to chain.\<close>

lemma fl_le_coarse: "0 \<le> x \<Longrightarrow> fl x \<le> 1001 / 1000 * x + 1 / 1000"
proof -
  assume x: "0 \<le> x"
  have "(2::rat) ^ 10 \<le> 2 ^ qmin" unfolding qmin_def by (rule power_increasing) simp_all
  then have "1 / 2 ^ qmin \<le> (1 / 2 ^ 10 :: rat)" by (intro divide_left_mono) simp_all
  then have "1 / 2 ^ qmin \<le> (1 / 1000 :: rat)" by simp
  moreover have "x * (1 + 1 / 2 ^ 53) \<le> x * (1001 / 1000)" using x by (intro mult_left_mono) simp_all
  ultimately show ?thesis using fl_le [OF x] by linarith
qed

lemma fl_ge: "0 \<le> x \<Longrightarrow> x * (1 - 1 / 2 ^ 53) - 1 / 2 ^ qmin \<le> fl x"
proof -
  assume "0 \<le> x"
  have "x * (1 - 1 / 2 ^ 53) - 1 / 2 ^ qmin \<le> x - (x / 2 ^ 52 + 1 / 2 ^ qmin) / 2"
    by (simp add: field_simps)
  also have "\<dots> \<le> x - ulp x / 2"
    using ulp_bound [of x] \<open>0 \<le> x\<close> by simp
  also have "\<dots> \<le> fl x" using fl_error [of x] by linarith
  finally show ?thesis .
qed

lemma qmin_small: "1 / 2 ^ qmin \<le> (1 / 2 ^ 100 :: rat)"
proof -
  have "(2::rat) ^ 100 \<le> 2 ^ qmin" unfolding qmin_def by (rule power_increasing) simp_all
  then show ?thesis by (intro divide_left_mono) simp_all
qed

lemma round_half_even_int [simp]: "round_half_even (of_int n) = n"
  by (simp add: round_half_even_def)

text \<open>Integers below \<open>2 ^ 53\<close> are floats.\<close>

lemma fl_int:
  assumes "0 < n" and "n < 2 ^ 53"
  shows "fl (of_int n) = of_int n"
proof -
  define b where "b = nat (bitlen n)"
  have b: "b \<le> 53" "int b = bitlen n"
    using assms bitlen_le_iff_power [of n 53] by (simp_all add: b_def bitlen_nonneg)
  have "\<lfloor>\<bar>of_int n :: rat\<bar> * 2 ^ qmin\<rfloor> = n * 2 ^ qmin"
    using assms(1) by (metis abs_of_pos floor_of_int of_int_0_less_iff of_int_mult of_int_numeral of_int_power)
  moreover have "bitlen (n * 2 ^ qmin) = int b + int qmin"
    using assms(1) b(2) by simp
  ultimately have u: "ulp (of_int n) = 2 ^ nat (int b + int qmin - prec) / 2 ^ qmin"
    by (simp add: ulp_def)
  have q: "nat (int b + int qmin - prec) + (53 - b) = qmin"
    using b(1) by (simp add: qmin_def prec_def)
  have e: "ulp (of_int n) = 1 / 2 ^ (53 - b)"
  proof -
    have "(2 :: rat) ^ qmin = 2 ^ nat (int b + int qmin - prec) * 2 ^ (53 - b)"
      by (metis q power_add)
    then show ?thesis by (simp add: u)
  qed
  have "of_int n / ulp (of_int n) = (of_int (n * 2 ^ (53 - b)) :: rat)" by (simp add: e)
  then show ?thesis by (simp only: fl_def round_half_even_int) (simp add: e)
qed

end
