(* ===== verification/Cache.thy ===== *)
theory Cache
  imports Ranges PieceStore Float64 "HOL-Library.AList"
begin

text \<open>
  The cache of one torrent and its readers, after \<^verbatim>\<open>cache.go\<close> and \<^verbatim>\<open>reader.go\<close> in
  \<^verbatim>\<open>src/server/torr/storage/torrstor\<close>: the record of \<^verbatim>\<open>Cache\<close> extends the memory of
  \<open>PieceStore\<close> with the readers and the priority bookkeeping. Readers are objects named by
  their index in \<open>robjs\<close>; the engine's own reader (\<^verbatim>\<open>torrent.Reader\<close>, embedded in \<^verbatim>\<open>Reader\<close>) is
  its position and its readahead. Every function that runs under a lock is one atomic step;
  a function that is started with \<^verbatim>\<open>safeGo\<close> is a step of its own. Times are nanoseconds since
  the epoch, passed as \<open>now\<close>.
\<close>

subsection \<open>State\<close>

record reader =
  r_offset :: int
  r_readahead :: int
  r_file :: tfile
  r_cache :: bool
  r_isClosed :: bool
  lastAccess :: int
  isUse :: bool
  eng_pos :: int
  eng_readahead :: "int option"

record cache = mem +
  readers :: "nat list option"
  robjs :: "reader list"
  activeReaders :: int
  isRemove :: bool
  IsAggressive :: bool
  MasterLimit :: int
  lastCleanNS :: int
  localPriority :: "(nat \<times> prio) list"
  pieceInRange :: "bool list"

text \<open>The settings the cache reads (\<^verbatim>\<open>settings.BTsets\<close>).\<close>

record btsets =
  CacheSize :: int
  ReaderReadAHead :: int
  ConnectionsLimit :: int
  ResponsiveMode :: bool

definition unix :: "int \<Rightarrow> int" where
  "unix now = now div 10 ^ 9"

definition upd_reader :: "nat \<Rightarrow> (reader \<Rightarrow> reader) \<Rightarrow> cache \<Rightarrow> cache" where
  "upd_reader i f c = c\<lparr>robjs := (robjs c)[i := f (robjs c ! i)]\<rparr>"

subsection \<open>Making a cache\<close>

definition NewCache :: "int \<Rightarrow> cache" where
  "NewCache cap =
     \<lparr>capacity = cap, filled = 0, pieceLength = 0, pieceCount = 0, objs = [], pieces = Some [],
      isClosed = False, cleanTrigger = False, isIndexPiece = [], free = [], freeCap = 0, heap = [],
      torrent = False, calls = [], saves = [],
      readers = Some [], robjs = [], activeReaders = 0, isRemove = False, IsAggressive = False,
      MasterLimit = 0, lastCleanNS = 0, localPriority = [], pieceInRange = []\<rparr>"

text \<open>
  \<^verbatim>\<open>Init\<close>'s loop over the files: \<open>cur\<close> is the running offset, \<open>keep\<close> the bytes kept at each end of a
  file. A loop \<^verbatim>\<open>for p := ss; p <= se && p < c.pieceCount; p++\<close> that sets bits is \<open>mark_from\<close> up
  to the smaller bound.
\<close>

fun mark_files :: "int \<Rightarrow> int \<Rightarrow> int \<Rightarrow> int \<Rightarrow> int list \<Rightarrow> bool list \<Rightarrow> bool list option" where
  "mark_files plen n keep cur [] bm = Some bm"
| "mark_files plen n keep cur (fileLength # fs) bm =
     (let fileStart = cur; fileEnd = wrap64 (cur + fileLength)
      in if fileLength < 10 * 2 ^ 20 then mark_files plen n keep fileEnd fs bm
         else
           let ss = tdiv fileStart plen;
               se = tdiv (wrap64 (fileStart + keep)) plen;
               se = (if se \<ge> n then n - 1 else se);
               es = tdiv (wrap64 (fileEnd - keep)) plen;
               es = (if es < 0 then 0 else es);
               ee = tdiv (wrap64 (fileEnd - 1)) plen;
               ee = (if ee \<ge> n then n - 1 else ee)
           in case mark_from bm ss (min se (n - 1)) of
                None \<Rightarrow> None
              | Some bm \<Rightarrow>
                  (case mark_from bm es (min ee (n - 1)) of
                     None \<Rightarrow> None
                   | Some bm \<Rightarrow> mark_files plen n keep fileEnd fs bm))"

text \<open>
  The index cache: \<open>disk\<close> is the directory of saved index pieces, the contents of
  \<^verbatim>\<open>piece_<id>.bin\<close>, \<open>None\<close> where reading it fails. \<open>ok\<close> says that the settings path is set and
  that the file operations succeed; the file is written under another name and renamed, so it is
  there as a whole or not at all.
\<close>

definition saveIndexPieceToDisk :: "bool \<Rightarrow> nat \<Rightarrow> 'a mem_scheme \<Rightarrow> (nat \<Rightarrow> byte list option) \<Rightarrow>
    (nat \<Rightarrow> byte list option)" where
  "saveIndexPieceToDisk ok i s disk =
     (case buffer (objs s ! i) of
        None \<Rightarrow> disk
      | Some a \<Rightarrow>
          let sz = Size (objs s ! i);
              sz = (if sz \<le> 0 \<or> sz > int (length (heap s ! a)) then int (length (heap s ! a)) else sz)
          in if ok then disk(Id (objs s ! i) \<mapsto> take (nat sz) (heap s ! a)) else disk)"

text \<open>
  \<open>preload_loop\<close> is the loop of \<^verbatim>\<open>preloadIndexCache\<close> over the pieces.
\<close>

fun preload_loop :: "int \<Rightarrow> (nat \<Rightarrow> byte list option) \<Rightarrow> nat list \<Rightarrow> cache \<Rightarrow> int \<Rightarrow> cache \<times> int" where
  "preload_loop now disk [] c bytes = (c, bytes)"
| "preload_loop now disk (i # is) c bytes =
     (if \<not> isIndexPiece c ! i then preload_loop now disk is c bytes
      else case disk i of
             None \<Rightarrow> preload_loop now disk is c bytes
           | Some dat \<Rightarrow>
               if length dat = 0 then preload_loop now disk is c bytes
               else
                 let c = snd (WriteAt (unix now) dat 0 i c);
                     c = upd_obj i (\<lambda>p. p\<lparr>Complete := True, Size := int (length dat)\<rparr>) c
                 in preload_loop now disk is c (wrap64 (bytes + int (length dat))))"

text \<open>\<open>dir\<close> is \<open>None\<close> if no settings path is set or the cache directory does not exist.\<close>

definition preloadIndexCache :: "int \<Rightarrow> (nat \<Rightarrow> byte list option) option \<Rightarrow> cache \<Rightarrow> cache" where
  "preloadIndexCache now dir c =
     (case dir of
        None \<Rightarrow> c
      | Some disk \<Rightarrow>
          let (c, bytes) = preload_loop now disk [0..<pieceCount c] c 0
          in c\<lparr>filled := wrap64 (filled c + bytes)\<rparr>)"

definition Init :: "int \<Rightarrow> (nat \<Rightarrow> byte list option) option \<Rightarrow> int \<Rightarrow> nat \<Rightarrow> int list \<Rightarrow> cache \<Rightarrow>
    cache option" where
  "Init now dir plen numPieces files c =
     (let c = (if capacity c = 0 then c\<lparr>capacity := wrap64 (plen * 4)\<rparr> else c);
          c = c\<lparr>pieceLength := plen, pieceCount := numPieces\<rparr>
      in if plen = 0 then None
         else
           let fc = tdiv (tdiv (capacity c) 4) plen;
               c = c\<lparr>freeCap := (if fc < 2 then 2 else fc),
                     pieceInRange := replicate numPieces False\<rparr>;
               keep = (if plen < 8 * 2 ^ 20 then 8 * 2 ^ 20 else plen)
           in case mark_files plen (int numPieces) keep 0 files (replicate numPieces False) of
                None \<Rightarrow> None
              | Some bm \<Rightarrow>
                  Some (preloadIndexCache now dir
                    (c\<lparr>isIndexPiece := bm, objs := map NewPiece [0..<numPieces],
                       pieces := Some [0..<numPieces]\<rparr>)))"

subsection \<open>Closing it\<close>

definition Close :: "cache \<Rightarrow> cache" where
  "Close c =
     (if isClosed c then c
      else
        let c = c\<lparr>isClosed := True\<rparr>;
            c = fold drop_piece (case pieces c of None \<Rightarrow> [] | Some ps \<Rightarrow> ps) c
        in c\<lparr>free := [], readers := None, pieces := None\<rparr>)"

definition SetAggressive :: "bool \<Rightarrow> int \<Rightarrow> cache \<Rightarrow> cache" where
  "SetAggressive enabled masterLimit c =
     (let c = c\<lparr>IsAggressive := enabled\<rparr>
      in if masterLimit > 0 then c\<lparr>MasterLimit := masterLimit\<rparr> else c)"

definition Readers :: "cache \<Rightarrow> int" where
  "Readers c = (case readers c of None \<Rightarrow> 0 | Some rs \<Rightarrow> int (length rs))"

definition GetUseReaders :: "cache \<Rightarrow> int" where
  "GetUseReaders c = activeReaders c"

subsection \<open>Readers\<close>

definition SetReadahead :: "int \<Rightarrow> reader \<Rightarrow> reader" where
  "SetReadahead len r =
     (if \<not> r_cache r then r
      else let r = (if isUse r then r\<lparr>eng_readahead := Some len\<rparr> else r)
           in r\<lparr>r_readahead := len\<rparr>)"

text \<open>The new reader is the last object of \<open>robjs\<close>.\<close>

definition newReader :: "tfile \<Rightarrow> cache \<Rightarrow> cache" where
  "newReader file c =
     (let r = \<lparr>r_offset = 0, r_readahead = 0, r_file = file, r_cache = False, r_isClosed = False,
               lastAccess = 0, isUse = False, eng_pos = 0, eng_readahead = None\<rparr>;
          c = SetAggressive True 0 c;
          r = SetReadahead (16 * 2 ^ 20) r;
          r = r\<lparr>r_cache := True, isUse := True\<rparr>;
          c = c\<lparr>robjs := robjs c @ [r], activeReaders := activeReaders c + 1\<rparr>
      in case readers c of
           None \<Rightarrow> c
         | Some rs \<Rightarrow> c\<lparr>readers := Some (rs @ [length (robjs c) - 1])\<rparr>)"

definition readerOn :: "nat \<Rightarrow> cache \<Rightarrow> cache" where
  "readerOn i c =
     (if \<not> isUse (robjs c ! i)
      then let c = upd_reader i (\<lambda>r. if eng_pos r = 0 then r\<lparr>eng_pos := r_offset r\<rparr> else r) c;
               c = upd_reader i (\<lambda>r. SetReadahead (r_readahead r) r) c;
               c = upd_reader i (\<lambda>r. r\<lparr>isUse := True\<rparr>) c
           in c\<lparr>activeReaders := activeReaders c + 1\<rparr>
      else c)"

definition readerOff :: "nat \<Rightarrow> cache \<Rightarrow> cache" where
  "readerOff i c =
     (if isUse (robjs c ! i)
      then let c = upd_reader i (SetReadahead 0) c;
               c = upd_reader i (\<lambda>r. r\<lparr>isUse := False\<rparr>) c;
               c = c\<lparr>activeReaders := activeReaders c - 1\<rparr>
           in upd_reader i (\<lambda>r. if r_offset r > 0 then r\<lparr>eng_pos := 0\<rparr> else r) c
      else c)"

definition checkReader :: "int \<Rightarrow> nat \<Rightarrow> cache \<Rightarrow> cache" where
  "checkReader now i c =
     (if unix now > lastAccess (robjs c ! i) + 60 \<and> Readers c > 1
      then readerOff i c else readerOn i c)"

datatype whence = SeekStart | SeekCurrent | SeekEnd

fun seek_target :: "int \<Rightarrow> int \<Rightarrow> int \<Rightarrow> whence \<Rightarrow> int" where
  "seek_target cur len off SeekStart = off"
| "seek_target cur len off SeekCurrent = wrap64 (cur + off)"
| "seek_target cur len off SeekEnd = wrap64 (len + off)"

text \<open>
  \<^verbatim>\<open>Seek\<close>: the engine's \<^verbatim>\<open>Seek\<close> moves its own position. \<open>None\<close> is the error \<^verbatim>\<open>io.EOF\<close>.
\<close>

definition Seek :: "int \<Rightarrow> int \<Rightarrow> whence \<Rightarrow> nat \<Rightarrow> cache \<Rightarrow> int option \<times> cache" where
  "Seek now off wh i c =
     (if r_isClosed (robjs c ! i) then (None, c)
      else
        let c = upd_reader i (\<lambda>r. r\<lparr>r_offset := seek_target (r_offset r) (Length (r_file r)) off wh\<rparr>) c;
            c = readerOn i c;
            n = seek_target (eng_pos (robjs c ! i)) (Length (r_file (robjs c ! i))) off wh;
            c = upd_reader i (\<lambda>r. r\<lparr>eng_pos := n\<rparr>) c;
            c = upd_reader i (\<lambda>r. r\<lparr>r_offset := n, lastAccess := unix now\<rparr>) c;
            c = c\<lparr>calls := calls c @
                   [SetPlaybackPressure True (wrap64 (Offset (r_file (robjs c ! i)) + n))]\<rparr>
        in (Some n, c))"

text \<open>
  \<^verbatim>\<open>Read\<close> and \<^verbatim>\<open>ReadContext\<close>: \<open>eng_read\<close> is what the engine's reader returns from its position, the
  number of bytes and whether there was an error; \<open>info\<close> says whether the torrent's metadata is
  there. \<open>None\<close> is \<^verbatim>\<open>(0, io.EOF)\<close>.
\<close>

definition Read :: "int \<Rightarrow> bool \<Rightarrow> (int \<Rightarrow> nat \<times> bool) \<Rightarrow> nat \<Rightarrow> cache \<Rightarrow>
    (int \<times> nat \<times> bool) option \<times> cache" where
  "Read now info eng_read i c =
     (if r_isClosed (robjs c ! i) then (None, c)
      else if \<not> info then (None, c)
      else
        let c = readerOn i c;
            pos = eng_pos (robjs c ! i);
            (n, err) = eng_read pos;
            c = upd_reader i (\<lambda>r. r\<lparr>eng_pos := wrap64 (eng_pos r + int n)\<rparr>) c;
            c = upd_reader i (\<lambda>r. r\<lparr>r_offset := wrap64 (r_offset r + int n), lastAccess := unix now\<rparr>) c;
            c = c\<lparr>calls := calls c @ [SetPlaybackPressure True
                   (wrap64 (Offset (r_file (robjs c ! i)) + r_offset (robjs c ! i)))]\<rparr>
        in (Some (pos, n, err), c))"

definition reader_Close :: "nat \<Rightarrow> cache \<Rightarrow> cache" where
  "reader_Close i c =
     (if r_isClosed (robjs c ! i) then c
      else
        let c = upd_reader i (\<lambda>r. r\<lparr>r_isClosed := True\<rparr>) c;
            c = readerOff i c
        in if activeReaders c \<le> 0 then c\<lparr>calls := calls c @ [SetPlaybackPressure False (-1)]\<rparr> else c)"

definition CloseReader :: "nat \<Rightarrow> cache \<Rightarrow> cache" where
  "CloseReader i c =
     (case readers c of
        None \<Rightarrow> c
      | Some rs \<Rightarrow>
          if isClosed c then c
          else let c = reader_Close i c in c\<lparr>readers := Some (removeAll i rs)\<rparr>)"

definition AdjustRA :: "btsets \<Rightarrow> int \<Rightarrow> cache \<Rightarrow> cache" where
  "AdjustRA sets ra c =
     (let c = (if CacheSize sets = 0 then c\<lparr>capacity := wrap64 (ra * 3)\<rparr> else c)
      in if Readers c > 0
         then let per = perReaderReadahead ra (activeReaders c)
              in fold (\<lambda>i. upd_reader i (SetReadahead per))
                   (case readers c of None \<Rightarrow> [] | Some rs \<Rightarrow> rs) c
         else c)"

subsection \<open>The window of a reader\<close>

definition getPieceNum :: "cache \<Rightarrow> reader \<Rightarrow> int \<Rightarrow> int" where
  "getPieceNum c r off = tdiv (wrap64 (off + Offset (r_file r))) (pieceLength c)"

text \<open>\<^verbatim>\<open>float64(r.cache.capacity/readers)*safetyFactor*float64(pct)/100.0\<close>\<close>

definition window_part :: "int \<Rightarrow> int \<Rightarrow> int" where
  "window_part share pct = trunc (fl (fl (fl (fl (of_int share) * fl (85 / 100)) * fl (of_int pct)) / 100))"

definition getOffsetRange :: "btsets \<Rightarrow> cache \<Rightarrow> reader \<Rightarrow> int \<times> int" where
  "getOffsetRange sets c r =
     (let prc = ReaderReadAHead sets;
          rds = (if activeReaders c = 0 then 1 else activeReaders c);
          share = tdiv (capacity c) rds;
          beginOffset = wrap64 (r_offset r - window_part share (wrap64 (100 - prc)));
          endOffset = wrap64 (r_offset r + window_part share prc);
          beginOffset = (if beginOffset < 0 then 0 else beginOffset);
          endOffset = (if endOffset > Length (r_file r) then Length (r_file r) else endOffset)
      in (beginOffset, endOffset))"

definition getPiecesRange :: "btsets \<Rightarrow> cache \<Rightarrow> reader \<Rightarrow> range" where
  "getPiecesRange sets c r =
     (let (startOff, endOff) = getOffsetRange sets c r
      in \<lparr>Start = getPieceNum c r startOff, End = getPieceNum c r endOff, File = r_file r\<rparr>)"

definition getReaderPiece :: "cache \<Rightarrow> reader \<Rightarrow> int" where
  "getReaderPiece c r = getPieceNum c r (r_offset r)"

definition getReaderRAHPiece :: "cache \<Rightarrow> reader \<Rightarrow> int" where
  "getReaderRAHPiece c r = getPieceNum c r (wrap64 (r_offset r + r_readahead r))"

subsection \<open>The invariant of the readers\<close>

text \<open>
  Offsets and lengths stay far enough from the ends of \<^verbatim>\<open>int64\<close> for the sums of three of them.
  A reader in use has the engine's reader at its own position; a parked one has it at 0.
\<close>

definition lim :: int where
  "lim = 2 ^ 61"

definition file_ok :: "tfile \<Rightarrow> bool" where
  "file_ok f \<longleftrightarrow> 0 \<le> Offset f \<and> 0 \<le> Length f \<and> Offset f + Length f \<le> lim"

definition reader_ok :: "reader \<Rightarrow> bool" where
  "reader_ok r \<longleftrightarrow> r_cache r \<and> file_ok (r_file r) \<and> 0 \<le> r_offset r \<and> r_offset r \<le> lim \<and>
     0 \<le> r_readahead r \<and> r_readahead r \<le> lim \<and> eng_pos r = (if isUse r then r_offset r else 0)"

definition reader_inv :: "cache \<Rightarrow> bool" where
  "reader_inv c \<longleftrightarrow>
     activeReaders c = int (length (filter isUse (robjs c))) \<and> (\<forall>r \<in> set (robjs c). reader_ok r) \<and>
     (\<forall>rs. readers c = Some rs \<longrightarrow> distinct rs \<and> set rs \<subseteq> {..<length (robjs c)})"

lemma upd_reader_simps [cache_simps]:
  "robjs (upd_reader i f c) = (robjs c)[i := f (robjs c ! i)]"
  "activeReaders (upd_reader i f c) = activeReaders c" "readers (upd_reader i f c) = readers c"
  "mem.truncate (upd_reader i f c) = mem.truncate c" "calls (upd_reader i f c) = calls c"
  "localPriority (upd_reader i f c) = localPriority c"
  "pieceInRange (upd_reader i f c) = pieceInRange c" "isClosed (upd_reader i f c) = isClosed c"
  "lastCleanNS (upd_reader i f c) = lastCleanNS c" "isRemove (upd_reader i f c) = isRemove c"
  by (simp_all add: upd_reader_def mem.defs)

lemma upd_reader_twice: "upd_reader i f (upd_reader i g c) = upd_reader i (\<lambda>r. f (g r)) c"
  by (cases "i < length (robjs c)") (simp_all add: upd_reader_def list_update_beyond)

lemma reader_inv_upd:
  assumes "reader_inv c" and "i < length (robjs c)" and "reader_ok (f (robjs c ! i))"
  shows "reader_inv ((upd_reader i f c)\<lparr>activeReaders := activeReaders c -
    of_bool (isUse (robjs c ! i)) + of_bool (isUse (f (robjs c ! i)))\<rparr>)"
  using assms set_update_subset_insert [of "robjs c" i "f (robjs c ! i)"]
  by (auto simp: reader_inv_def cache_simps filter_update_count)

lemma reader_inv_same:
  assumes "reader_inv c" and "i < length (robjs c)" and "reader_ok (f (robjs c ! i))"
    and "isUse (f (robjs c ! i)) = isUse (robjs c ! i)"
  shows "reader_inv (upd_reader i f c)"
  using assms set_update_subset_insert [of "robjs c" i "f (robjs c ! i)"]
  by (auto simp: reader_inv_def cache_simps filter_update_count)

lemma reader_inv_nth: "reader_inv c \<Longrightarrow> i < length (robjs c) \<Longrightarrow> reader_ok (robjs c ! i)"
  by (simp add: reader_inv_def)

lemma upd_reader_cong: "f (robjs c ! i) = g (robjs c ! i) \<Longrightarrow> upd_reader i f c = upd_reader i g c"
  by (simp only: upd_reader_def)

lemma upd_reader_active:
  "upd_reader i f (c\<lparr>activeReaders := n\<rparr>) = (upd_reader i f c)\<lparr>activeReaders := n\<rparr>"
  by (simp add: upd_reader_def)

text \<open>What parking and unparking come to under the invariant.\<close>

definition parked :: "reader \<Rightarrow> reader" where
  "parked r = r\<lparr>r_readahead := 0, eng_readahead := Some 0, isUse := False, eng_pos := 0\<rparr>"

definition unparked :: "reader \<Rightarrow> reader" where
  "unparked r = r\<lparr>isUse := True, eng_pos := r_offset r\<rparr>"

lemma readerOff_eq:
  assumes "reader_inv c" and "i < length (robjs c)"
  shows "readerOff i c = (if isUse (robjs c ! i)
    then (upd_reader i parked c)\<lparr>activeReaders := activeReaders c - 1\<rparr> else c)"
proof (cases "isUse (robjs c ! i)")
  case True
  let ?f = "\<lambda>r. let r = (SetReadahead 0 r)\<lparr>isUse := False\<rparr>
    in if r_offset r > 0 then r\<lparr>eng_pos := 0\<rparr> else r"
  have "readerOff i c = (upd_reader i ?f c)\<lparr>activeReaders := activeReaders c - 1\<rparr>"
    using True
    by (simp only: readerOff_def if_True Let_def upd_reader_active upd_reader_twice upd_reader_simps)
  moreover have "?f (robjs c ! i) = parked (robjs c ! i)"
    using reader_inv_nth [OF assms] True
    by (cases "robjs c ! i") (auto simp: reader_ok_def SetReadahead_def parked_def Let_def)
  then have "upd_reader i ?f c = upd_reader i parked c" by (rule upd_reader_cong)
  ultimately show ?thesis using True by (simp only: if_True)
qed (simp only: readerOff_def if_False)

lemma readerOn_eq:
  assumes "reader_inv c" and "i < length (robjs c)"
  shows "readerOn i c = (if isUse (robjs c ! i) then c
    else (upd_reader i unparked c)\<lparr>activeReaders := activeReaders c + 1\<rparr>)"
proof (cases "isUse (robjs c ! i)")
  case False
  let ?f = "\<lambda>r. let r = (if eng_pos r = 0 then r\<lparr>eng_pos := r_offset r\<rparr> else r)
    in (SetReadahead (r_readahead r) r)\<lparr>isUse := True\<rparr>"
  have "readerOn i c = (upd_reader i ?f c)\<lparr>activeReaders := activeReaders c + 1\<rparr>"
    using False
    by (simp only: readerOn_def if_True Let_def upd_reader_twice upd_reader_simps simp_thms)
  moreover have "?f (robjs c ! i) = unparked (robjs c ! i)"
    using reader_inv_nth [OF assms] False
    by (cases "robjs c ! i") (auto simp: reader_ok_def SetReadahead_def unparked_def Let_def)
  then have "upd_reader i ?f c = upd_reader i unparked c" by (rule upd_reader_cong)
  ultimately show ?thesis using False by (simp only: if_False)
qed (simp only: readerOn_def if_False if_True simp_thms)

lemma reader_ok_parked: "reader_ok r \<Longrightarrow> reader_ok (parked r)"
  by (simp add: reader_ok_def parked_def lim_def)

lemma reader_ok_unparked: "reader_ok r \<Longrightarrow> reader_ok (unparked r)"
  by (simp add: reader_ok_def unparked_def)

lemma use_parked: "isUse (parked r) = False" "isUse (unparked r) = True"
  by (simp_all add: parked_def unparked_def)

lemma reader_inv_off:
  assumes "reader_inv c" and "i < length (robjs c)"
  shows "reader_inv (readerOff i c)"
  using assms reader_inv_upd [OF assms, of parked] reader_ok_parked reader_inv_nth [OF assms]
  by (cases "isUse (robjs c ! i)") (simp_all add: readerOff_eq use_parked)

lemma reader_inv_on:
  assumes "reader_inv c" and "i < length (robjs c)"
  shows "reader_inv (readerOn i c)"
  using assms reader_inv_upd [OF assms, of unparked] reader_ok_unparked reader_inv_nth [OF assms]
  by (cases "isUse (robjs c ! i)") (simp_all add: readerOn_eq use_parked)

lemma checkReader_inv:
  "reader_inv c \<Longrightarrow> i < length (robjs c) \<Longrightarrow> reader_inv (checkReader now i c)"
  by (simp add: checkReader_def reader_inv_on reader_inv_off)

subsection \<open>Seeking and reading\<close>

definition moved :: "int \<Rightarrow> int \<Rightarrow> reader \<Rightarrow> reader" where
  "moved now n r = r\<lparr>r_offset := n, lastAccess := unix now, isUse := True, eng_pos := n\<rparr>"

definition move :: "int \<Rightarrow> int \<Rightarrow> nat \<Rightarrow> cache \<Rightarrow> cache" where
  "move now n i c = (upd_reader i (moved now n) c)\<lparr>activeReaders := activeReaders c +
     of_bool (\<not> isUse (robjs c ! i)), calls := calls c @
       [SetPlaybackPressure True (wrap64 (Offset (r_file (robjs c ! i)) + n))]\<rparr>"

text \<open>Where \<^verbatim>\<open>Seek\<close> ends up: \<^verbatim>\<open>SeekCurrent\<close> on a parked reader adds the offset twice.\<close>

definition sought :: "int \<Rightarrow> whence \<Rightarrow> reader \<Rightarrow> int" where
  "sought off wh r =
     (let t = seek_target (r_offset r) (Length (r_file r)) off wh
      in if isUse r then t else seek_target t (Length (r_file r)) off wh)"

text \<open>Reader updates as assignments of objects, on which the simplifier computes.\<close>

definition put :: "nat \<Rightarrow> reader \<Rightarrow> cache \<Rightarrow> cache" where
  "put i r c = c\<lparr>robjs := (robjs c)[i := r]\<rparr>"

lemma upd_put: "upd_reader i f c = put i (f (robjs c ! i)) c"
  by (simp only: upd_reader_def put_def)

lemma put_simps:
  "i < length (robjs c) \<Longrightarrow> robjs (put i r c) ! i = r" "put i r (put i q c) = put i r c"
  "length (robjs (put i r c)) = length (robjs c)"
  "activeReaders (put i r c) = activeReaders c" "calls (put i r c) = calls c"
  "put i r (c\<lparr>activeReaders := n\<rparr>) = (put i r c)\<lparr>activeReaders := n\<rparr>"
  "put i r (c\<lparr>calls := cs\<rparr>) = (put i r c)\<lparr>calls := cs\<rparr>"
  "(put i r c)\<lparr>activeReaders := activeReaders c\<rparr> = put i r c"
  by (simp_all add: put_def)

lemmas reader_compute = upd_put put_simps Let_def readerOn_def SetReadahead_def move_def moved_def

lemma Seek_eq:
  assumes "reader_inv c" and "i < length (robjs c)" and "\<not> r_isClosed (robjs c ! i)"
  shows "Seek now off wh i c =
    (Some (sought off wh (robjs c ! i)), move now (sought off wh (robjs c ! i)) i c)"
  using reader_inv_nth [OF assms(1,2)] assms(2,3)
  by (cases "robjs c ! i"; cases "isUse (robjs c ! i)")
    (simp_all add: Seek_def reader_compute reader_ok_def sought_def)

lemma Read_eq:
  assumes "reader_inv c" and "i < length (robjs c)" and "\<not> r_isClosed (robjs c ! i)"
    and "eng_read (r_offset (robjs c ! i)) = (n, err)"
  shows "Read now True eng_read i c =
    (Some (r_offset (robjs c ! i), n, err), move now (wrap64 (r_offset (robjs c ! i) + int n)) i c)"
  using reader_inv_nth [OF assms(1,2)] assms(2-4)
  by (cases "robjs c ! i"; cases "isUse (robjs c ! i)")
    (simp_all add: Read_def reader_compute reader_ok_def)

lemma move_inv:
  assumes "reader_inv c" and "i < length (robjs c)" and "0 \<le> n" and "n \<le> lim"
  shows "reader_inv (move now n i c)"
proof -
  have "reader_ok (moved now n (robjs c ! i))" "isUse (moved now n (robjs c ! i))"
    using reader_inv_nth [OF assms(1,2)] assms(3,4) by (simp_all add: reader_ok_def moved_def)
  with reader_inv_upd [OF assms(1,2), of "moved now n"] show ?thesis
    by (cases "isUse (robjs c ! i)") (simp_all add: move_def reader_inv_def)
qed

lemma move_simps:
  "robjs (move now n i c) = (robjs c)[i := moved now n (robjs c ! i)]"
  "readers (move now n i c) = readers c"
  by (simp_all add: move_def cache_simps)

lemma reader_inv_calls: "reader_inv (c\<lparr>calls := cs\<rparr>) = reader_inv c"
  by (simp add: reader_inv_def)

lemma reader_Close_inv:
  assumes "reader_inv c" and "i < length (robjs c)"
  shows "reader_inv (reader_Close i c)"
proof -
  have "reader_inv (upd_reader i (\<lambda>r. r\<lparr>r_isClosed := True\<rparr>) c)"
    using reader_inv_nth [OF assms] by (intro reader_inv_same assms) (simp_all add: reader_ok_def)
  then have "reader_inv (readerOff i (upd_reader i (\<lambda>r. r\<lparr>r_isClosed := True\<rparr>) c))"
    using assms(2) by (intro reader_inv_off) (simp_all add: cache_simps)
  with assms(1) show ?thesis by (simp add: reader_Close_def Let_def reader_inv_calls)
qed

lemma readerOff_frame:
  "readers (readerOff i c) = readers c" "length (robjs (readerOff i c)) = length (robjs c)"
  by (simp_all add: readerOff_def Let_def cache_simps)

lemma readerOn_frame:
  "readers (readerOn i c) = readers c" "length (robjs (readerOn i c)) = length (robjs c)"
  by (simp_all add: readerOn_def Let_def cache_simps)

lemma reader_Close_frame:
  "readers (reader_Close i c) = readers c" "length (robjs (reader_Close i c)) = length (robjs c)"
  by (simp_all add: reader_Close_def Let_def cache_simps readerOff_frame)

lemma CloseReader_inv:
  assumes "reader_inv c" and "i < length (robjs c)"
  shows "reader_inv (CloseReader i c)"
  using reader_Close_inv [OF assms] assms(1)
  by (auto simp: CloseReader_def Let_def reader_inv_def reader_Close_frame distinct_removeAll
      split: option.splits)

definition fresh :: "tfile \<Rightarrow> reader" where
  "fresh f = \<lparr>r_offset = 0, r_readahead = 0, r_file = f, r_cache = True, r_isClosed = False,
     lastAccess = 0, isUse = True, eng_pos = 0, eng_readahead = None\<rparr>"

lemma newReader_simps:
  "robjs (newReader f c) = robjs c @ [fresh f]"
  "activeReaders (newReader f c) = activeReaders c + 1"
  "readers (newReader f c) = map_option (\<lambda>rs. rs @ [length (robjs c)]) (readers c)"
  "mem.truncate (newReader f c) = mem.truncate c"
  "localPriority (newReader f c) = localPriority c" "pieceInRange (newReader f c) = pieceInRange c"
  by (cases "readers c";
      simp add: newReader_def SetAggressive_def SetReadahead_def fresh_def Let_def mem.defs)+

lemma newReader_inv:
  assumes "reader_inv c" and "file_ok f"
  shows "reader_inv (newReader f c)"
proof -
  have "reader_ok (fresh f)" "isUse (fresh f)"
    using assms(2) by (simp_all add: fresh_def reader_ok_def lim_def)
  with assms(1) show ?thesis
    by (auto simp: reader_inv_def newReader_simps lessThan_Suc dest: subsetD intro: less_SucI)
qed

lemma SetReadahead_ok:
  assumes "reader_ok r" and "0 \<le> ra" and "ra \<le> lim"
  shows "reader_ok (SetReadahead ra r)" and "isUse (SetReadahead ra r) = isUse r"
  using assms by (auto simp: SetReadahead_def reader_ok_def Let_def)

lemma adjust_loop_inv:
  assumes "reader_inv c" and "0 \<le> ra" and "ra \<le> lim" and "set is \<subseteq> {..<length (robjs c)}"
  shows "reader_inv (fold (\<lambda>i. upd_reader i (SetReadahead ra)) is c)"
  using assms
proof (induction "is" arbitrary: c)
  case (Cons i "is")
  then have "reader_inv (upd_reader i (SetReadahead ra) c)"
    by (intro reader_inv_same SetReadahead_ok reader_inv_nth) auto
  with Cons show ?case by (simp add: cache_simps)
qed simp

lemma perReader_range:
  assumes "0 \<le> tot" and "0 \<le> n"
  shows "0 \<le> perReaderReadahead tot n" and "perReaderReadahead tot n \<le> tot"
  using assms
  by (auto simp: perReaderReadahead_def minPerReaderReadahead_def Let_def intro: tdiv_nonneg)

lemma AdjustRA_inv:
  assumes "reader_inv c" and "0 \<le> ra" and "ra \<le> lim"
  shows "reader_inv (AdjustRA sets ra c)"
proof -
  define d where "d = (if CacheSize sets = 0 then c\<lparr>capacity := wrap64 (ra * 3)\<rparr> else c)"
  have inv: "reader_inv d" using assms(1) by (simp add: d_def reader_inv_def)
  define per where "per = perReaderReadahead ra (activeReaders d)"
  define rs where "rs = (case readers d of None \<Rightarrow> [] | Some rs \<Rightarrow> rs)"
  have "0 \<le> activeReaders d" using inv by (simp add: reader_inv_def)
  with perReader_range [OF assms(2)] assms(3) have "0 \<le> per" "per \<le> lim"
    by (auto simp: per_def intro: order_trans)
  moreover have "set rs \<subseteq> {..<length (robjs d)}"
    using inv by (cases "readers d") (simp_all add: rs_def reader_inv_def)
  ultimately have "reader_inv (fold (\<lambda>i. upd_reader i (SetReadahead per)) rs d)"
    by (intro adjust_loop_inv inv)
  with inv show ?thesis by (simp add: AdjustRA_def Let_def per_def rs_def flip: d_def)
qed

subsection \<open>How wide a window is\<close>

lemma window_part_nonneg: "0 \<le> share \<Longrightarrow> 0 \<le> pct \<Longrightarrow> 0 \<le> window_part share pct"
  unfolding window_part_def by (auto intro!: trunc_nonneg(1) fl_nonneg mult_nonneg_nonneg)

lemma window_part_le:
  assumes "0 \<le> share" and "0 \<le> pct"
  shows "of_int (window_part share pct) \<le>
    1002001 / 100000000 * ((854 / 1000 * of_int share + 2 / 1000) * (1001 / 1000 * of_int pct + 1 / 1000))
      + 2 / (1000 :: rat)"
proof -
  define A where "A = fl (of_int share)"
  define B where "B = fl (85 / 100)"
  define C where "C = fl (A * B)"
  define D where "D = fl (of_int pct)"
  define E where "E = fl (C * D)"
  have nn: "0 \<le> A" "0 \<le> B" "0 \<le> C" "0 \<le> D" "0 \<le> E"
    using assms
    by (auto simp: A_def B_def C_def D_def E_def intro!: fl_nonneg mult_nonneg_nonneg)
  have A: "A \<le> 1001 / 1000 * of_int share + 1 / 1000" and D: "D \<le> 1001 / 1000 * of_int pct + 1 / 1000"
    unfolding A_def D_def using assms by (simp_all only: fl_le_coarse of_int_0_le_iff)
  have B: "B \<le> 852 / 1000" unfolding B_def using fl_le_coarse [of "85 / 100"] by simp
  have "A * B \<le> (1001 / 1000 * of_int share + 1 / 1000) * (852 / 1000)"
    using A B nn assms by (intro mult_mono) simp_all
  moreover have "C \<le> 1001 / 1000 * (A * B) + 1 / 1000"
    unfolding C_def using nn by (intro fl_le_coarse) simp
  ultimately have C: "C \<le> 854 / 1000 * of_int share + 2 / 1000" using assms(1) by simp
  define R where
    "R = (854 / 1000 * of_int share + 2 / 1000) * (1001 / 1000 * of_int pct + 1 / (1000 :: rat))"
  define X where "X = C * D"
  have CD: "X \<le> R"
    unfolding R_def X_def
    using C D nn assms by (intro mult_mono) simp_all
  have "E \<le> 1001 / 1000 * (C * D) + 1 / 1000"
    unfolding E_def using nn by (intro fl_le_coarse) simp
  moreover have "fl (E / 100) \<le> 1001 / 1000 * (E / 100) + 1 / 1000"
    using nn by (intro fl_le_coarse) simp
  moreover have "of_int (window_part share pct) \<le> fl (E / 100)"
    unfolding window_part_def A_def B_def C_def D_def E_def
    using assms by (auto intro!: trunc_nonneg(2) fl_nonneg mult_nonneg_nonneg)
  ultimately show ?thesis using CD by (simp only: R_def [symmetric] X_def [symmetric])
qed

lemma window_parts_le:
  assumes "0 \<le> share" and "0 \<le> pct" and "pct \<le> 100"
  shows "100 * (window_part share (100 - pct) + window_part share pct) \<le> 86 * share + 100"
proof -
  let ?a = "of_int share :: rat" and ?p = "of_int pct :: rat"
  define K where "K = 854 / 1000 * ?a + 2 / 1000"
  define P where "P = K * (1001 / 1000 * ?p + 1 / 1000)"
  define Q where "Q = K * (1001 / 1000 * of_int (100 - pct) + 1 / 1000)"
  have "1001 / 1000 * ?p + 1 / 1000 + (1001 / 1000 * of_int (100 - pct) + 1 / 1000) = 100102 / 1000"
    by (simp add: field_simps)
  then have "P + Q = K * (100102 / 1000)" by (simp only: P_def Q_def distrib_left [symmetric])
  moreover have "of_int (window_part share pct) \<le> 1002001 / 100000000 * P + 2 / (1000 :: rat)"
    "of_int (window_part share (100 - pct)) \<le> 1002001 / 100000000 * Q + 2 / (1000 :: rat)"
    unfolding P_def Q_def K_def using assms by (simp_all only: window_part_le diff_ge_0_iff_ge)
  ultimately have "of_int (window_part share (100 - pct)) + of_int (window_part share pct) \<le>
      1002001 / 100000000 * (K * (100102 / 1000)) + 4 / (1000 :: rat)" by linarith
  also have "\<dots> \<le> 86 / 100 * ?a + 1" 
  proof -
    have "0 \<le> ?a" using assms(1) by simp
    then show ?thesis unfolding K_def by (simp add: field_simps)
  qed
  finally have "of_int (100 * (window_part share (100 - pct) + window_part share pct)) \<le>
      (of_int (86 * share + 100) :: rat)" by simp
  then show ?thesis by (simp only: of_int_le_iff)
qed

text \<open>The bounds of a window, in bytes of the file, before they become piece numbers.\<close>

definition sets_ok :: "btsets \<Rightarrow> bool" where
  "sets_ok sets \<longleftrightarrow> 0 \<le> ReaderReadAHead sets \<and> ReaderReadAHead sets \<le> 100"

definition share_of :: "cache \<Rightarrow> int" where
  "share_of c = capacity c div (if activeReaders c = 0 then 1 else activeReaders c)"

lemma getOffsetRange_bounds:
  assumes "sets_ok sets" and "0 \<le> capacity c" and "capacity c \<le> lim" and "0 \<le> activeReaders c"
    and "reader_ok r" and "r_offset r \<le> Length (r_file r)"
    and "getOffsetRange sets c r = (b, e)"
  shows "0 \<le> b" and "b \<le> r_offset r" and "r_offset r \<le> e" and "e \<le> Length (r_file r)"
    and "100 * (e - b) \<le> 86 * share_of c + 100"
proof -
  define prc where "prc = ReaderReadAHead sets"
  have prc: "0 \<le> prc" "prc \<le> 100" "wrap64 (100 - prc) = 100 - prc"
    using assms(1) by (auto simp: sets_ok_def prc_def in64_def intro!: wrap64_id)
  let ?n = "if activeReaders c = 0 then 1 else activeReaders c"
  have share: "tdiv (capacity c) ?n = share_of c" "0 \<le> share_of c" "share_of c \<le> capacity c"
    using assms(2,4) by (simp_all add: share_of_def tdiv_nonneg pos_imp_zdiv_nonneg_iff div_le_self)
  define x where "x = window_part (share_of c) (100 - prc)"
  define y where "y = window_part (share_of c) prc"
  have xy: "0 \<le> x" "0 \<le> y" "100 * (x + y) \<le> 86 * share_of c + 100"
    using share prc window_parts_le [of "share_of c" prc]
    by (simp_all add: x_def y_def window_part_nonneg)
  moreover have o: "0 \<le> r_offset r" "r_offset r \<le> 2 ^ 61" "capacity c \<le> 2 ^ 61"
    using assms(3,5) by (auto simp: reader_ok_def lim_def)
  ultimately have w: "wrap64 (r_offset r - x) = r_offset r - x" "wrap64 (r_offset r + y) = r_offset r + y"
    using share(3) by (auto simp: in64_def intro!: wrap64_id)
  have be: "b = max 0 (r_offset r - x)" "e = min (Length (r_file r)) (r_offset r + y)"
    using assms(7) by (auto simp: getOffsetRange_def share prc w Let_def max_def min_def
        simp flip: prc_def x_def y_def)
  then show "0 \<le> b" "b \<le> r_offset r" "r_offset r \<le> e" "e \<le> Length (r_file r)"
    using xy o assms(6) by auto
  have "e \<le> r_offset r + y" "r_offset r - x \<le> b" using be by auto
  then have "100 * (e - b) \<le> 100 * (x + y)" by simp
  with xy(3) show "100 * (e - b) \<le> 86 * share_of c + 100" by (rule order_trans [rotated])
qed

subsection \<open>Which pieces are index pieces\<close>

text \<open>
  Piece \<open>k\<close> holds the head or the tail of a file of at least 10 MiB that starts at \<open>fs\<close>.
\<close>

definition file_end_piece :: "int \<Rightarrow> int \<Rightarrow> int \<Rightarrow> int \<Rightarrow> int \<Rightarrow> bool" where
  "file_end_piece plen keep fs len k \<longleftrightarrow> 10 * 2 ^ 20 \<le> len \<and>
     (fs div plen \<le> k \<and> k \<le> (fs + keep) div plen \<or>
      max 0 (tdiv (fs + len - keep) plen) \<le> k \<and> k \<le> (fs + len - 1) div plen)"

lemma mark_two:
  assumes "0 \<le> a" and "0 \<le> c" and "int (length bm) = n"
  obtains bm1 bm2 where "mark_from bm a (min (if b \<ge> n then n - 1 else b) (n - 1)) = Some bm1"
    "mark_from bm1 c (min (if d \<ge> n then n - 1 else d) (n - 1)) = Some bm2"
    "length bm2 = length bm"
    "\<forall>k < length bm. bm2 ! k \<longleftrightarrow>
       bm ! k \<or> (a \<le> int k \<and> int k \<le> b \<or> c \<le> int k \<and> int k \<le> d)"
proof -
  let ?b = "min (if b \<ge> n then n - 1 else b) (n - 1)" and ?d = "min (if d \<ge> n then n - 1 else d) (n - 1)"
  have lt: "?b < int (length bm)" "?d < int (length bm)" using assms(3) by (auto simp: min_def)
  obtain bm1 where 1: "mark_from bm a ?b = Some bm1" "length bm1 = length bm"
    "\<forall>k < length bm. bm1 ! k \<longleftrightarrow> bm ! k \<or> (a \<le> int k \<and> int k \<le> ?b)"
    using mark_from_spec [OF assms(1) lt(1)] by blast
  obtain bm2 where 2: "mark_from bm1 c ?d = Some bm2" "length bm2 = length bm1"
    "\<forall>k < length bm1. bm2 ! k \<longleftrightarrow> bm1 ! k \<or> (c \<le> int k \<and> int k \<le> ?d)"
    using mark_from_spec [of c ?d bm1] assms(2) lt(2) by (auto simp only: 1(2))
  have "\<forall>k < length bm. bm2 ! k \<longleftrightarrow>
       bm ! k \<or> (a \<le> int k \<and> int k \<le> b \<or> c \<le> int k \<and> int k \<le> d)"
    using 1(2,3) 2(3) assms(3) by (auto simp: min_def split: if_splits)
  with 1 2 show ?thesis by (intro that) auto
qed

lemma ex_less_Suc: "(\<exists>j < Suc n. P j) \<longleftrightarrow> P 0 \<or> (\<exists>j < n. P (Suc j))"
  by (metis less_Suc_eq_0_disj)

lemma mark_files_spec:
  assumes "0 < plen" and "0 \<le> keep" and "keep \<le> lim" and "0 \<le> cur"
    and "\<forall>f \<in> set files. 0 \<le> f" and "cur + sum_list files \<le> lim"
  shows "\<exists>bm'. mark_files plen (int (length bm)) keep cur files bm = Some bm' \<and>
    length bm' = length bm \<and> (\<forall>k < length bm. bm' ! k \<longleftrightarrow> bm ! k \<or>
      (\<exists>j < length files. file_end_piece plen keep (cur + sum_list (take j files)) (files ! j) (int k)))"
  using assms(4-6)
proof (induction files arbitrary: cur bm)
  case (Cons len fs)
  have len: "0 \<le> len" "cur + len \<le> lim" "0 \<le> sum_list fs"
    using Cons.prems sum_list_nonneg [of fs] by auto
  then have w: "wrap64 (cur + len) = cur + len" "wrap64 (cur + keep) = cur + keep"
    "wrap64 (cur + len - keep) = cur + len - keep" "wrap64 (cur + len - 1) = cur + len - 1"
    using Cons.prems(1) assms(2,3) by (auto simp: in64_def lim_def intro!: wrap64_id)
  have IH: "\<exists>bm'. mark_files plen (int (length bm)) keep (cur + len) fs bm = Some bm' \<and>
    length bm' = length bm \<and> (\<forall>k < length bm. bm' ! k \<longleftrightarrow> bm ! k \<or>
      (\<exists>j < length fs. file_end_piece plen keep (cur + len + sum_list (take j fs)) (fs ! j) (int k)))" for bm
    using Cons.IH [of "cur + len" bm] Cons.prems len by simp
  show ?case
  proof (cases "len < 10 * 2 ^ 20")
    case True
    with IH [of bm] show ?thesis by (simp add: w ex_less_Suc file_end_piece_def add.assoc)
  next
    case False
    let ?c = "tdiv (cur + len - keep) plen"
    have d: "tdiv cur plen = cur div plen" "tdiv (cur + keep) plen = (cur + keep) div plen"
      "tdiv (cur + len - 1) plen = (cur + len - 1) div plen" "0 \<le> cur div plen"
      using assms(1,2) Cons.prems(1) False by (simp_all add: tdiv_nonneg pos_imp_zdiv_nonneg_iff)
    have c0: "0 \<le> (if ?c < 0 then 0 else ?c)" by simp
    obtain bm1 bm2 where m: "mark_from bm (cur div plen) (min (if (cur + keep) div plen \<ge> int (length bm)
        then int (length bm) - 1 else (cur + keep) div plen) (int (length bm) - 1)) = Some bm1"
      "mark_from bm1 (if ?c < 0 then 0 else ?c) (min (if (cur + len - 1) div plen \<ge> int (length bm)
        then int (length bm) - 1 else (cur + len - 1) div plen) (int (length bm) - 1)) = Some bm2"
      "length bm2 = length bm"
      "\<forall>k < length bm. bm2 ! k \<longleftrightarrow> bm ! k \<or> (cur div plen \<le> int k \<and> int k \<le> (cur + keep) div plen \<or>
         (if ?c < 0 then 0 else ?c) \<le> int k \<and> int k \<le> (cur + len - 1) div plen)"
      by (rule mark_two [OF d(4) c0 refl, where b = "(cur + keep) div plen" and d = "(cur + len - 1) div plen"])
    have "mark_files plen (int (length bm)) keep cur (len # fs) bm =
        mark_files plen (int (length bm)) keep (cur + len) fs bm2"
      using False by (simp only: mark_files.simps Let_def w d m(1,2) option.case if_False)
    moreover have "file_end_piece plen keep cur len (int k) \<longleftrightarrow>
        cur div plen \<le> int k \<and> int k \<le> (cur + keep) div plen \<or>
         (if ?c < 0 then 0 else ?c) \<le> int k \<and> int k \<le> (cur + len - 1) div plen" for k
      using False by (auto simp: file_end_piece_def)
    ultimately show ?thesis
      using IH [of bm2] m(3,4) by (auto simp: ex_less_Suc add.assoc)
  qed
qed simp

subsection \<open>The index cache on disk\<close>

definition disk_ok :: "int \<Rightarrow> (nat \<Rightarrow> byte list option) \<Rightarrow> bool" where
  "disk_ok plen disk \<longleftrightarrow> (\<forall>i dat. disk i = Some dat \<longrightarrow> int (length dat) \<le> plen)"

text \<open>Piece \<open>j\<close> holds exactly the bytes \<open>dat\<close> of its file and counts as complete.\<close>

definition loaded :: "cache \<Rightarrow> nat \<Rightarrow> byte list \<Rightarrow> bool" where
  "loaded c j dat \<longleftrightarrow> Complete (objs c ! j) \<and> Size (objs c ! j) = int (length dat) \<and>
     (\<exists>buf. contents c j = Some buf \<and> take (length dat) buf = dat)"

definition load_piece :: "int \<Rightarrow> byte list \<Rightarrow> nat \<Rightarrow> cache \<Rightarrow> cache" where
  "load_piece now dat i c = upd_obj i (\<lambda>p. p\<lparr>Complete := True, Size := int (length dat)\<rparr>)
     (snd (WriteAt (unix now) dat 0 i c))"

lemma load_piece_spec:
  assumes "mem_inv c" and "i < length (objs c)" and "int (length dat) \<le> pieceLength c"
  shows "mem_inv (load_piece now dat i c)" and "loaded (load_piece now dat i c) i dat"
    and "j \<noteq> i \<Longrightarrow> objs (load_piece now dat i c) ! j = objs c ! j"
    and "j \<noteq> i \<Longrightarrow> contents (load_piece now dat i c) j = contents c j"
proof -
  let ?w = "snd (WriteAt (unix now) dat 0 i c)"
  let ?f = "\<lambda>p. p\<lparr>Complete := True, Size := int (length dat)\<rparr>"
  have z: "0 \<le> (0::int)" "0 \<le> pieceLength c" using assms(1) by (auto simp: mem_inv_def)
  note w = WriteAt_frame [OF assms(1,2), of "unix now" dat 0] WriteAt_objs [OF assms(1,2) z, where now = "unix now" and b = dat]
  show "mem_inv (load_piece now dat i c)"
    unfolding load_piece_def using w assms(3)
    by (intro mem_inv_upd_keep WriteAt_inv assms(1,2)) (auto simp: piece_ok_def)
  obtain base where base: "length base = nat (pieceLength c)" "contents ?w i = Some (splice base 0 dat)"
    using contents_put_same [OF assms(1,2) z, of "unix now" dat] by auto
  have "holds_at (splice base 0 dat) 0 dat" using base(1) assms(3) by (intro holds_at_splice) linarith
  then have "take (length dat) (splice base 0 dat) = dat" using holds_at_take by fastforce
  with base(2) w(2) assms(2) show "loaded (load_piece now dat i c) i dat"
    unfolding loaded_def load_piece_def by (simp add: contents_upd_keep upd_obj_simps)
  show "j \<noteq> i \<Longrightarrow> objs (load_piece now dat i c) ! j = objs c ! j"
    using w by (simp add: load_piece_def upd_obj_simps)
  show "j \<noteq> i \<Longrightarrow> contents (load_piece now dat i c) j = contents c j"
    using contents_put_other [OF assms(1,2)] by (simp add: load_piece_def contents_upd_keep)
qed

lemma load_piece_static:
  "pieceLength c = l \<Longrightarrow> mem_inv c \<Longrightarrow> i < length (objs c) \<Longrightarrow> pieceLength (load_piece now dat i c) = l"
  "mem_inv c \<Longrightarrow> i < length (objs c) \<Longrightarrow> length (objs (load_piece now dat i c)) = length (objs c)"
  "isIndexPiece (load_piece now dat i c) = isIndexPiece c" "filled (load_piece now dat i c) = filled c"
  "mem.more (load_piece now dat i c) = mem.more c" "pieces (load_piece now dat i c) = pieces c"
  "isClosed (load_piece now dat i c) = isClosed c" "torrent (load_piece now dat i c) = torrent c"
  "capacity (load_piece now dat i c) = capacity c"
  "pieceCount (load_piece now dat i c) = pieceCount c"
  by (simp_all add: load_piece_def upd_obj_simps WriteAt_static WriteAt_frame)

definition to_load :: "(nat \<Rightarrow> byte list option) \<Rightarrow> bool list \<Rightarrow> nat \<Rightarrow> byte list option" where
  "to_load disk idx i = (case disk i of Some dat \<Rightarrow> if idx ! i \<and> dat \<noteq> [] then Some dat else None
     | None \<Rightarrow> None)"

lemma preload_step:
  "preload_loop now disk (i # is) c bytes =
     (case to_load disk (isIndexPiece c) i of
        None \<Rightarrow> preload_loop now disk is c bytes
      | Some dat \<Rightarrow> preload_loop now disk is (load_piece now dat i c) (wrap64 (bytes + int (length dat))))"
  by (auto simp: to_load_def load_piece_def Let_def split: option.split)

definition same_shape :: "cache \<Rightarrow> cache \<Rightarrow> bool" where
  "same_shape c c' \<longleftrightarrow> pieceLength c' = pieceLength c \<and> pieceCount c' = pieceCount c \<and>
     capacity c' = capacity c \<and> length (objs c') = length (objs c) \<and>
     isIndexPiece c' = isIndexPiece c \<and> mem.more c' = mem.more c \<and> pieces c' = pieces c \<and>
     isClosed c' = isClosed c \<and> torrent c' = torrent c"

lemma preload_loop_spec:
  assumes "mem_inv c" and "disk_ok (pieceLength c) disk" and "distinct is"
    and "set is \<subseteq> {..<length (objs c)}" and "preload_loop now disk is c bytes = (c', bytes')"
  shows "mem_inv c' \<and> same_shape c c' \<and>
    (\<forall>j. j \<notin> set is \<or> to_load disk (isIndexPiece c) j = None \<longrightarrow>
       objs c' ! j = objs c ! j \<and> contents c' j = contents c j) \<and>
    (\<forall>j dat. j \<in> set is \<and> to_load disk (isIndexPiece c) j = Some dat \<longrightarrow> loaded c' j dat)"
  using assms
proof (induction "is" arbitrary: c bytes)
  case (Cons i "is")
  show ?case
  proof (cases "to_load disk (isIndexPiece c) i")
    case None
    with Cons.prems have "preload_loop now disk is c bytes = (c', bytes')" by (simp add: preload_step del: preload_loop.simps)
    with Cons.IH [OF Cons.prems(1,2)] Cons.prems(3,4) None show ?thesis by auto
  next
    case (Some dat)
    let ?d = "load_piece now dat i c"
    have i: "i < length (objs c)" using Cons.prems(4) by simp
    have "int (length dat) \<le> pieceLength c"
      using Some Cons.prems(2) by (auto simp: disk_ok_def to_load_def split: option.splits if_splits)
    note l = load_piece_spec [OF Cons.prems(1) i this, where now = now]
    note st = load_piece_static [where c = c and i = i and now = now and dat = dat]
    have "preload_loop now disk is ?d (wrap64 (bytes + int (length dat))) = (c', bytes')"
      using Cons.prems(5) Some by (simp add: preload_step del: preload_loop.simps)
    then have IH: "mem_inv c' \<and> same_shape ?d c' \<and>
      (\<forall>j. j \<notin> set is \<or> to_load disk (isIndexPiece c) j = None \<longrightarrow>
         objs c' ! j = objs ?d ! j \<and> contents c' j = contents ?d j) \<and>
      (\<forall>j dat. j \<in> set is \<and> to_load disk (isIndexPiece c) j = Some dat \<longrightarrow> loaded c' j dat)"
      using Cons.IH [OF l(1)] Cons.prems(1-4) i st by simp
    then have "loaded c' i dat"
      using l(2) Cons.prems(3) by (simp add: loaded_def)
    moreover have "same_shape c c'"
      using IH st Cons.prems(1) i by (simp add: same_shape_def)
    moreover have ne: "j \<noteq> i" if "j \<notin> set (i # is) \<or> to_load disk (isIndexPiece c) j = None" for j
      using that Some by auto
    ultimately show ?thesis using IH l(3) [OF ne] l(4) [OF ne] Some by auto
  qed
qed (auto simp: same_shape_def)

subsection \<open>The cache after Init\<close>

definition keep_of :: "int \<Rightarrow> int" where
  "keep_of plen = (if plen < 8 * 2 ^ 20 then 8 * 2 ^ 20 else plen)"

definition torrent_ok :: "int \<Rightarrow> int list \<Rightarrow> bool" where
  "torrent_ok plen files \<longleftrightarrow> 0 < plen \<and> plen < 2 ^ 60 \<and> (\<forall>f \<in> set files. 0 \<le> f) \<and> sum_list files \<le> lim"

definition dir_ok :: "int \<Rightarrow> (nat \<Rightarrow> byte list option) option \<Rightarrow> bool" where
  "dir_ok plen dir \<longleftrightarrow> (\<forall>disk. dir = Some disk \<longrightarrow> disk_ok plen disk)"

definition on_disk :: "(nat \<Rightarrow> byte list option) option \<Rightarrow> nat \<Rightarrow> byte list option" where
  "on_disk dir i = (case dir of None \<Rightarrow> None | Some disk \<Rightarrow> disk i)"

lemma map_filter_None: "\<forall>x \<in> set xs. f x = None \<Longrightarrow> List.map_filter f xs = []"
  by (induction xs) (simp_all add: List.map_filter_simps)

lemma mem_inv_start:
  assumes "objs c = map NewPiece [0..<pieceCount c]" and "length (isIndexPiece c) = pieceCount c"
    and "free c = []" and "0 < pieceLength c" and "pieceLength c < 2 ^ 62" and "0 \<le> freeCap c"
  shows "mem_inv c"
proof -
  have "owned c = []" unfolding owned_def assms(1) by (rule map_filter_None) (simp add: NewPiece_def)
  then show ?thesis using assms by (auto simp: mem_inv_def bufs_inv_def piece_ok_def NewPiece_def)
qed

lemma preloadIndexCache_spec:
  assumes "mem_inv c" and "dir_ok (pieceLength c) dir" and "pieceCount c = length (objs c)"
  shows "mem_inv (preloadIndexCache now dir c) \<and> same_shape c (preloadIndexCache now dir c) \<and>
    (\<forall>j < pieceCount c. if to_load (on_disk dir) (isIndexPiece c) j = None
       then objs (preloadIndexCache now dir c) ! j = objs c ! j
       else loaded (preloadIndexCache now dir c) j (the (on_disk dir j)))"
proof (cases dir)
  case None
  then show ?thesis using assms(1)
    by (simp add: preloadIndexCache_def same_shape_def to_load_def on_disk_def)
next
  case (Some disk)
  have od: "on_disk dir = disk" using Some by (auto simp: on_disk_def)
  obtain c' b where p: "preload_loop now disk [0..<pieceCount c] c 0 = (c', b)" by fastforce
  have "mem_inv c' \<and> same_shape c c' \<and>
    (\<forall>j. j \<notin> set [0..<pieceCount c] \<or> to_load disk (isIndexPiece c) j = None \<longrightarrow>
       objs c' ! j = objs c ! j \<and> contents c' j = contents c j) \<and>
    (\<forall>j dat. j \<in> set [0..<pieceCount c] \<and> to_load disk (isIndexPiece c) j = Some dat \<longrightarrow> loaded c' j dat)"
    using assms Some by (intro preload_loop_spec [OF _ _ _ _ p]) (auto simp: dir_ok_def)
  moreover have "preloadIndexCache now dir c = c'\<lparr>filled := wrap64 (filled c' + b)\<rparr>"
    by (simp add: preloadIndexCache_def Some p)
  moreover have "mem_inv (c'\<lparr>filled := x\<rparr>) = mem_inv c'" "loaded (c'\<lparr>filled := x\<rparr>) j d = loaded c' j d"
    "same_shape c (c'\<lparr>filled := x\<rparr>) = same_shape c c'" for x j d
    by (simp_all add: mem_inv_def bufs_inv_def buf_ok_def owned_def piece_ok_def loaded_def
        contents_def same_shape_def)
  moreover have "the (disk j) = d" if "to_load disk (isIndexPiece c) j = Some d" for j d
    using that by (auto simp: to_load_def split: option.splits if_splits)
  ultimately show ?thesis by (auto simp: od)
qed

text \<open>The state between the file loop of \<^verbatim>\<open>Init\<close> and the preload.\<close>

definition started :: "int \<Rightarrow> nat \<Rightarrow> bool list \<Rightarrow> cache \<Rightarrow> cache" where
  "started plen n bm c =
     (let cap = (if capacity c = 0 then wrap64 (plen * 4) else capacity c);
          fc = tdiv (tdiv cap 4) plen
      in c\<lparr>capacity := cap, pieceLength := plen, pieceCount := n, freeCap := (if fc < 2 then 2 else fc),
           pieceInRange := replicate n False, isIndexPiece := bm, objs := map NewPiece [0..<n],
           pieces := Some [0..<n]\<rparr>)"

lemma Init_eq:
  assumes "plen \<noteq> 0"
    and "mark_files plen (int n) (keep_of plen) 0 files (replicate n False) = Some bm"
  shows "Init now dir plen n files c = Some (preloadIndexCache now dir (started plen n bm c))"
  using assms by (auto simp: Init_def started_def keep_of_def Let_def)

lemma Init_spec:
  assumes "torrent_ok plen files" and "dir_ok plen dir"
  obtains c bm where "Init now dir plen n files (NewCache cap) = Some c"
    "mem_inv c" "same_shape (started plen n bm (NewCache cap)) c" "isIndexPiece c = bm"
    "\<forall>k < n. bm ! k \<longleftrightarrow>
       (\<exists>j < length files. file_end_piece plen (keep_of plen) (sum_list (take j files)) (files ! j) (int k))"
    "\<forall>k < n. if to_load (on_disk dir) bm k = None then objs c ! k = NewPiece k
       else loaded c k (the (on_disk dir k))"
proof -
  have t: "0 < plen" "plen < 2 ^ 60" "\<forall>f \<in> set files. 0 \<le> f" "sum_list files \<le> lim"
    using assms(1) by (simp_all add: torrent_ok_def)
  then have "0 \<le> keep_of plen" "keep_of plen \<le> lim" by (auto simp: keep_of_def lim_def)
  then obtain bm where bm: "mark_files plen (int n) (keep_of plen) 0 files (replicate n False) = Some bm"
    "length bm = n" "\<forall>k < n. bm ! k \<longleftrightarrow>
       (\<exists>j < length files. file_end_piece plen (keep_of plen) (sum_list (take j files)) (files ! j) (int k))"
    using mark_files_spec [of plen "keep_of plen" 0 files "replicate n False"] t by auto
  let ?s = "started plen n bm (NewCache cap)"
  have s: "objs ?s = map NewPiece [0..<n]" "isIndexPiece ?s = bm" "pieceLength ?s = plen"
    "pieceCount ?s = n" "free ?s = []" "0 \<le> freeCap ?s"
    by (simp_all add: started_def NewCache_def Let_def)
  then have "mem_inv ?s" using t bm(2) by (intro mem_inv_start) simp_all
  from preloadIndexCache_spec [OF this, of dir now] assms(2) s
  have "mem_inv (preloadIndexCache now dir ?s)" "same_shape ?s (preloadIndexCache now dir ?s)"
    "\<forall>k < n. if to_load (on_disk dir) bm k = None then objs (preloadIndexCache now dir ?s) ! k = NewPiece k
       else loaded (preloadIndexCache now dir ?s) k (the (on_disk dir k))"
    by (simp_all split: if_splits)
  moreover from this(2) s have "isIndexPiece (preloadIndexCache now dir ?s) = bm"
    by (simp add: same_shape_def)
  ultimately show ?thesis using Init_eq [OF _ bm(1)] t(1) bm(3) by (intro that) simp_all
qed

lemma tdiv_le_div: "0 < p \<Longrightarrow> a \<le> x \<Longrightarrow> 0 \<le> x \<Longrightarrow> tdiv a p \<le> x div p"
  using tdiv_neg [of a p] pos_imp_zdiv_nonneg_iff [of p x]
  by (cases "0 \<le> a") (auto simp: tdiv_nonneg zdiv_mono1)

lemma file_end_pieceI:
  assumes "0 < plen" and "10 * 2 ^ 20 \<le> len" and "0 \<le> fs" and "fs \<le> x" and "x < fs + len"
    and "x < fs + keep \<or> fs + len - keep \<le> x"
  shows "file_end_piece plen keep fs len (x div plen)"
  using assms(6)
proof
  assume "x < fs + keep"
  with assms show ?thesis by (simp add: file_end_piece_def zdiv_mono1)
next
  assume "fs + len - keep \<le> x"
  with assms have "tdiv (fs + len - keep) plen \<le> x div plen" by (intro tdiv_le_div) simp_all
  moreover have "0 \<le> x div plen" "x div plen \<le> (fs + len - 1) div plen"
    using assms by (simp_all add: zdiv_mono1 pos_imp_zdiv_nonneg_iff)
  ultimately show ?thesis using assms(2) by (simp add: file_end_piece_def)
qed

lemma sum_take_bounds:
  assumes "\<forall>f \<in> set fs. 0 \<le> (f::int)" and "j < length fs"
  shows "0 \<le> sum_list (take j fs)" and "sum_list (take j fs) + fs ! j \<le> sum_list fs"
proof -
  show "0 \<le> sum_list (take j fs)" using assms(1) by (intro sum_list_nonneg) (auto dest: in_set_takeD)
  have "sum_list fs = sum_list (take (Suc j) fs) + sum_list (drop (Suc j) fs)"
    using sum_list_append [of "take (Suc j) fs" "drop (Suc j) fs"] by simp
  moreover have "0 \<le> sum_list (drop (Suc j) fs)"
    using assms(1) by (intro sum_list_nonneg) (auto dest: in_set_dropD)
  ultimately show "sum_list (take j fs) + fs ! j \<le> sum_list fs"
    using assms(2) by (simp add: take_Suc_conv_app_nth)
qed

text \<open>
  For a torrent whose pieces cover its files, \<^verbatim>\<open>Init\<close> does not panic, sets up the memory
  invariant, and marks as an index piece every piece that holds one of the first or last 8 MiB
  (or piece length, if that is larger) of a file of at least 10 MiB: those pieces are the ones
  eviction never takes.
\<close>

theorem Init_index_pieces:
  assumes "torrent_ok plen files" and "dir_ok plen dir" and "sum_list files \<le> int n * plen"
  shows "\<exists>c. Init now dir plen n files (NewCache cap) = Some c \<and> mem_inv c \<and>
    (\<forall>j x. j < length files \<and> 10 * 2 ^ 20 \<le> files ! j \<and>
       sum_list (take j files) \<le> x \<and> x < sum_list (take j files) + files ! j \<and>
       (x < sum_list (take j files) + keep_of plen \<or>
        sum_list (take j files) + files ! j - keep_of plen \<le> x) \<longrightarrow>
       is_index c (nat (x div plen)))"
proof -
  obtain c bm where c: "Init now dir plen n files (NewCache cap) = Some c" "mem_inv c"
    "same_shape (started plen n bm (NewCache cap)) c" "isIndexPiece c = bm"
    "\<forall>k < n. bm ! k \<longleftrightarrow>
       (\<exists>j < length files. file_end_piece plen (keep_of plen) (sum_list (take j files)) (files ! j) (int k))"
    by (rule Init_spec [OF assms(1,2)])
  have len: "length bm = n"
    using c(2-4) by (simp add: mem_inv_def same_shape_def started_def Let_def)
  have t: "0 < plen" "\<forall>f \<in> set files. 0 \<le> f" using assms(1) by (simp_all add: torrent_ok_def)
  have "is_index c (nat (x div plen))"
    if j: "j < length files" "10 * 2 ^ 20 \<le> files ! j"
      and x: "sum_list (take j files) \<le> x" "x < sum_list (take j files) + files ! j"
      "x < sum_list (take j files) + keep_of plen \<or>
        sum_list (take j files) + files ! j - keep_of plen \<le> x" for j x
  proof -
    note b = sum_take_bounds [OF t(2) j(1)]
    have "x < int n * plen" using b x(2) assms(3) by linarith
    then have "x div plen < int n" by (rule div_less_bound [OF t(1)])
    moreover have "0 \<le> x div plen" using b(1) x(1) t(1) by (simp add: pos_imp_zdiv_nonneg_iff)
    moreover have "file_end_piece plen (keep_of plen) (sum_list (take j files)) (files ! j) (x div plen)"
      by (rule file_end_pieceI [OF t(1) j(2) b(1) x])
    ultimately show ?thesis using c(4,5) j(1) len by (auto simp: nat_less_iff)
  qed
  with c(1,2) show ?thesis by blast
qed

theorem Init_index_pieces_witness:
  "torrent_ok (2 ^ 22) [12 * 2 ^ 20, 5] \<and> dir_ok (2 ^ 22) None \<and>
   (\<exists>c. Init 0 None (2 ^ 22) 4 [12 * 2 ^ 20, 5] (NewCache 0) = Some c \<and> mem_inv c \<and> is_index c 2)"
proof -
  have h: "torrent_ok (2 ^ 22) [12 * 2 ^ 20, 5]" "dir_ok (2 ^ 22) None"
    "sum_list [12 * 2 ^ 20, 5] \<le> int 4 * 2 ^ 22"
    by (simp_all add: torrent_ok_def dir_ok_def lim_def)
  show ?thesis using Init_index_pieces [OF h, of 0 0]
  proof (elim exE conjE)
    fix c
    assume c: "Init 0 None (2 ^ 22) 4 [12 * 2 ^ 20, 5] (NewCache 0) = Some c" "mem_inv c"
    assume idx: "\<forall>j x. j < length [12 * 2 ^ 20, 5::int] \<and> 10 * 2 ^ 20 \<le> [12 * 2 ^ 20, 5::int] ! j \<and>
       sum_list (take j [12 * 2 ^ 20, 5::int]) \<le> x \<and>
       x < sum_list (take j [12 * 2 ^ 20, 5::int]) + [12 * 2 ^ 20, 5::int] ! j \<and>
       (x < sum_list (take j [12 * 2 ^ 20, 5::int]) + keep_of (2 ^ 22) \<or>
        sum_list (take j [12 * 2 ^ 20, 5::int]) + [12 * 2 ^ 20, 5::int] ! j - keep_of (2 ^ 22) \<le> x) \<longrightarrow>
       is_index c (nat (x div 2 ^ 22))"
    have "is_index c 2" using idx [THEN spec, THEN spec, of 0 "11 * 2 ^ 20"] by (simp add: keep_of_def)
    with c h show ?thesis by blast
  qed
qed

lemma saved_data:
  assumes "mem_inv s" and "i < length (objs s)" and "contents s i = Some buf" and "Id (objs s ! i) = i"
  shows "saveIndexPieceToDisk True i s disk =
    disk(i \<mapsto> take (if Size (objs s ! i) = 0 then length buf else nat (Size (objs s ! i))) buf)"
proof -
  have "piece_ok s (objs s ! i)" using assms(1,2) by (simp add: mem_inv_def)
  moreover have "int (length buf) = pieceLength s"
    using contents_length [OF assms(1,3)] assms(1) by (simp add: mem_inv_def)
  ultimately show ?thesis
    using assms(2-4) by (auto simp: saveIndexPieceToDisk_def contents_def piece_ok_def Let_def)
qed

text \<open>
  C4. The index cache is a round trip: what \<^verbatim>\<open>saveIndexPieceToDisk\<close> writes for an index piece, a
  cache opened later for the same torrent has in that piece, byte for byte, and the piece counts
  as complete there with the saved size.
\<close>

theorem index_cache_roundtrip:
  assumes "mem_inv s" and "i < length (objs s)" and "contents s i = Some buf"
    and "Id (objs s ! i) = i" and "pieceLength s = plen"
    and "torrent_ok plen files" and "disk_ok plen disk" and "i < n"
    and "\<exists>j < length files. file_end_piece plen (keep_of plen) (sum_list (take j files)) (files ! j) (int i)"
  defines "m \<equiv> (if Size (objs s ! i) = 0 then length buf else nat (Size (objs s ! i)))"
  shows "\<exists>c buf'. Init now (Some (saveIndexPieceToDisk True i s disk)) plen n files (NewCache cap) = Some c \<and>
    Completion i c \<and> Size (objs c ! i) = int m \<and> contents c i = Some buf' \<and> take m buf' = take m buf"
proof -
  let ?disk = "saveIndexPieceToDisk True i s disk"
  have d: "?disk = disk(i \<mapsto> take m buf)" unfolding m_def by (rule saved_data [OF assms(1-4)])
  have pos: "0 < plen" using assms(6) by (simp add: torrent_ok_def)
  have len: "length buf = nat plen" using contents_length [OF assms(1,3)] assms(5) by simp
  have "piece_ok s (objs s ! i)" using assms(1,2) by (simp add: mem_inv_def)
  then have m: "0 < m" "m \<le> length buf"
    using len pos assms(5) by (auto simp: m_def piece_ok_def)
  have "dir_ok plen (Some ?disk)"
    using assms(7) m len pos by (auto simp: d dir_ok_def disk_ok_def)
  then obtain c bm where
    c: "Init now (Some ?disk) plen n files (NewCache cap) = Some c" and
    bm: "\<forall>k < n. bm ! k \<longleftrightarrow>
       (\<exists>j < length files. file_end_piece plen (keep_of plen) (sum_list (take j files)) (files ! j) (int k))" and
    l: "\<forall>k < n. if to_load (on_disk (Some ?disk)) bm k = None then objs c ! k = NewPiece k
       else loaded c k (the (on_disk (Some ?disk) k))"
    by (rule Init_spec [OF assms(6)])
  have "bm ! i" using bm assms(8,9) by blast
  then have "to_load (on_disk (Some ?disk)) bm i = Some (take m buf)"
    using m by (auto simp: to_load_def on_disk_def d)
  then have "loaded c i (take m buf)" using l assms(8) by (auto simp: on_disk_def d)
  with c m(2) show ?thesis by (auto simp: loaded_def Completion_def)
qed

abbreviation "written0 \<equiv> snd (WriteAt 5 [7, 9] 0 0 mem0)"

theorem index_cache_roundtrip_witness:
  "\<exists>c buf'. Init 0 (Some (saveIndexPieceToDisk True 0 written0 (\<lambda>_. None))) 4 1 [10 * 2 ^ 20] (NewCache 0)
      = Some c \<and> Completion 0 c \<and> contents c 0 = Some buf' \<and> take 2 buf' = [7, 9]"
proof -
  have z: "0 < length (objs mem0)" by (simp add: mem0_def)
  have w: "written0 = mem0\<lparr>cleanTrigger := True, heap := [[7, 9, 0, 0]],
      objs := [(NewPiece 0)\<lparr>Size := 2, Accessed := 5, buffer := Some 0\<rparr>, NewPiece 1, NewPiece 2]\<rparr>"
    by (simp add: mem0_def WriteAt_def ensure_buffer_def getBuffer_def make_buffer_def NewPiece_def
        upd_obj_def splice_def wrap64_def Let_def numeral_eq_Suc)
  have f: "\<exists>j < length [10 * 2 ^ 20 :: int]. file_end_piece 4 (keep_of 4) (sum_list (take j [10 * 2 ^ 20]))
      ([10 * 2 ^ 20] ! j) (int 0)"
    by (simp add: file_end_piece_def keep_of_def)
  have h: "contents written0 0 = Some [7, 9, 0, 0]" "Id (objs written0 ! 0) = 0" "0 < length (objs written0)"
    "pieceLength written0 = 4" "Size (objs written0 ! 0) = 2"
    unfolding w by (simp_all add: contents_def NewPiece_def mem0_def)
  have t: "torrent_ok 4 [10 * 2 ^ 20]" "disk_ok 4 (\<lambda>_. None)" "0 < (1::nat)"
    by (simp_all add: torrent_ok_def disk_ok_def lim_def)
  from index_cache_roundtrip [OF WriteAt_inv [OF mem0_inv z] h(3,1,2,4) t f, of 0 0] show ?thesis
    by (auto simp: h(5))
qed

text \<open>A cache with one reader at position 10, in use or parked, for the examples.\<close>

definition demo :: "bool \<Rightarrow> cache" where
  "demo u = (NewCache 4096)\<lparr>readers := Some [0], activeReaders := of_bool u, robjs :=
     [\<lparr>r_offset = 10, r_readahead = 5, r_file = \<lparr>Offset = 0, Length = 1000\<rparr>, r_cache = True,
       r_isClosed = False, lastAccess = 0, isUse = u, eng_pos = (if u then 10 else 0),
       eng_readahead = None\<rparr>]\<rparr>"

lemma demo_inv: "reader_inv (demo u)"
  by (simp add: demo_def reader_inv_def reader_ok_def file_ok_def lim_def)

text \<open>
  \<^verbatim>\<open>Seek\<close> on an open reader returns the position asked for and leaves the reader and the
  engine's reader there, in use, with the other readers untouched and the count of active readers
  still right; for \<^verbatim>\<open>SeekCurrent\<close> this needs the reader not to be parked.
\<close>

theorem Seek_position:
  assumes "reader_inv c" and "i < length (robjs c)" and "\<not> r_isClosed (robjs c ! i)"
    and "isUse (robjs c ! i) \<or> wh \<noteq> SeekCurrent"
    and "n = seek_target (r_offset (robjs c ! i)) (Length (r_file (robjs c ! i))) off wh"
    and "0 \<le> n" and "n \<le> lim"
  shows "\<exists>c'. Seek now off wh i c = (Some n, c') \<and> r_offset (robjs c' ! i) = n \<and>
    eng_pos (robjs c' ! i) = n \<and> isUse (robjs c' ! i) \<and> reader_inv c' \<and>
    (\<forall>j. j \<noteq> i \<longrightarrow> robjs c' ! j = robjs c ! j)"
proof -
  have "sought off wh (robjs c ! i) = n"
    using assms(4,5) by (cases wh) (auto simp: sought_def Let_def)
  with Seek_eq [OF assms(1-3), of now off wh] move_inv [OF assms(1,2,6,7), of now] assms(2) show ?thesis
    by (simp add: move_simps moved_def)
qed

theorem Seek_position_witness:
  "\<exists>c'. Seek 7 40 SeekStart 0 (demo False) = (Some 40, c') \<and> eng_pos (robjs c' ! 0) = 40"
  using Seek_position [OF demo_inv, of 0 False SeekStart 40 40 7] by (auto simp: demo_def lim_def)

text \<open>
  C35. \<^verbatim>\<open>SeekCurrent\<close> on a parked reader moves by the offset twice: \<^verbatim>\<open>readerOn\<close> puts the engine's
  reader at the new position, and the engine's own \<^verbatim>\<open>Seek\<close> adds the offset once more.
\<close>

theorem Seek_current_parked:
  assumes "reader_inv c" and "i < length (robjs c)" and "\<not> r_isClosed (robjs c ! i)"
    and "\<not> isUse (robjs c ! i)"
  shows "fst (Seek now off SeekCurrent i c) = Some (wrap64 (wrap64 (r_offset (robjs c ! i) + off) + off))"
  using Seek_eq [OF assms(1-3)] assms(4) by (simp add: sought_def Let_def)

theorem Seek_current_parked_witness: "fst (Seek 7 40 SeekCurrent 0 (demo False)) = Some 90"
  using Seek_current_parked [OF demo_inv, of 0 False 7 40] by (simp add: demo_def wrap64_def)

definition check_at :: "int \<times> nat \<Rightarrow> cache \<Rightarrow> cache" where
  "check_at tj c = (if snd tj < length (robjs c) then checkReader (fst tj) (snd tj) c else c)"

lemma checkReader_keeps:
  assumes "reader_inv c" and "j < length (robjs c)"
  shows "r_offset (robjs (checkReader now j c) ! i) = r_offset (robjs c ! i)"
    and "r_isClosed (robjs (checkReader now j c) ! i) = r_isClosed (robjs c ! i)"
    and "r_file (robjs (checkReader now j c) ! i) = r_file (robjs c ! i)"
    and "length (robjs (checkReader now j c)) = length (robjs c)"
  using assms
  by (cases "i = j"; simp add: checkReader_def readerOff_eq readerOn_eq upd_reader_simps parked_def unparked_def)+

lemma checks_keep:
  assumes "reader_inv c" and "c' = fold check_at tjs c"
  shows "reader_inv c' \<and> length (robjs c') = length (robjs c) \<and> r_offset (robjs c' ! i) = r_offset (robjs c ! i) \<and>
    r_isClosed (robjs c' ! i) = r_isClosed (robjs c ! i) \<and> r_file (robjs c' ! i) = r_file (robjs c ! i)"
  using assms
proof (induction tjs arbitrary: c)
  case (Cons tj tjs)
  have "reader_inv (check_at tj c)" using Cons.prems(1) by (simp add: check_at_def checkReader_inv)
  with Cons.IH [OF this] Cons.prems checkReader_keeps [OF Cons.prems(1)] show ?case
    by (auto simp: check_at_def)
qed simp



text \<open>
  C36. The readahead of a reader is lost: the 16 MiB that \<^verbatim>\<open>newReader\<close> asks for before it has set the
  reader's cache are ignored, and a reader that was parked comes back with a readahead of 0,
  because \<^verbatim>\<open>readerOff\<close> overwrites the value that \<^verbatim>\<open>readerOn\<close> restores.
\<close>

theorem readahead_lost:
  fixes f :: tfile
  assumes "reader_inv c" and "i < length (robjs c)" and "isUse (robjs c ! i)"
  defines "r \<equiv> robjs (readerOn i (readerOff i c)) ! i" and "q \<equiv> last (robjs (newReader f c))"
  shows "isUse r \<and> r_readahead r = 0 \<and> eng_readahead r = Some 0 \<and>
    isUse q \<and> r_readahead q = 0 \<and> eng_readahead q = None"
proof -
  have off: "readerOff i c = (upd_reader i parked c)\<lparr>activeReaders := activeReaders c - 1\<rparr>"
    using assms(3) readerOff_eq [OF assms(1,2)] by simp
  have "reader_inv (readerOff i c)" "i < length (robjs (readerOff i c))"
    using assms(2) by (simp_all add: reader_inv_off [OF assms(1,2)] readerOff_frame)
  from readerOn_eq [OF this] have "r = unparked (parked (robjs c ! i))"
    using assms(2) by (simp add: r_def off upd_reader_simps use_parked)
  then show ?thesis
    by (simp add: parked_def unparked_def q_def newReader_simps fresh_def)
qed

theorem readahead_lost_witness:
  "r_readahead (robjs (demo True) ! 0) = 5 \<and>
   r_readahead (robjs (readerOn 0 (readerOff 0 (demo True))) ! 0) = 0"
  using readahead_lost [OF demo_inv, of 0 True] by (simp add: demo_def)

subsection \<open>The windows of all readers\<close>

lemma window_covers:
  assumes "sets_ok sets" and "0 \<le> capacity c" and "capacity c \<le> lim" and "reader_inv c"
    and "0 < pieceLength c" and "reader_ok r" and "r_offset r \<le> Length (r_file r)"
  shows "covers (getPiecesRange sets c r) (getReaderPiece c r)"
proof -
  obtain x y where g: "getOffsetRange sets c r = (x, y)" by fastforce
  have "0 \<le> activeReaders c" using assms(4) by (simp add: reader_inv_def)
  note o = getOffsetRange_bounds [OF assms(1-3) this assms(6,7) g]
  have "file_ok (r_file r)" using assms(6) by (simp_all add: reader_ok_def)
  then have w: "wrap64 (z + Offset (r_file r)) = z + Offset (r_file r)" "0 \<le> z + Offset (r_file r)"
    if "0 \<le> z" "z \<le> Length (r_file r)" for z
    using that by (auto simp: file_ok_def in64_def lim_def intro!: wrap64_id)
  show ?thesis using o(1-4) assms(5)
    by (simp add: getPiecesRange_def getReaderPiece_def getPieceNum_def g w tdiv_mono)
qed

definition width :: "btsets \<Rightarrow> cache \<Rightarrow> reader \<Rightarrow> int" where
  "width sets c r = (let (b, e) = getOffsetRange sets c r in e - b)"

lemma sum_list_bound: "\<forall>x \<in> set xs. f x \<le> (k::int) \<Longrightarrow> sum_list (map f xs) \<le> int (length xs) * k"
  by (induction xs) (auto simp: algebra_simps)



end
