(* ===== verification/Eviction.thy ===== *)
theory Eviction
  imports Cache
begin

text \<open>
  Priorities and eviction, after the second half of
  \<^verbatim>\<open>src/server/torr/storage/torrstor/cache.go\<close>: which pieces the engine is asked to load for the
  readers, which cached pieces may go, and the cleaner that removes the least recently used of
  them when the cache is over its capacity. Go iterates over a map in an arbitrary order; here it
  is the order of the key list in the state, about which nothing is assumed. \<open>None\<close> is a panic,
  which \<^verbatim>\<open>runRecovered\<close> catches around the cleaner. Readers exist only after \<^verbatim>\<open>Init\<close>, so the
  divisions by the piece length in their windows are not by zero.
\<close>

subsection \<open>Priorities\<close>

definition local_prio :: "cache \<Rightarrow> nat \<Rightarrow> prio" where
  "local_prio c i = (case map_of (localPriority c) i of None \<Rightarrow> PiecePriorityNone | Some p \<Rightarrow> p)"

definition piece_prio :: "int \<Rightarrow> int \<Rightarrow> int \<Rightarrow> prio \<Rightarrow> int \<Rightarrow> prio" where
  "piece_prio readerPos rahPos hw old i =
     (if i = readerPos then PiecePriorityNow
      else if i = readerPos + 1 then PiecePriorityNext
      else if i > readerPos \<and> i \<le> rahPos then PiecePriorityReadahead
      else if i > rahPos \<and> i \<le> rahPos + hw
           then if old \<noteq> PiecePriorityHigh then PiecePriorityHigh else PiecePriorityNone
      else if i > rahPos + hw
           then if old \<noteq> PiecePriorityNormal then PiecePriorityNormal else PiecePriorityNone
      else PiecePriorityNone)"

text \<open>The loop over the pieces from the reader's position; \<open>None\<close> is the panic on a missing piece.\<close>

function prio_loop :: "int \<Rightarrow> int \<Rightarrow> int \<Rightarrow> int \<Rightarrow> int \<Rightarrow> int \<Rightarrow> int \<Rightarrow> (nat \<times> prio) list \<Rightarrow> cache \<Rightarrow>
    ((nat \<times> prio) list \<times> cache) option" where
  "prio_loop readerPos rahPos hw e cnt i limit batch c =
     (if i < e \<and> i < int (pieceCount c) \<and> limit < cnt
      then if i < 0 \<or> i \<ge> int (length (objs c)) then None
           else if \<not> Complete (objs c ! nat i)
           then let prio = piece_prio readerPos rahPos hw (local_prio c (nat i)) i
                in if prio \<noteq> PiecePriorityNone
                   then prio_loop readerPos rahPos hw e cnt (i + 1) (limit + 1)
                          (AList.update (nat i) prio batch)
                          (c\<lparr>localPriority := AList.update (nat i) prio (localPriority c)\<rparr>)
                   else prio_loop readerPos rahPos hw e cnt (i + 1) (limit + 1) batch c
           else prio_loop readerPos rahPos hw e cnt (i + 1) limit batch c
      else Some (batch, c))"
  by pat_completeness auto
termination
  by (relation "measure (\<lambda>(_, _, _, e, _, i, _). nat (e - i))") auto

declare prio_loop.simps [simp del]

definition prefetch_count :: "btsets \<Rightarrow> cache \<Rightarrow> int" where
  "prefetch_count sets c =
     (let numReaders = (case readers c of None \<Rightarrow> 0 | Some rs \<Rightarrow> int (length rs));
          numReaders = (if numReaders = 0 then 1 else numReaders);
          effectiveLimit = (if MasterLimit c > 0 then MasterLimit c else ConnectionsLimit sets);
          cnt = tdiv effectiveLimit numReaders;
          cnt = (if IsAggressive c
                 then let cnt = (if filled c > capacity c then 1
                                 else trunc (fl (fl (of_int effectiveLimit) * fl (8 / 10))))
                      in if cnt < 1 then 1 else cnt
                 else cnt);
          cnt = pieceBudgetCount cnt (capacity c) (pieceLength c)
      in if cnt < 1 then 1 else cnt)"

definition load_reader :: "btsets \<Rightarrow> int \<Rightarrow> nat \<Rightarrow> cache \<Rightarrow> cache option" where
  "load_reader sets hw i c =
     (let r = robjs c ! i
      in if \<not> isUse r then Some c
         else
           let readerPos = getReaderPiece c r
           in case prio_loop readerPos (getReaderRAHPiece c r) hw (End (getPiecesRange sets c r))
                     (prefetch_count sets c) readerPos 0 [] c of
                None \<Rightarrow> None
              | Some (batch, c) \<Rightarrow>
                  Some (if length batch > 0
                        then c\<lparr>calls := calls c @ [SetPiecePriorities batch]\<rparr> else c))"

fun load_readers :: "btsets \<Rightarrow> int \<Rightarrow> nat list \<Rightarrow> cache \<Rightarrow> cache option" where
  "load_readers sets hw [] c = Some c"
| "load_readers sets hw (i # is) c =
     (case load_reader sets hw i c of None \<Rightarrow> None | Some c \<Rightarrow> load_readers sets hw is c)"

definition setLoadPriority :: "btsets \<Rightarrow> cache \<Rightarrow> cache option" where
  "setLoadPriority sets c =
     (if \<not> torrent c then Some c
      else if pieceLength c = 0 then None
      else
        let hw = tdiv (tdiv (capacity c) (pieceLength c)) 10;
            hw = (if hw < 5 then 5 else hw)
        in load_readers sets hw (case readers c of None \<Rightarrow> [] | Some rs \<Rightarrow> rs) c)"

definition refreshPriorities :: "btsets \<Rightarrow> cache \<Rightarrow> cache option" where
  "refreshPriorities sets c =
     (if isClosed c \<or> \<not> torrent c \<or> pieces c = None \<or> readers c = None then Some c
      else setLoadPriority sets c)"

text \<open>\<open>check_readers\<close>: the loop that parks idle readers and collects the windows of the others.\<close>

fun check_readers :: "btsets \<Rightarrow> int \<Rightarrow> nat list \<Rightarrow> cache \<Rightarrow> range list \<Rightarrow> range list \<times> cache" where
  "check_readers sets now [] c ranges = (ranges, c)"
| "check_readers sets now (i # is) c ranges =
     (let c = checkReader now i c
      in check_readers sets now is c
           (if isUse (robjs c ! i) then ranges @ [getPiecesRange sets c (robjs c ! i)] else ranges))"

definition clear_one :: "range list \<Rightarrow> nat \<Rightarrow> cache \<Rightarrow> cache" where
  "clear_one ranges i c =
     (if ranges = [] \<or> \<not> inRanges ranges (int i)
      then if is_index c i \<and> \<not> Complete (objs c ! i) then c
           else c\<lparr>calls := calls c @ [SetPriority i PiecePriorityNone],
                  localPriority := AList.delete i (localPriority c)\<rparr>
      else c)"

definition clearPriority :: "btsets \<Rightarrow> int \<Rightarrow> cache \<Rightarrow> cache" where
  "clearPriority sets now c =
     (if isClosed c \<or> \<not> torrent c \<or> pieces c = None then c
      else case readers c of
             None \<Rightarrow> c
           | Some rs \<Rightarrow>
               let (ranges, c) = check_readers sets now rs c [];
                   ranges = mergeRange ranges
               in fold (clear_one ranges) (map fst (localPriority c)) c)"

subsection \<open>Eviction\<close>

fun in_file_ends :: "int \<Rightarrow> int \<Rightarrow> range list \<Rightarrow> int \<Rightarrow> bool" where
  "in_file_ends plen keep [] i = False"
| "in_file_ends plen keep (rg # rgs) i =
     (let off = Offset (File rg); len = Length (File rg);
          ss = tdiv off plen;
          se = tdiv (wrap64 (off + keep)) plen;
          es = tdiv (wrap64 (off + len - keep)) plen;
          ee = tdiv (wrap64 (off + len)) plen
      in if i \<ge> ss \<and> i < se \<or> i > es \<and> i \<le> ee then True else in_file_ends plen keep rgs i)"

definition isIdInFileBE :: "cache \<Rightarrow> range list \<Rightarrow> nat \<Rightarrow> bool" where
  "isIdInFileBE c ranges i =
     (if is_index c i then True
      else in_file_ends (pieceLength c)
             (if pieceLength c < 8 * 2 ^ 20 then 8 * 2 ^ 20 else pieceLength c) ranges (int i))"

text \<open>The scan over the pieces: the total size and the pieces that may go.\<close>

fun rem_scan :: "range list \<Rightarrow> cache \<Rightarrow> nat list \<Rightarrow> int \<Rightarrow> nat list \<Rightarrow> int \<times> nat list" where
  "rem_scan ranges c [] fill rem = (fill, rem)"
| "rem_scan ranges c (i # is) fill rem =
     (let sz = Size (objs c ! i);
          fill = (if sz > 0 then wrap64 (fill + sz) else fill);
          inRange = (i < length (pieceInRange c) \<and> pieceInRange c ! i)
      in if \<not> pieceEvictable sz (Complete (objs c ! i)) inRange then rem_scan ranges c is fill rem
         else if \<not> isIdInFileBE c ranges i then rem_scan ranges c is fill (rem @ [i])
         else rem_scan ranges c is fill rem)"

definition older :: "cache \<Rightarrow> nat \<Rightarrow> nat \<Rightarrow> bool" where
  "older c i j \<longleftrightarrow> Accessed (objs c ! i) < Accessed (objs c ! j)"

definition getRemPieces :: "btsets \<Rightarrow> int \<Rightarrow> cache \<Rightarrow> (nat list \<times> cache) option" where
  "getRemPieces sets now c =
     (if isClosed c then Some ([], c)
      else case (pieces c, readers c) of
             (Some ps, Some rs) \<Rightarrow>
               (let (ranges, c) = check_readers sets now rs c [];
                    ranges = mergeRange ranges
                in case fillPieceInRange (pieceInRange c) ranges (int (pieceCount c)) of
                     None \<Rightarrow> None
                   | Some bm \<Rightarrow>
                       let c = c\<lparr>pieceInRange := bm\<rparr>;
                           (fill, rem) = rem_scan ranges c ps 0 [];
                           c = clearPriority sets now c
                       in case setLoadPriority sets c of
                            None \<Rightarrow> None
                          | Some c \<Rightarrow> Some (sort_by (older c) rem, c\<lparr>filled := fill\<rparr>))
           | _ \<Rightarrow> Some ([], c))"

fun remove_loop :: "nat list \<Rightarrow> int \<Rightarrow> cache \<Rightarrow> cache" where
  "remove_loop [] rems c = c"
| "remove_loop (p # ps) rems c =
     (let c = removePiece p c; rems = rems - 1
      in if rems \<le> 0 then c else remove_loop ps rems c)"

definition cleanPieces :: "btsets \<Rightarrow> int \<Rightarrow> cache \<Rightarrow> cache option" where
  "cleanPieces sets now c =
     (if isRemove c \<or> isClosed c then Some c
      else case refreshPriorities sets c of
             None \<Rightarrow> None
           | Some c \<Rightarrow>
               if now - lastCleanNS c < 10 ^ 9 \<and> filled c < tdiv (wrap64 (capacity c * 9)) 10
               then Some c
               else
                 let c = c\<lparr>isRemove := True, lastCleanNS := now\<rparr>
                 in case getRemPieces sets now c of
                      None \<Rightarrow> None
                    | Some (rem, c) \<Rightarrow>
                        if filled c > capacity c
                        then if pieceLength c = 0 then None
                             else Some ((remove_loop rem (tdiv (wrap64 (filled c - capacity c)) (pieceLength c) + 1)
                                           c)\<lparr>isRemove := False\<rparr>)
                        else Some (c\<lparr>isRemove := False\<rparr>))"

subsection \<open>What the priority functions leave alone\<close>

text \<open>The memory of the cache, without the log of engine calls and the fill level.\<close>

definition core :: "cache \<Rightarrow> mem" where
  "core c = (mem.truncate c)\<lparr>calls := [], filled := 0\<rparr>"

definition frame :: "cache \<Rightarrow> nat list option \<times> reader list \<times> int \<times> bool \<times> int \<times> bool list \<times> int" where
  "frame c = (readers c, robjs c, activeReaders c, isRemove c, lastCleanNS c, pieceInRange c, filled c)"

lemma core_simps [cache_simps]:
  "core (upd_reader i f c) = core c" "core (c\<lparr>localPriority := l\<rparr>) = core c"
  "core (c\<lparr>calls := cs\<rparr>) = core c" "core (c\<lparr>filled := x\<rparr>) = core c"
  "core (c\<lparr>pieceInRange := b\<rparr>) = core c" "core (c\<lparr>isRemove := r\<rparr>) = core c"
  "core (c\<lparr>lastCleanNS := x\<rparr>) = core c" "core (c\<lparr>activeReaders := x\<rparr>) = core c"
  "core (c\<lparr>readers := rs\<rparr>) = core c" "core (c\<lparr>robjs := ro\<rparr>) = core c"
  by (simp_all add: core_def mem.defs upd_reader_def)

lemma core_eqD:
  assumes "core c' = core c"
  shows "capacity c' = capacity c" "pieceLength c' = pieceLength c" "pieceCount c' = pieceCount c"
    "objs c' = objs c" "pieces c' = pieces c" "isClosed c' = isClosed c" "isIndexPiece c' = isIndexPiece c"
    "free c' = free c" "freeCap c' = freeCap c" "heap c' = heap c" "torrent c' = torrent c"
    "saves c' = saves c" "cleanTrigger c' = cleanTrigger c"
  using assms by (simp_all add: core_def mem.defs)

lemma core_mem_inv: "core c' = core c \<Longrightarrow> mem_inv c' = mem_inv c"
  using core_eqD [of c' c]
  by (simp add: mem_inv_def bufs_inv_def buf_ok_def owned_def piece_ok_def)

lemma core_contents: "core c' = core c \<Longrightarrow> contents c' i = contents c i"
  using core_eqD [of c' c] by (simp add: contents_def)

text \<open>An invariant of the body of the loop holds at its end.\<close>

lemma prio_loop_inv:
  assumes "prio_loop p ra hw e cnt i limit batch c = Some (batch', c')" and "I batch c" and "lo \<le> i"
    and step: "\<And>k pr b d. I b d \<Longrightarrow> k < pieceCount d \<Longrightarrow> \<not> Complete (objs d ! k) \<Longrightarrow>
      pr \<noteq> PiecePriorityNone \<Longrightarrow> lo \<le> int k \<Longrightarrow> int k < e \<Longrightarrow>
      I (AList.update k pr b) (d\<lparr>localPriority := AList.update k pr (localPriority d)\<rparr>)"
  shows "I batch' c'"
  using assms(1-3)
proof (induction "nat (e - i)" arbitrary: i limit batch c rule: less_induct)
  case less
  note eq = prio_loop.simps [of p ra hw e cnt i limit batch c]
  show ?case
  proof (cases "i < e \<and> i < int (pieceCount c) \<and> limit < cnt")
    case False
    with less.prems show ?thesis by (simp add: eq)
  next
    case True
    then have dec: "nat (e - (i + 1)) < nat (e - i)" and lo: "lo \<le> i + 1" using less.prems(3) by auto
    let ?pr = "piece_prio p ra hw (local_prio c (nat i)) i"
    have i: "0 \<le> i" using less.prems(1) True by (auto simp: eq split: if_splits)
    then consider "Complete (objs c ! nat i)" "prio_loop p ra hw e cnt (i + 1) limit batch c = Some (batch', c')"
      | "\<not> Complete (objs c ! nat i)" "?pr = PiecePriorityNone"
        "prio_loop p ra hw e cnt (i + 1) (limit + 1) batch c = Some (batch', c')"
      | "\<not> Complete (objs c ! nat i)" "?pr \<noteq> PiecePriorityNone"
        "prio_loop p ra hw e cnt (i + 1) (limit + 1) (AList.update (nat i) ?pr batch)
           (c\<lparr>localPriority := AList.update (nat i) ?pr (localPriority c)\<rparr>) = Some (batch', c')"
      using less.prems(1) True by (auto simp: eq Let_def split: if_splits)
    then show ?thesis
    proof cases
      case 3
      have "I (AList.update (nat i) ?pr batch) (c\<lparr>localPriority := AList.update (nat i) ?pr (localPriority c)\<rparr>)"
        using less.prems(2,3) 3(1,2) True i by (intro step) (simp_all add: nat_less_iff)
      then show ?thesis by (rule less.hyps [OF dec 3(3) _ lo])
    qed (use less.hyps [OF dec _ less.prems(2) lo] in blast)+
  qed
qed

lemma prio_loop_frame:
  assumes "prio_loop p ra hw e cnt p limit batch c = Some (batch', c')"
  shows "core c' = core c \<and> frame c' = frame c"
  by (rule prio_loop_inv [OF assms, where lo = p]) (simp_all add: cache_simps frame_def)

lemma load_reader_frame: "load_reader sets hw i c = Some c' \<Longrightarrow> core c' = core c \<and> frame c' = frame c"
  by (auto simp: load_reader_def Let_def cache_simps frame_def split: if_splits option.splits prod.splits
      dest!: prio_loop_frame)

lemma load_readers_frame: "load_readers sets hw is c = Some c' \<Longrightarrow> core c' = core c \<and> frame c' = frame c"
  by (induction "is" arbitrary: c) (auto split: option.splits dest!: load_reader_frame)

lemma setLoadPriority_frame: "setLoadPriority sets c = Some c' \<Longrightarrow> core c' = core c \<and> frame c' = frame c"
  by (auto simp: setLoadPriority_def Let_def split: if_splits dest!: load_readers_frame)

lemma refreshPriorities_frame: "refreshPriorities sets c = Some c' \<Longrightarrow> core c' = core c \<and> frame c' = frame c"
  by (auto simp: refreshPriorities_def split: if_splits dest!: setLoadPriority_frame)

lemma checkReader_core: "core (checkReader now i c) = core c"
  by (simp add: checkReader_def readerOff_def readerOn_def Let_def cache_simps)

text \<open>What \<^verbatim>\<open>checkReader\<close> does not touch besides the memory.\<close>

definition frame_chk :: "cache \<Rightarrow> nat list option \<times> nat \<times> bool \<times> int \<times> bool list \<times> (nat \<times> prio) list" where
  "frame_chk c = (readers c, length (robjs c), isRemove c, lastCleanNS c, pieceInRange c, localPriority c)"

lemma checkReader_frame: "frame_chk (checkReader now i c) = frame_chk c"
  by (simp add: frame_chk_def checkReader_def readerOff_def readerOn_def Let_def cache_simps)

lemma check_readers_frame:
  "check_readers sets now is c rgs = (rgs', c') \<Longrightarrow> core c' = core c \<and> frame_chk c' = frame_chk c"
  by (induction "is" arbitrary: c rgs) (auto simp: Let_def checkReader_core checkReader_frame)

lemma check_readers_inv:
  "check_readers sets now is c rgs = (rgs', c') \<Longrightarrow> reader_inv c \<Longrightarrow> set is \<subseteq> {..<length (robjs c)} \<Longrightarrow> reader_inv c'"
proof (induction "is" arbitrary: c rgs)
  case (Cons i "is")
  then have "reader_inv (checkReader now i c)" "length (robjs (checkReader now i c)) = length (robjs c)"
    using checkReader_keeps(4) by (simp_all add: checkReader_inv)
  with Cons show ?case by (auto simp: Let_def)
qed simp

text \<open>The windows depend on the readers and the sizes of the cache only.\<close>

lemma core_window:
  assumes "core d = core c" and "activeReaders d = activeReaders c"
  shows "getPiecesRange sets d r = getPiecesRange sets c r"
  using core_eqD [OF assms(1)] assms(2)
  by (simp add: getPiecesRange_def getOffsetRange_def getPieceNum_def)

lemma core_reader_piece: "core d = core c \<Longrightarrow> getReaderPiece d r = getReaderPiece c r"
  using core_eqD [of d c] by (simp add: getReaderPiece_def getPieceNum_def)

lemma checkReader_cong:
  assumes "robjs d = robjs c" and "activeReaders d = activeReaders c" and "readers d = readers c"
  shows "robjs (checkReader now i d) = robjs (checkReader now i c) \<and>
    activeReaders (checkReader now i d) = activeReaders (checkReader now i c) \<and>
    readers (checkReader now i d) = readers (checkReader now i c)"
  using assms
  by (simp add: checkReader_def Readers_def readerOff_def readerOn_def Let_def cache_simps)

lemma check_readers_cong:
  assumes "core d = core c" and "robjs d = robjs c" and "activeReaders d = activeReaders c"
    and "readers d = readers c"
  shows "fst (check_readers sets now is d rgs) = fst (check_readers sets now is c rgs) \<and>
    robjs (snd (check_readers sets now is d rgs)) = robjs (snd (check_readers sets now is c rgs)) \<and>
    activeReaders (snd (check_readers sets now is d rgs)) = activeReaders (snd (check_readers sets now is c rgs))"
  using assms
proof (induction "is" arbitrary: c d rgs)
  case (Cons i "is")
  let ?d = "checkReader now i d" and ?c = "checkReader now i c"
  have eq: "robjs ?d = robjs ?c" "activeReaders ?d = activeReaders ?c" "readers ?d = readers ?c"
    using checkReader_cong [OF Cons.prems(2-4)] by simp_all
  moreover have co: "core ?d = core ?c" using Cons.prems(1) by (simp add: checkReader_core)
  moreover have "getPiecesRange sets ?d r = getPiecesRange sets ?c r" for r
    using co eq by (intro core_window)
  ultimately show ?case using Cons.IH [of ?d ?c] by (simp add: Let_def)
qed simp

lemma clear_one_frame:
  "core (clear_one rgs i c) = core c" "frame (clear_one rgs i c) = frame c"
  "set (localPriority (clear_one rgs i c)) \<subseteq> set (localPriority c)"
  by (auto simp: clear_one_def cache_simps frame_def AList.delete_eq)

lemma clear_fold_frame:
  "core (fold (clear_one rgs) is c) = core c \<and> frame (fold (clear_one rgs) is c) = frame c \<and>
   set (localPriority (fold (clear_one rgs) is c)) \<subseteq> set (localPriority c)"
proof (induction "is" arbitrary: c)
  case (Cons i "is")
  from Cons.IH [of "clear_one rgs i c"] clear_one_frame [of rgs i c] show ?case by auto
qed simp

subsection \<open>The invariant of a cache\<close>

definition prio_inv :: "cache \<Rightarrow> bool" where
  "prio_inv c \<longleftrightarrow> (\<forall>kp \<in> set (localPriority c). fst kp < pieceCount c)"

definition shape_inv :: "cache \<Rightarrow> bool" where
  "shape_inv c \<longleftrightarrow> (isClosed c \<longleftrightarrow> pieces c = None) \<and> (isClosed c \<longleftrightarrow> readers c = None) \<and>
     (\<forall>ps. pieces c = Some ps \<longrightarrow> distinct ps \<and> set ps = {..<pieceCount c}) \<and>
     length (pieceInRange c) = pieceCount c \<and> map Id (objs c) = [0..<pieceCount c] \<and>
     int (pieceCount c) * pieceLength c \<le> lim"

definition cache_inv :: "cache \<Rightarrow> bool" where
  "cache_inv c \<longleftrightarrow> mem_inv c \<and> reader_inv c \<and> shape_inv c \<and> prio_inv c"

lemma cache_inv_frame:
  assumes "core d = core c" and "frame d = frame c" and "prio_inv d" and "cache_inv c"
  shows "cache_inv d"
  using assms core_mem_inv [OF assms(1)] core_eqD [OF assms(1)]
  by (auto simp: cache_inv_def frame_def shape_inv_def reader_inv_def)

text \<open>Fields that the invariant does not look at.\<close>

lemma cache_inv_scratch:
  "cache_inv (c\<lparr>filled := x\<rparr>) = cache_inv c" "cache_inv (c\<lparr>isRemove := r\<rparr>) = cache_inv c"
  "cache_inv (c\<lparr>lastCleanNS := x\<rparr>) = cache_inv c" "cache_inv (c\<lparr>calls := cs\<rparr>) = cache_inv c"
  by (simp_all add: cache_inv_def mem_inv_def bufs_inv_def buf_ok_def owned_def piece_ok_def
      reader_inv_def shape_inv_def prio_inv_def)

lemma prio_inv_subset:
  "core d = core c \<Longrightarrow> set (localPriority d) \<subseteq> set (localPriority c) \<Longrightarrow> prio_inv c \<Longrightarrow> prio_inv d"
  using core_eqD(3) [of d c] by (auto simp: prio_inv_def)

lemma fst_AList_update: "fst ` set (AList.update k v al) = insert k (fst ` set al)"
  using dom_update [of k v al] by simp

lemma prio_inv_image: "prio_inv c \<longleftrightarrow> (\<forall>k \<in> fst ` set (localPriority c). k < pieceCount c)"
  by (auto simp: prio_inv_def)

lemma prio_loop_prio_inv:
  assumes "prio_loop p ra hw e cnt p limit batch c = Some (batch', c')" and "prio_inv c"
  shows "prio_inv c'"
  by (rule prio_loop_inv [OF assms(1), where I = "\<lambda>b d. prio_inv d" and lo = p])
    (use assms(2) in \<open>simp_all add: prio_inv_image fst_AList_update\<close>)

lemma prio_inv_calls: "prio_inv (c\<lparr>calls := cs\<rparr>) = prio_inv c"
  by (simp add: prio_inv_def)

lemma load_readers_prio_inv: "load_readers sets hw is c = Some c' \<Longrightarrow> prio_inv c \<Longrightarrow> prio_inv c'"
proof (induction "is" arbitrary: c)
  case (Cons i "is")
  then obtain d where d: "load_reader sets hw i c = Some d" "load_readers sets hw is d = Some c'"
    by (auto split: option.splits)
  have "prio_inv d"
    using d(1) Cons.prems(2)
    by (auto simp: load_reader_def Let_def prio_inv_calls split: if_splits option.splits prod.splits
        dest: prio_loop_prio_inv)
  with Cons.IH d(2) show ?case by blast
qed simp

lemma setLoadPriority_inv: "setLoadPriority sets c = Some c' \<Longrightarrow> cache_inv c \<Longrightarrow> cache_inv c'"
  using setLoadPriority_frame [of sets c c'] load_readers_prio_inv cache_inv_frame [of c' c]
  by (auto simp: setLoadPriority_def cache_inv_def Let_def split: if_splits)

lemma refreshPriorities_inv: "refreshPriorities sets c = Some c' \<Longrightarrow> cache_inv c \<Longrightarrow> cache_inv c'"
  by (auto simp: refreshPriorities_def setLoadPriority_inv split: if_splits)

lemma cache_inv_chk:
  assumes "core d = core c" and "frame_chk d = frame_chk c" and "reader_inv d" and "cache_inv c"
  shows "cache_inv d"
  using assms core_mem_inv [OF assms(1)] core_eqD [OF assms(1)]
  by (auto simp: cache_inv_def frame_chk_def shape_inv_def prio_inv_def)

lemma cache_inv_readers: "cache_inv c \<Longrightarrow> readers c = Some rs \<Longrightarrow> set rs \<subseteq> {..<length (robjs c)} \<and> distinct rs"
  by (simp add: cache_inv_def reader_inv_def)

lemma check_readers_cache_inv:
  assumes "check_readers sets now rs c rgs = (rgs', d)" and "cache_inv c" and "readers c = Some rs"
  shows "cache_inv d"
  using check_readers_frame [OF assms(1)] check_readers_inv [OF assms(1)] cache_inv_chk [of d c]
    assms(2) cache_inv_readers [OF assms(2,3)] by (simp add: cache_inv_def)

lemma clearPriority_inv: "cache_inv c \<Longrightarrow> cache_inv (clearPriority sets now c)"
proof -
  assume inv: "cache_inv c"
  show ?thesis
  proof (cases "isClosed c \<or> \<not> torrent c \<or> pieces c = None \<or> readers c = None")
    case False
    then obtain rs where rs: "readers c = Some rs" by blast
    obtain rgs d where d: "check_readers sets now rs c [] = (rgs, d)" by fastforce
    let ?e = "fold (clear_one (mergeRange rgs)) (map fst (localPriority d)) d"
    have "cache_inv d" by (rule check_readers_cache_inv [OF d inv rs])
    moreover from this have "prio_inv ?e"
      using clear_fold_frame prio_inv_subset [of ?e d] by (simp add: cache_inv_def)
    ultimately have "cache_inv ?e" using clear_fold_frame cache_inv_frame [of ?e d] by simp
    with False rs d show ?thesis by (auto simp: clearPriority_def)
  qed (use inv in \<open>auto simp: clearPriority_def split: option.split\<close>)
qed

lemma clearPriority_frame:
  "core (clearPriority sets now c) = core c \<and> readers (clearPriority sets now c) = readers c \<and>
   isRemove (clearPriority sets now c) = isRemove c"
proof (cases "readers c")
  case (Some rs)
  obtain rgs d where d: "check_readers sets now rs c [] = (rgs, d)" by fastforce
  with check_readers_frame [OF d]
    clear_fold_frame [of "mergeRange rgs" "map fst (localPriority d)" d] Some show ?thesis
    by (auto simp: clearPriority_def frame_def frame_chk_def)
qed (simp add: clearPriority_def)

subsection \<open>The cleaner does not panic\<close>

lemma prio_loop_total:
  assumes "0 \<le> i" and "pieceCount c = length (objs c)"
  shows "\<exists>b d. prio_loop p ra hw e cnt i limit batch c = Some (b, d)"
  using assms
proof (induction "nat (e - i)" arbitrary: i limit batch c rule: less_induct)
  case less
  have "\<exists>b d. prio_loop p ra hw e cnt (i + 1) l batch' c' = Some (b, d)"
    if "i < e" "pieceCount c' = length (objs c')" for l batch' c'
    using that less.prems(1) by (intro less.hyps) auto
  with less.prems show ?case by (subst prio_loop.simps) (auto simp: Let_def)
qed

lemma reader_piece_nonneg:
  assumes "reader_ok r" and "0 < pieceLength c"
  shows "0 \<le> getReaderPiece c r"
proof -
  have "0 \<le> r_offset r + Offset (r_file r)" "wrap64 (r_offset r + Offset (r_file r)) = r_offset r + Offset (r_file r)"
    using assms(1) by (auto simp: reader_ok_def file_ok_def lim_def in64_def intro!: wrap64_id)
  with assms(2) show ?thesis
    by (simp add: getReaderPiece_def getPieceNum_def tdiv_nonneg pos_imp_zdiv_nonneg_iff)
qed

lemma load_readers_total:
  assumes "cache_inv c" and "set is \<subseteq> {..<length (robjs c)}"
  shows "\<exists>d. load_readers sets hw is c = Some d"
  using assms
proof (induction "is" arbitrary: c)
  case (Cons i "is")
  have "reader_ok (robjs c ! i)" "0 < pieceLength c" and len: "pieceCount c = length (objs c)"
    using Cons.prems by (auto simp: cache_inv_def mem_inv_def reader_inv_def)
  then have "0 \<le> getReaderPiece c (robjs c ! i)" by (intro reader_piece_nonneg)
  from prio_loop_total [OF this len] obtain b e where
    "prio_loop (getReaderPiece c (robjs c ! i)) (getReaderRAHPiece c (robjs c ! i)) hw
       (End (getPiecesRange sets c (robjs c ! i))) (prefetch_count sets c)
       (getReaderPiece c (robjs c ! i)) 0 [] c = Some (b, e)" by blast
  then obtain d where d: "load_reader sets hw i c = Some d"
    by (cases "isUse (robjs c ! i)") (auto simp: load_reader_def Let_def)
  then have "load_readers sets hw [i] c = Some d" by simp
  from load_readers_prio_inv [OF this] load_reader_frame [OF d] Cons.prems cache_inv_frame [of d c]
  have "cache_inv d" "length (robjs d) = length (robjs c)" by (auto simp: cache_inv_def frame_def)
  with Cons.IH [of d] Cons.prems d show ?case by auto
qed simp

lemma setLoadPriority_total: "cache_inv c \<Longrightarrow> \<exists>d. setLoadPriority sets c = Some d"
  using load_readers_total [of c] cache_inv_readers [of c]
  by (cases "readers c") (auto simp: setLoadPriority_def Let_def cache_inv_def mem_inv_def)

lemma refreshPriorities_total: "cache_inv c \<Longrightarrow> \<exists>d. refreshPriorities sets c = Some d"
  by (simp add: refreshPriorities_def setLoadPriority_total)

subsection \<open>Which pieces may go\<close>

interpretation lru: slice_sort "older c" "sort_by (older c)" for c
  by (rule slice_sort_by) (auto simp: older_def)

text \<open>The windows of the readers at the time \<open>now\<close>, and the pieces that may be evicted then.\<close>

definition windows :: "btsets \<Rightarrow> int \<Rightarrow> cache \<Rightarrow> range list" where
  "windows sets now c = mergeRange (fst (check_readers sets now
     (case readers c of None \<Rightarrow> [] | Some rs \<Rightarrow> rs) c []))"

definition evictable :: "btsets \<Rightarrow> int \<Rightarrow> cache \<Rightarrow> nat \<Rightarrow> bool" where
  "evictable sets now c i \<longleftrightarrow> i < pieceCount c \<and> Size (objs c ! i) > 0 \<and> Complete (objs c ! i) \<and>
     \<not> covered (windows sets now c) (int i) \<and> \<not> isIdInFileBE c (windows sets now c) i"

definition total_size :: "cache \<Rightarrow> int" where
  "total_size c = (\<Sum>i < pieceCount c. Size (objs c ! i))"

lemma rem_scan_rem:
  "snd (rem_scan rgs c is fill rem) = rem @ filter (\<lambda>i. pieceEvictable (Size (objs c ! i)) (Complete (objs c ! i))
     (i < length (pieceInRange c) \<and> pieceInRange c ! i) \<and> \<not> isIdInFileBE c rgs i) is"
  by (induction "is" arbitrary: fill rem) (auto simp: Let_def)

lemma rem_scan_fill:
  assumes "\<forall>i \<in> set is. 0 \<le> Size (objs c ! i)" and "0 \<le> fill"
    and "fill + sum_list (map (\<lambda>i. Size (objs c ! i)) is) \<le> lim"
  shows "fst (rem_scan rgs c is fill rem) = fill + sum_list (map (\<lambda>i. Size (objs c ! i)) is)"
  using assms
proof (induction "is" arbitrary: fill rem)
  case (Cons i "is")
  let ?s = "Size (objs c ! i)"
  have "0 \<le> sum_list (map (\<lambda>i. Size (objs c ! i)) is)" using Cons.prems(1) by (intro sum_list_nonneg) auto
  then have "wrap64 (fill + ?s) = fill + ?s"
    using Cons.prems by (intro wrap64_id) (auto simp: in64_def lim_def)
  then have f: "(if ?s > 0 then wrap64 (fill + ?s) else fill) = fill + ?s" using Cons.prems(1) by auto
  have "fst (rem_scan rgs c is (fill + ?s) rem) = fill + ?s + sum_list (map (\<lambda>i. Size (objs c ! i)) is)" for rem
    using Cons.prems by (intro Cons.IH) auto
  with f show ?case by (simp add: Let_def)
qed simp

lemma total_size_bounds:
  assumes "cache_inv c"
  shows "0 \<le> total_size c" and "total_size c \<le> lim"
    and "\<forall>i < pieceCount c. 0 \<le> Size (objs c ! i) \<and> Size (objs c ! i) \<le> pieceLength c"
proof -
  show s: "\<forall>i < pieceCount c. 0 \<le> Size (objs c ! i) \<and> Size (objs c ! i) \<le> pieceLength c"
    using assms by (auto simp: cache_inv_def mem_inv_def piece_ok_def)
  then show "0 \<le> total_size c" by (auto simp: total_size_def intro!: sum_nonneg)
  have "total_size c \<le> of_nat (card {..<pieceCount c}) * pieceLength c"
    unfolding total_size_def using s by (intro sum_bounded_above) auto
  also have "\<dots> \<le> lim" using assms by (simp add: cache_inv_def shape_inv_def)
  finally show "total_size c \<le> lim" .
qed

lemma isIdInFileBE_core: "core d = core c \<Longrightarrow> isIdInFileBE d rgs i = isIdInFileBE c rgs i"
  using core_eqD [of d c] by (simp add: isIdInFileBE_def)

text \<open>The scan after the windows have been computed, on a state with the same memory.\<close>

lemma rem_scan_spec:
  assumes "cache_inv c" and "core d = core c" and "pieces c = Some ps" and "length (pieceInRange d) = pieceCount c"
    and "\<forall>k < pieceCount c. pieceInRange d ! k \<longleftrightarrow> covered (windows sets now c) (int k)"
    and "rem_scan (windows sets now c) d ps 0 [] = (fill, rem)"
  shows "fill = total_size c \<and> distinct rem \<and> set rem = {i. evictable sets now c i}"
proof -
  have ps: "distinct ps" "set ps = {..<pieceCount c}" using assms(1,3) by (auto simp: cache_inv_def shape_inv_def)
  note o = core_eqD [OF assms(2)]
  have sum: "sum_list (map (\<lambda>i. Size (objs d ! i)) ps) = total_size c"
    using ps o(4) by (simp add: total_size_def sum_list_distinct_conv_sum_set)
  have "fill = total_size c"
    using rem_scan_fill [of ps d 0 "windows sets now c" "[]"] assms(6) total_size_bounds [OF assms(1)] ps o(4) sum
    by simp
  moreover have "rem = filter (\<lambda>i. pieceEvictable (Size (objs c ! i)) (Complete (objs c ! i))
     (i < length (pieceInRange d) \<and> pieceInRange d ! i) \<and> \<not> isIdInFileBE c (windows sets now c) i) ps"
    using rem_scan_rem [of "windows sets now c" d ps 0 "[]"] assms(6) o(4) isIdInFileBE_core [OF assms(2)] by simp
  ultimately show ?thesis
    using ps assms(4,5) by (auto simp: evictable_def pieceEvictable_def)
qed

lemma fillPieceInRange_windows:
  assumes "int (length dst) = n"
  obtains bm where "fillPieceInRange dst rgs n = Some bm" "length bm = length dst"
    "\<forall>k < length dst. bm ! k \<longleftrightarrow> covered rgs (int k)"
  using mark_ranges_spec [of "replicate (length dst) False" n rgs] assms
  by (auto simp: fillPieceInRange_def)

lemma getRemPieces_spec:
  assumes "cache_inv c" and "\<not> isClosed c"
  obtains rem d where "getRemPieces sets now c = Some (rem, d)" "core d = core c" "cache_inv d"
    "readers d = readers c" "isRemove d = isRemove c" "filled d = total_size c" "distinct rem"
    "set rem = {i. evictable sets now c i}"
    "sorted_wrt (\<lambda>i j. Accessed (objs c ! i) \<le> Accessed (objs c ! j)) rem"
proof -
  obtain ps rs where p: "pieces c = Some ps" "readers c = Some rs"
    using assms by (auto simp: cache_inv_def shape_inv_def)
  obtain rgs c1 where c1: "check_readers sets now rs c [] = (rgs, c1)" by fastforce
  have w: "mergeRange rgs = windows sets now c" by (simp add: windows_def p(2) c1)
  have f1: "core c1 = core c" "frame_chk c1 = frame_chk c" using check_readers_frame [OF c1] by auto
  have inv1: "cache_inv c1" by (rule check_readers_cache_inv [OF c1 assms(1) p(2)])
  then have len: "int (length (pieceInRange c1)) = int (pieceCount c1)" by (simp add: cache_inv_def shape_inv_def)
  obtain bm where bm: "fillPieceInRange (pieceInRange c1) (windows sets now c) (int (pieceCount c1)) = Some bm"
    "length bm = pieceCount c" "\<forall>k < pieceCount c. bm ! k \<longleftrightarrow> covered (windows sets now c) (int k)"
    by (rule fillPieceInRange_windows [OF len, of "windows sets now c"])
      (use len core_eqD(3) [OF f1(1)] in simp)
  define c2 where "c2 = c1\<lparr>pieceInRange := bm\<rparr>"
  have f2: "core c2 = core c" "pieceInRange c2 = bm" "readers c2 = readers c" "isRemove c2 = isRemove c"
    using f1 by (auto simp: c2_def cache_simps frame_chk_def)
  have inv2: "cache_inv c2"
    using inv1 bm(2) core_mem_inv [of c2 c1] f1(1) f2(1) core_eqD(3) [OF f1(1)]
    by (auto simp: cache_inv_def c2_def shape_inv_def reader_inv_def prio_inv_def)
  obtain fill rem where r: "rem_scan (windows sets now c) c2 ps 0 [] = (fill, rem)" by fastforce
  have rem: "fill = total_size c" "distinct rem" "set rem = {i. evictable sets now c i}"
    using rem_scan_spec [OF assms(1) f2(1) p(1) _ _ r] bm(2,3) f2(2) by simp_all
  define c3 where "c3 = clearPriority sets now c2"
  have f3: "core c3 = core c" "readers c3 = readers c" "isRemove c3 = isRemove c" "cache_inv c3"
    using clearPriority_frame [of sets now c2] clearPriority_inv [OF inv2] f2 by (simp_all add: c3_def)
  obtain c4 where c4: "setLoadPriority sets c3 = Some c4" using setLoadPriority_total [OF f3(4)] by blast
  have f4: "core c4 = core c" "frame c4 = frame c3" "cache_inv c4"
    using setLoadPriority_frame [OF c4] setLoadPriority_inv [OF c4 f3(4)] f3(1) by simp_all
  let ?d = "c4\<lparr>filled := fill\<rparr>"
  have "getRemPieces sets now c = Some (sort_by (older c4) rem, ?d)"
    using assms(2) by (simp add: getRemPieces_def p c1 w bm(1) r c4 flip: c2_def c3_def)
  moreover have "core ?d = core c" using f4(1) by (simp add: cache_simps)
  moreover have "cache_inv ?d" using f4(3) by (simp add: cache_inv_scratch)
  moreover have "sorted_wrt (\<lambda>i j. Accessed (objs c ! i) \<le> Accessed (objs c ! j)) (sort_by (older c4) rem)"
    using lru.sorted_srt [of c4 rem] core_eqD(4) [OF f4(1)] by (simp add: older_def not_less)
  ultimately show ?thesis
    using f3 f4(2) rem 
    by (intro that [of "sort_by (older c4) rem" ?d]) (simp_all add: frame_def lru.distinct_srt lru.set_srt)
qed

subsection \<open>Removing pieces\<close>

definition gone :: "piece \<Rightarrow> piece" where
  "gone p = p\<lparr>buffer := None, Size := 0, Complete := False\<rparr>"

lemma gone_gone: "gone (gone p) = gone p"
  by (simp add: gone_def)

lemma removePiece_eq:
  assumes "map Id (objs c) = [0..<length (objs c)]" and "i < length (objs c)" and "\<not> isClosed c"
    and "\<not> is_index c i"
  shows "objs (removePiece i c) = (objs c)[i := gone (objs c ! i)]"
    and "heap (removePiece i c) = heap c"
proof -
  have "Id (objs c ! i) = i" using assms(1,2) by (metis nth_map nth_upt add_0)
  with assms(3,4) have "objs (removePiece i c) = objs (mem_Release i c)" "heap (removePiece i c) = heap (mem_Release i c)"
    by (auto simp: removePiece_def Release_def Let_def)
  then show "objs (removePiece i c) = (objs c)[i := gone (objs c ! i)]"
    and "heap (removePiece i c) = heap c"
    by (simp_all add: mem_Release_frame) (simp add: drop_piece_def upd_obj_simps gone_def)
qed

lemma putBuffer_static:
  "capacity (putBuffer a s) = capacity s" "pieceCount (putBuffer a s) = pieceCount s"
  "pieceLength (putBuffer a s) = pieceLength s" "pieces (putBuffer a s) = pieces s"
  "isClosed (putBuffer a s) = isClosed s" "isIndexPiece (putBuffer a s) = isIndexPiece s"
  "torrent (putBuffer a s) = torrent s" "filled (putBuffer a s) = filled s"
  "mem.more (putBuffer a s) = mem.more s"
  by (simp_all add: putBuffer_def)

lemma Release_static:
  "capacity (Release i s) = capacity s" "pieceCount (Release i s) = pieceCount s"
  "pieceLength (Release i s) = pieceLength s" "pieces (Release i s) = pieces s"
  "isClosed (Release i s) = isClosed s" "isIndexPiece (Release i s) = isIndexPiece s"
  "torrent (Release i s) = torrent s" "filled (Release i s) = filled s"
  "mem.more (Release i s) = mem.more s"
  by (simp_all add: Release_def mem_Release_def Let_def upd_obj_simps putBuffer_static split: option.split)

lemma removePiece_static:
  "capacity (removePiece i s) = capacity s" "pieceCount (removePiece i s) = pieceCount s"
  "pieceLength (removePiece i s) = pieceLength s" "pieces (removePiece i s) = pieces s"
  "isClosed (removePiece i s) = isClosed s" "isIndexPiece (removePiece i s) = isIndexPiece s"
  "torrent (removePiece i s) = torrent s" "mem.more (removePiece i s) = mem.more s"
  by (simp_all add: removePiece_def Release_static)

text \<open>The fields that extend the memory, as functions of \<open>mem.more\<close>.\<close>

lemma more_eqD:
  assumes "mem.more d = mem.more (c::cache)"
  shows "readers d = readers c" "robjs d = robjs c" "activeReaders d = activeReaders c"
    "isRemove d = isRemove c" "lastCleanNS d = lastCleanNS c" "localPriority d = localPriority c"
    "pieceInRange d = pieceInRange c"
  using assms by (cases d; cases c; simp add: cache.defs)+

lemma remove_loop_fold:
  "0 < k \<Longrightarrow> remove_loop ps k c = fold removePiece (take (nat k) ps) c"
proof (induction ps arbitrary: k c)
  case (Cons p ps)
  show ?case
  proof (cases "k = 1")
    case False
    with Cons have "nat k = Suc (nat (k - 1))" by simp
    with Cons False show ?thesis by (simp add: Let_def)
  qed (simp add: Let_def)
qed simp

definition same_static :: "cache \<Rightarrow> cache \<Rightarrow> bool" where
  "same_static d c \<longleftrightarrow> capacity d = capacity c \<and> pieceCount d = pieceCount c \<and> pieceLength d = pieceLength c \<and>
     pieces d = pieces c \<and> isClosed d = isClosed c \<and> isIndexPiece d = isIndexPiece c \<and>
     torrent d = torrent c \<and> mem.more d = mem.more c"

lemma removes_spec:
  assumes "mem_inv c" and "map Id (objs c) = [0..<length (objs c)]" and "\<not> isClosed c"
    and "\<forall>i \<in> set ks. i < length (objs c) \<and> \<not> is_index c i"
  shows "mem_inv (fold removePiece ks c) \<and> same_static (fold removePiece ks c) c \<and>
    heap (fold removePiece ks c) = heap c \<and> length (objs (fold removePiece ks c)) = length (objs c) \<and>
    (\<forall>j < length (objs c). objs (fold removePiece ks c) ! j = (if j \<in> set ks then gone (objs c ! j) else objs c ! j))"
  using assms
proof (induction ks arbitrary: c)
  case (Cons k ks)
  let ?d = "removePiece k c"
  have k: "k < length (objs c)" "\<not> is_index c k" using Cons.prems(4) by simp_all
  note o = removePiece_eq [OF Cons.prems(2) k(1) Cons.prems(3) k(2)]
  note st = removePiece_static [of k c]
  have "mem_inv ?d" using Cons.prems(1,3) k(1) by (simp add: removePiece_def Release_inv)
  moreover have idk: "Id (objs c ! k) = k" using Cons.prems(2) k(1) by (metis nth_map nth_upt add_0)
  then have "map Id (objs ?d) = [0..<length (objs ?d)]"
    using Cons.prems(2) k(1) idk list_update_id [of "[0..<length (objs c)]" k] by (simp add: o map_update gone_def)
  ultimately have IH: "mem_inv (fold removePiece ks ?d) \<and> same_static (fold removePiece ks ?d) ?d \<and>
    heap (fold removePiece ks ?d) = heap ?d \<and> length (objs (fold removePiece ks ?d)) = length (objs ?d) \<and>
    (\<forall>j < length (objs ?d). objs (fold removePiece ks ?d) ! j = (if j \<in> set ks then gone (objs ?d ! j) else objs ?d ! j))"
    using Cons.prems(3,4) st o by (intro Cons.IH) auto
  then show ?case using k(1) by (auto simp: same_static_def st o gone_gone nth_list_update)
qed (simp add: same_static_def)

lemma cache_inv_removes:
  assumes "cache_inv c" and "\<not> isClosed c" and "\<forall>i \<in> set ks. i < pieceCount c \<and> \<not> is_index c i"
  shows "cache_inv (fold removePiece ks c)"
proof -
  have len: "length (objs c) = pieceCount c" using assms(1) by (simp add: cache_inv_def mem_inv_def)
  have ids: "map Id (objs c) = [0..<length (objs c)]" using assms(1) len by (simp add: cache_inv_def shape_inv_def)
  let ?d = "fold removePiece ks c"
  have r: "mem_inv ?d" "same_static ?d c" "length (objs ?d) = length (objs c)"
    "\<forall>j < length (objs c). objs ?d ! j = (if j \<in> set ks then gone (objs c ! j) else objs c ! j)"
    using removes_spec [of c ks] assms ids len by (simp_all add: cache_inv_def)
  have "Id (objs ?d ! j) = Id (objs c ! j)" if "j < length (objs c)" for j
    using r(4) that by (simp add: gone_def)
  then have "map Id (objs ?d) = map Id (objs c)" using r(3) by (intro nth_equalityI) simp_all
  with r(1,2) assms(1) more_eqD [of ?d c] show ?thesis
    by (auto simp: cache_inv_def same_static_def shape_inv_def prio_inv_def reader_inv_def)
qed

subsection \<open>What one run of the cleaner does\<close>

lemma windows_cong:
  assumes "core d = core c" and "robjs d = robjs c" and "activeReaders d = activeReaders c"
    and "readers d = readers c"
  shows "windows sets now d = windows sets now c"
  using check_readers_cong [OF assms] assms(4) by (simp add: windows_def)

lemma evictable_cong:
  assumes "core d = core c" and "robjs d = robjs c" and "activeReaders d = activeReaders c"
    and "readers d = readers c"
  shows "evictable sets now d = evictable sets now c" and "total_size d = total_size c"
  using windows_cong [OF assms] core_eqD [OF assms(1)] isIdInFileBE_core [OF assms(1)]
  by (auto simp: evictable_def total_size_def fun_eq_iff)

text \<open>The cleaner gets past its throttle.\<close>

definition runs :: "int \<Rightarrow> cache \<Rightarrow> bool" where
  "runs now c \<longleftrightarrow> \<not> isRemove c \<and> \<not> isClosed c \<and>
     \<not> (now - lastCleanNS c < 10 ^ 9 \<and> filled c < tdiv (wrap64 (capacity c * 9)) 10)"

text \<open>How many pieces it takes to bring the size down to the capacity, at a full piece each.\<close>

definition surplus :: "cache \<Rightarrow> int" where
  "surplus c = (if capacity c < total_size c then (total_size c - capacity c) div pieceLength c + 1 else 0)"

lemma cleanPieces_idle:
  assumes "cache_inv c" and "\<not> runs now c"
  obtains d where "cleanPieces sets now c = Some d" "core d = core c" "frame d = frame c" "cache_inv d"
proof (cases "isRemove c \<or> isClosed c")
  case True
  with assms(1) show ?thesis by (intro that [of c]) (simp_all add: cleanPieces_def)
next
  case False
  obtain d where d: "refreshPriorities sets c = Some d" using refreshPriorities_total [OF assms(1)] by blast
  note f = refreshPriorities_frame [OF d]
  have "cleanPieces sets now c = Some d"
    using False assms(2) d f core_eqD(1) [of d c]
    by (auto simp: cleanPieces_def runs_def frame_def)
  with f refreshPriorities_inv [OF d assms(1)] show ?thesis by (intro that) simp_all
qed

lemma sorted_take_drop:
  "sorted_wrt R xs \<Longrightarrow> i \<in> set (take k xs) \<Longrightarrow> j \<in> set (drop k xs) \<Longrightarrow> R i j"
  by (metis append_take_drop_id sorted_wrt_append)

lemma cleanPieces_runs:
  assumes "cache_inv c" and "runs now c" and "0 \<le> capacity c"
  obtains d ks where "cleanPieces sets now c = Some ((fold removePiece ks d)\<lparr>isRemove := False\<rparr>)"
    "core d = core c" "cache_inv d" "readers d = readers c" "distinct ks"
    "set ks \<subseteq> {i. evictable sets now c i}"
    "\<forall>i j. i \<in> set ks \<and> evictable sets now c j \<and> j \<notin> set ks \<longrightarrow> Accessed (objs c ! i) \<le> Accessed (objs c ! j)"
    "int (length ks) = min (int (card {i. evictable sets now c i})) (surplus c)"
proof -
  have r: "\<not> isRemove c" "\<not> isClosed c" using assms(2) by (simp_all add: runs_def)
  obtain d where d: "refreshPriorities sets c = Some d" using refreshPriorities_total [OF assms(1)] by blast
  note f = refreshPriorities_frame [OF d]
  define e where "e = d\<lparr>isRemove := True, lastCleanNS := now\<rparr>"
  have e: "core e = core c" "robjs e = robjs c" "activeReaders e = activeReaders c" "readers e = readers c"
    using f by (auto simp: e_def cache_simps frame_def)
  have inv: "cache_inv e" using refreshPriorities_inv [OF d assms(1)] by (simp add: e_def cache_inv_scratch)
  have "\<not> isClosed e" using r(2) core_eqD(6) [OF e(1)] by simp
  then obtain rem g where g: "getRemPieces sets now e = Some (rem, g)" "core g = core e" "cache_inv g"
    "readers g = readers e" "filled g = total_size c" "distinct rem" "set rem = {i. evictable sets now c i}"
    "sorted_wrt (\<lambda>i j. Accessed (objs c ! i) \<le> Accessed (objs c ! j)) rem"
    using core_eqD(4) [OF e(1)] evictable_cong [OF e]
    by (auto elim: getRemPieces_spec [OF inv, of sets now])
  note cg = core_eqD [OF g(2)] core_eqD [OF e(1)]
  have pl: "0 < pieceLength c" using assms(1) by (simp add: cache_inv_def mem_inv_def)
  have "wrap64 (total_size c - capacity c) = total_size c - capacity c" if "capacity c < total_size c"
    using that assms(3) total_size_bounds(2) [OF assms(1)]
    by (intro wrap64_id) (auto simp: in64_def lim_def)
  then have sp: "surplus c = tdiv (wrap64 (total_size c - capacity c)) (pieceLength c) + 1 \<and> 0 < surplus c"
    if "capacity c < total_size c" using that pl by (simp add: surplus_def tdiv_nonneg add_nonneg_pos pos_imp_zdiv_nonneg_iff)
  have thr: "\<not> (now - lastCleanNS d < 10 ^ 9 \<and> filled d < tdiv (wrap64 (capacity d * 9)) 10)"
    using assms(2) f core_eqD(1) [of d c] by (simp add: runs_def frame_def)
  define ks where "ks = take (nat (surplus c)) rem"
  have "cleanPieces sets now c = Some ((if capacity c < total_size c
      then remove_loop rem (surplus c) g else g)\<lparr>isRemove := False\<rparr>)"
    unfolding cleanPieces_def Let_def
    using r d thr g(1,5) cg(1,2) cg(14,15) sp pl by (simp add: e_def [symmetric] del: not_less) blast
  moreover have "(if capacity c < total_size c then remove_loop rem (surplus c) g else g) = fold removePiece ks g"
    using sp by (auto simp: ks_def remove_loop_fold surplus_def)
  moreover have "Accessed (objs c ! i) \<le> Accessed (objs c ! j)"
    if "i \<in> set ks" "evictable sets now c j" "j \<notin> set ks" for i j
    using sorted_take_drop [OF g(8), of i "nat (surplus c)" j] that g(7)
      set_append [of ks "drop (nat (surplus c)) rem"] by (auto simp: ks_def)
  moreover have "int (length ks) = min (int (card {i. evictable sets now c i})) (surplus c)"
    using g(6,7) sp by (auto simp: ks_def surplus_def simp flip: distinct_card [OF g(6)])
  ultimately show ?thesis using g(2-4,6,7) e(1,4) set_take_subset [of "nat (surplus c)" rem]
    by (intro that [of ks g]) (simp_all add: ks_def)
qed

lemma evictable_not_index: "evictable sets now c i \<Longrightarrow> i < pieceCount c \<and> \<not> is_index c i"
  by (auto simp: evictable_def isIdInFileBE_def split: if_splits)

text \<open>Both cases of a run in one statement: the pieces \<open>ks\<close> are taken, nothing else changes.\<close>

lemma cleanPieces_effect:
  assumes "cache_inv c" and "0 \<le> capacity c"
  obtains c' ks where "cleanPieces sets now c = Some c'" "cache_inv c'" "distinct ks"
    "set ks \<subseteq> {i. evictable sets now c i}"
    "\<forall>j < pieceCount c. objs c' ! j = (if j \<in> set ks then gone (objs c ! j) else objs c ! j)"
    "heap c' = heap c" "length (objs c') = length (objs c)" "pieceCount c' = pieceCount c"
    "capacity c' = capacity c"
    "\<forall>i j. i \<in> set ks \<and> evictable sets now c j \<and> j \<notin> set ks \<longrightarrow> Accessed (objs c ! i) \<le> Accessed (objs c ! j)"
    "int (length ks) = (if runs now c then min (int (card {i. evictable sets now c i})) (surplus c) else 0)"
proof (cases "runs now c")
  case False
  obtain d where d: "cleanPieces sets now c = Some d" "core d = core c" "frame d = frame c" "cache_inv d"
    by (rule cleanPieces_idle [OF assms(1) False])
  with False core_eqD [OF d(2)] show ?thesis by (intro that [of d "[]"]) simp_all
next
  case True
  obtain d ks where d: "cleanPieces sets now c = Some ((fold removePiece ks d)\<lparr>isRemove := False\<rparr>)"
    "core d = core c" "cache_inv d" "readers d = readers c" "distinct ks"
    "set ks \<subseteq> {i. evictable sets now c i}"
    "\<forall>i j. i \<in> set ks \<and> evictable sets now c j \<and> j \<notin> set ks \<longrightarrow> Accessed (objs c ! i) \<le> Accessed (objs c ! j)"
    "int (length ks) = min (int (card {i. evictable sets now c i})) (surplus c)"
    by (rule cleanPieces_runs [OF assms(1) True assms(2)])
  note e = core_eqD [OF d(2)]
  have op: "\<not> isClosed d" using True e(6) by (simp add: runs_def)
  have ks: "\<forall>i \<in> set ks. i < pieceCount d \<and> \<not> is_index d i"
    using d(6) evictable_not_index e(3,7) by (auto simp: subset_iff)
  have len: "length (objs d) = pieceCount c" using d(3) e(3) by (simp add: cache_inv_def mem_inv_def)
  then have "map Id (objs d) = [0..<length (objs d)]" using d(3) e(3) by (simp add: cache_inv_def shape_inv_def)
  then have "same_static (fold removePiece ks d) d \<and> heap (fold removePiece ks d) = heap d \<and>
    length (objs (fold removePiece ks d)) = length (objs d) \<and> (\<forall>j < length (objs d).
      objs (fold removePiece ks d) ! j = (if j \<in> set ks then gone (objs d ! j) else objs d ! j))"
    using removes_spec [of d ks] d(3) op ks len e(3) by (simp add: cache_inv_def)
  with cache_inv_removes [OF d(3) op ks] True d(1,5-8) len e show ?thesis
    by (intro that [of "(fold removePiece ks d)\<lparr>isRemove := False\<rparr>" ks])
      (simp_all add: cache_inv_scratch same_static_def)
qed


lemma covered_windows: "covered (windows sets now c) x \<longleftrightarrow>
    covered (fst (check_readers sets now (case readers c of None \<Rightarrow> [] | Some rs \<Rightarrow> rs) c [])) x"
  unfolding windows_def mergeRange_def by (rule rs.mergeRange_by_covered)

lemma check_readers_mono: "set rgs \<subseteq> set (fst (check_readers sets now is c rgs))"
proof (induction "is" arbitrary: c rgs)
  case (Cons i "is")
  have "set rgs \<subseteq> set (fst (check_readers sets now is d rgs))"
    "set rgs \<subseteq> set (fst (check_readers sets now is d (rgs @ [r])))" for d r
    using Cons.IH [of rgs d] Cons.IH [of "rgs @ [r]" d] by auto
  then show ?case by (simp add: Let_def)
qed simp

definition idle :: "int \<Rightarrow> cache \<Rightarrow> nat \<Rightarrow> bool" where
  "idle now c k \<longleftrightarrow> unix now > lastAccess (robjs c ! k) + 60 \<and> Readers c > 1"

lemma checkReader_busy:
  assumes "reader_inv c" and "k < length (robjs c)" and "\<not> idle now c k"
  shows "isUse (robjs (checkReader now k c) ! k)"
  using assms by (auto simp: checkReader_def idle_def readerOn_eq upd_reader_simps use_parked)

lemma checkReader_other: "j \<noteq> k \<Longrightarrow> robjs (checkReader now j c) ! k = robjs c ! k"
  by (simp add: checkReader_def readerOff_def readerOn_def Let_def upd_reader_simps)

lemma check_readers_covers:
  assumes "sets_ok sets" and "0 \<le> capacity c" and "capacity c \<le> lim" and "0 < pieceLength c"
    and "reader_inv c" and "set is \<subseteq> {..<length (robjs c)}" and "distinct is" and "k \<in> set is"
    and "\<not> idle now c k" and "r_offset (robjs c ! k) \<le> Length (r_file (robjs c ! k))"
  shows "covered (fst (check_readers sets now is c rgs)) (getReaderPiece c (robjs c ! k))"
  using assms(2-)
proof (induction "is" arbitrary: c rgs)
  case (Cons i "is")
  let ?d = "checkReader now i c"
  have i: "i < length (robjs c)" using Cons.prems by simp
  note e = core_eqD [OF checkReader_core [of now i c]]
  note kp = checkReader_keeps(1-3) [OF Cons.prems(4) i, where now = now and i = k]
    checkReader_keeps(4) [OF Cons.prems(4) i, of now]
  have inv: "reader_inv ?d" using Cons.prems(4) i by (rule checkReader_inv)
  have piece: "getReaderPiece ?d (robjs ?d ! k) = getReaderPiece c (robjs c ! k)"
    using kp e by (simp add: getReaderPiece_def getPieceNum_def)
  show ?case
  proof (cases "i = k")
    case True
    have "isUse (robjs ?d ! k)" using checkReader_busy [OF Cons.prems(4) i] Cons.prems(8) True by simp
    moreover have "covers (getPiecesRange sets ?d (robjs ?d ! k)) (getReaderPiece ?d (robjs ?d ! k))"
      using Cons.prems inv e kp i True by (intro window_covers assms(1)) (auto simp: reader_inv_nth)
    ultimately show ?thesis
      using check_readers_mono [of "rgs @ [getPiecesRange sets ?d (robjs ?d ! k)]" sets now "is" ?d] piece True
      by (auto simp: Let_def)
  next
    case False
    have "idle now ?d k = idle now c k"
      using checkReader_other [OF False] checkReader_frame [of now i c]
      by (simp add: idle_def Readers_def frame_chk_def)
    then have "covered (fst (check_readers sets now is ?d rgs')) (getReaderPiece ?d (robjs ?d ! k))" for rgs'
      using Cons.prems inv e kp False by (intro Cons.IH) auto
    then show ?thesis using piece by (simp add: Let_def)
  qed
qed simp


text \<open>
  C8. If the pieces that may go are full, a run of the cleaner brings the cache down to its capacity
  unless it has taken all of them.
\<close>

theorem cleanPieces_frees:
  assumes "cache_inv c" and "0 \<le> capacity c" and "runs now c"
    and "\<forall>i. evictable sets now c i \<longrightarrow> Size (objs c ! i) = pieceLength c"
  shows "\<exists>c'. cleanPieces sets now c = Some c' \<and>
    (total_size c' \<le> capacity c' \<or> (\<forall>i. evictable sets now c i \<longrightarrow> contents c' i = None))"
proof -
  obtain c' ks where c: "cleanPieces sets now c = Some c'" "cache_inv c'" "distinct ks"
    "set ks \<subseteq> {i. evictable sets now c i}"
    "\<forall>j < pieceCount c. objs c' ! j = (if j \<in> set ks then gone (objs c ! j) else objs c ! j)"
    "heap c' = heap c" "length (objs c') = length (objs c)" "pieceCount c' = pieceCount c" "capacity c' = capacity c"
    "int (length ks) = (if runs now c then min (int (card {i. evictable sets now c i})) (surplus c) else 0)"
    by (rule cleanPieces_effect [OF assms(1,2)])
  have len: "length (objs c) = pieceCount c" and pl: "0 < pieceLength c"
    using assms(1) by (simp_all add: cache_inv_def mem_inv_def)
  have fin: "finite {i. evictable sets now c i}"
    by (rule finite_subset [of _ "{..<pieceCount c}"]) (auto simp: evictable_def)
  have sub: "set ks \<subseteq> {..<pieceCount c}" using c(4) evictable_not_index by blast
  have "total_size c' = (\<Sum>i < pieceCount c. Size (objs c ! i) - (if i \<in> set ks then pieceLength c else 0))"
    unfolding total_size_def c(8) using c(4,5) assms(4) by (intro sum.cong) (auto simp: gone_def)
  also have "\<dots> = total_size c - (\<Sum>i < pieceCount c. if i \<in> set ks then pieceLength c else 0)"
    by (simp add: total_size_def sum_subtractf)
  also have "(\<Sum>i < pieceCount c. if i \<in> set ks then pieceLength c else 0) = int (length ks) * pieceLength c"
    using sub by (simp add: sum.If_cases Int_absorb1 distinct_card [OF c(3)])
  finally have t: "total_size c' = total_size c - int (length ks) * pieceLength c" .
  show ?thesis
  proof (cases "surplus c \<le> int (card {i. evictable sets now c i})")
    case True
    then have "int (length ks) = surplus c" using c(10) assms(3) by simp
    moreover have "total_size c - capacity c \<le> surplus c * pieceLength c"
      using mult_div_bounds(1) [OF pl, of "total_size c - capacity c"] by (auto simp: surplus_def algebra_simps)
    ultimately show ?thesis using c(1,9) t by auto
  next
    case False
    then have "card (set ks) = card {i. evictable sets now c i}" using c(10) assms(3) by (simp add: distinct_card [OF c(3)])
    then have "set ks = {i. evictable sets now c i}" using card_subset_eq [OF fin c(4)] by simp
    then have "contents c' i = None" if "evictable sets now c i" for i
      using that c(5,7) sub len by (auto simp: contents_def gone_def)
    then show ?thesis using c(1) by blast
  qed
qed

subsection \<open>What the engine is asked to load\<close>

lemma length_AList_update: "length (AList.update k v al) \<le> Suc (length al)"
  by (induction al) auto

lemma prio_loop_length:
  assumes "prio_loop p ra hw e cnt i limit batch c = Some (batch', c')" and "int (length batch) \<le> limit"
    and "limit \<le> cnt"
  shows "int (length batch') \<le> cnt"
  using assms
proof (induction "nat (e - i)" arbitrary: i limit batch c rule: less_induct)
  case less
  note eq = prio_loop.simps [of p ra hw e cnt i limit batch c]
  show ?case
  proof (cases "i < e \<and> i < int (pieceCount c) \<and> limit < cnt")
    case False
    with less.prems show ?thesis by (simp add: eq)
  next
    case True
    then have dec: "nat (e - (i + 1)) < nat (e - i)" by simp
    let ?pr = "piece_prio p ra hw (local_prio c (nat i)) i"
    have u: "int (length (AList.update (nat i) ?pr batch)) \<le> limit + 1"
      using length_AList_update [of "nat i" ?pr batch] less.prems(2) by linarith
    show ?thesis
      using less.prems True u less.hyps [OF dec, of limit batch c] less.hyps [OF dec, of "limit + 1" batch c]
        less.hyps [OF dec, of "limit + 1" "AList.update (nat i) ?pr batch"
          "c\<lparr>localPriority := AList.update (nat i) ?pr (localPriority c)\<rparr>"]
      by (auto simp: eq Let_def split: if_splits)
  qed
qed

lemma prio_loop_keys:
  assumes "prio_loop p ra hw e cnt i limit batch c = Some (batch', c')" and "lo \<le> i"
    and "distinct (map fst batch)" and "\<forall>k \<in> fst ` set batch. \<not> Complete (objs c ! k) \<and> lo \<le> int k \<and> int k < e"
  shows "distinct (map fst batch') \<and>
    (\<forall>k \<in> fst ` set batch'. \<not> Complete (objs c ! k) \<and> lo \<le> int k \<and> int k < e)"
proof -
  let ?I = "\<lambda>b d. objs d = objs c \<and> distinct (map fst b) \<and>
    (\<forall>k \<in> fst ` set b. \<not> Complete (objs c ! k) \<and> lo \<le> int k \<and> int k < e)"
  have "?I batch' c'"
    by (rule prio_loop_inv [OF assms(1), where I = ?I and lo = lo])
      (use assms(2-4) in \<open>auto simp: fst_AList_update distinct_update\<close>)
  then show ?thesis by blast
qed

lemma prio_loop_keeps:
  assumes "prio_loop p ra hw e cnt i limit batch c = Some (batch', c')" and "int k < i" and "map_of batch k = Some x"
  shows "map_of batch' k = Some x"
  by (rule prio_loop_inv [OF assms(1), where I = "\<lambda>b d. map_of b k = Some x" and lo = i])
    (use assms(2,3) in \<open>auto simp: update_conv'\<close>)

lemma prio_loop_now:
  assumes "prio_loop p ra hw e cnt p 0 [] c = Some (batch', c')" and "0 \<le> p" and "p < e"
    and "p < int (pieceCount c)" and "0 < cnt" and "\<not> Complete (objs c ! nat p)"
  shows "map_of batch' (nat p) = Some PiecePriorityNow"
proof -
  have "prio_loop p ra hw e cnt (p + 1) 1 [(nat p, PiecePriorityNow)]
      (c\<lparr>localPriority := AList.update (nat p) PiecePriorityNow (localPriority c)\<rparr>) = Some (batch', c')"
    using assms by (subst (asm) prio_loop.simps) (auto simp: piece_prio_def Let_def split: if_splits)
  then show ?thesis by (rule prio_loop_keeps) (use assms(2) in auto)
qed

lemma prefetch_count_pos: "1 \<le> prefetch_count sets c"
  by (simp add: prefetch_count_def Let_def)


subsection \<open>An example\<close>

text \<open>
  Eleven pieces of 8 MiB, two of them loaded, one reader at the start of the file, and one byte
  less of capacity than the two pieces take.
\<close>

definition zeros :: "byte list" where
  "zeros = replicate (nat (2 ^ 23)) 0"

definition file0 :: tfile where
  "file0 = \<lparr>Offset = 0, Length = 10 * 2 ^ 23\<rparr>"

definition sets0 :: btsets where
  "sets0 = \<lparr>CacheSize = 0, ReaderReadAHead = 95, ConnectionsLimit = 25, ResponsiveMode = True\<rparr>"

definition full_piece :: "nat \<Rightarrow> piece" where
  "full_piece i = \<lparr>Id = i, Size = 2 ^ 23, Complete = True, Accessed = int i, buffer = Some (i - 5)\<rparr>"

definition big :: cache where
  "big = (NewCache (2 ^ 24 - 1))\<lparr>pieceLength := 2 ^ 23, pieceCount := 11,
     objs := map NewPiece [0, 1, 2, 3, 4] @ map full_piece [5, 6] @ map NewPiece [7, 8, 9, 10],
     pieces := Some [0, 1, 2, 3, 4, 5, 6, 7, 8, 9, 10], isIndexPiece := replicate 11 False,
     heap := [zeros, zeros], freeCap := 2, pieceInRange := replicate 11 False, torrent := True,
     readers := Some [0], robjs := [fresh file0], activeReaders := 1\<rparr>"

lemma length_zeros: "length zeros = nat (2 ^ 23)"
  unfolding zeros_def by (rule length_replicate)

lemma big_simps:
  "capacity big = 2 ^ 24 - 1" "pieceLength big = 2 ^ 23" "pieceCount big = 11" "heap big = [zeros, zeros]"
  "objs big = map NewPiece [0, 1, 2, 3, 4] @ map full_piece [5, 6] @ map NewPiece [7, 8, 9, 10]"
  "pieces big = Some [0, 1, 2, 3, 4, 5, 6, 7, 8, 9, 10]" "isIndexPiece big = replicate 11 False"
  "free big = []" "freeCap big = 2" "pieceInRange big = replicate 11 False" "torrent big"
  "readers big = Some [0]" "robjs big = [fresh file0]" "activeReaders big = 1"
  "\<not> isClosed big" "\<not> isRemove big" "lastCleanNS big = 0" "localPriority big = []" "filled big = 0"
  unfolding big_def NewCache_def by simp_all

lemma big_inv: "cache_inv big"
proof -
  have "owned big = [0, 1]"
    by (simp add: owned_def big_simps NewPiece_def full_piece_def List.map_filter_simps)
  moreover have "piece_ok big (NewPiece i)" "i = 5 \<or> i = 6 \<Longrightarrow> piece_ok big (full_piece i)" for i
    by (auto simp: piece_ok_def NewPiece_def full_piece_def big_simps)
  ultimately have "mem_inv big"
    by (simp add: mem_inv_def bufs_inv_def buf_ok_def big_simps length_zeros)
  moreover have "reader_inv big"
    by (simp add: reader_inv_def big_simps reader_ok_def fresh_def file_ok_def file0_def lim_def)
  moreover have "{0, 1, 2, 3, 4, 5, 6, 7, 8, 9, 10} = {..<11::nat}" by (auto, arith)
  then have "shape_inv big"
    by (simp add: shape_inv_def big_simps NewPiece_def full_piece_def lim_def upt_rec)
  ultimately show ?thesis by (simp add: cache_inv_def prio_inv_def big_simps)
qed

lemma big_window:
  obtains e where "windows sets0 now big = [\<lparr>Start = 0, End = e, File = file0\<rparr>]"
    "e \<le> 1"
proof -
  let ?r = "fresh file0"
  obtain b e where g: "getOffsetRange sets0 big ?r = (b, e)" by fastforce
  have "reader_ok ?r" by (simp add: reader_ok_def fresh_def file_ok_def file0_def lim_def)
  from getOffsetRange_bounds [OF _ _ _ _ this _ g]
  have be: "b = 0" "0 \<le> e" "e \<le> 10 * 2 ^ 23" "100 * e \<le> 86 * (2 ^ 24 - 1) + 100"
    by (auto simp: sets0_def sets_ok_def big_simps lim_def fresh_def file0_def share_of_def)
  then have "e div 2 ^ 23 \<le> 1" by simp
  moreover have rf: "r_file ?r = file0" by (simp add: fresh_def)
  moreover have "getPiecesRange sets0 big ?r = \<lparr>Start = 0, End = e div 2 ^ 23, File = file0\<rparr>"
    using be wrap64_id [of e]
    by (simp add: getPiecesRange_def g getPieceNum_def big_simps rf file0_def [THEN arg_cong, of Offset] tdiv_nonneg in64_def wrap64_id)
  moreover have "checkReader now 0 big = big"
    by (simp add: checkReader_def readerOn_def Readers_def big_simps fresh_def)
  ultimately show ?thesis
    by (intro that [of "e div 2 ^ 23"])
      (simp_all add: windows_def big_simps fresh_def mergeRange_def mergeRange_by_def Let_def)
qed

lemma big_evictable: "{i. evictable sets0 now big i} = {5, 6}"
proof -
  obtain e where e: "windows sets0 now big = [\<lparr>Start = 0, End = e, File = file0\<rparr>]"
    "e \<le> 1" by (rule big_window)
  have "evictable sets0 now big i \<longleftrightarrow> i = 5 \<or> i = 6" if "i \<in> {0, 1, 2, 3, 4, 5, 6, 7, 8, 9, 10}" for i
    using that e(2)
    by (auto simp: evictable_def e(1) big_simps NewPiece_def full_piece_def isIdInFileBE_def Let_def
        file0_def tdiv_def wrap64_def)
  moreover have "i \<in> {0, 1, 2, 3, 4, 5, 6, 7, 8, 9, 10}" if "evictable sets0 now big i" for i
    using that by (auto simp: evictable_def big_simps less_Suc_eq numeral_eq_Suc)
  ultimately show ?thesis by blast
qed

lemma big_total: "total_size big = 2 ^ 24" "surplus big = 1" "runs (10 ^ 12) big"
proof -
  have "{..<11::nat} = {0, 1, 2, 3, 4, 5, 6, 7, 8, 9, 10}" by (auto, arith)
  then show "total_size big = 2 ^ 24"
    by (simp add: total_size_def big_simps NewPiece_def full_piece_def)
  then show "surplus big = 1" "runs (10 ^ 12) big"
    by (simp_all add: surplus_def runs_def big_simps)
qed



theorem cleanPieces_frees_witness:
  "\<exists>c'. cleanPieces sets0 (10 ^ 12) big = Some c' \<and>
     (total_size c' \<le> capacity c' \<or> contents c' 5 = None \<and> contents c' 6 = None)"
proof -
  have "evictable sets0 (10 ^ 12) big i \<longrightarrow> Size (objs big ! i) = pieceLength big" for i
    using big_evictable [of "10 ^ 12"] by (auto simp: set_eq_iff big_simps full_piece_def)
  then have "\<forall>i. evictable sets0 (10 ^ 12) big i \<longrightarrow> Size (objs big ! i) = pieceLength big" by blast
  from cleanPieces_frees [OF big_inv _ big_total(3) this] big_evictable [of "10 ^ 12"] show ?thesis
    by (auto simp: big_simps)
qed


end
