(* ===== verification/Torrstor.thy ===== *)
theory Torrstor
  imports Eviction
begin

text \<open>
  The cache as a whole: the remaining operations of \<^verbatim>\<open>cache.go\<close> (\<^verbatim>\<open>SetTorrent\<close>, \<^verbatim>\<open>Piece\<close>,
  \<^verbatim>\<open>GetState\<close>), the stand-in piece of \<^verbatim>\<open>piecefake.go\<close>, the map of caches of \<^verbatim>\<open>storage.go\<close>, and
  the step relation in which the engine, the readers, the cleaner and the API interleave, with the
  invariant that every reachable cache satisfies.
\<close>

subsection \<open>Operations\<close>

text \<open>\<open>t\<close> says whether the new torrent is not nil; \<open>None\<close> is the panic on a nil piece map.\<close>

definition SetTorrent :: "bool \<Rightarrow> cache \<Rightarrow> cache option" where
  "SetTorrent t c =
     (let c = c\<lparr>torrent := t\<rparr>
      in if \<not> t then Some c
         else
           let idx = filter (is_index c) [0..<pieceCount c]
           in if pieces c = None \<and> idx \<noteq> [] then None
              else
                let ready = filter (\<lambda>i. Complete (objs c ! i)) idx;
                    batch = map (\<lambda>i. (i, PiecePriorityHigh)) (filter (\<lambda>i. \<not> Complete (objs c ! i)) idx);
                    c = c\<lparr>calls := calls c @ map UpdateCompletion ready\<rparr>
                in Some (if length batch > 0
                         then c\<lparr>calls := calls c @ [SetPiecePriorities batch]\<rparr> else c))"

text \<open>What the engine gets for a piece: the piece object, or the stand-in that fails every call.\<close>

datatype piece_impl = PieceObj nat | PieceFake

definition Piece :: "nat \<Rightarrow> cache \<Rightarrow> piece_impl" where
  "Piece i c = (case pieces c of
     None \<Rightarrow> PieceFake | Some ps \<Rightarrow> if i \<in> set ps then PieceObj i else PieceFake)"

text \<open>Writing through it: \<open>Inl\<close> is the error \<^verbatim>\<open>fake\<close>.\<close>

fun impl_WriteAt :: "int \<Rightarrow> byte list \<Rightarrow> int \<Rightarrow> piece_impl \<Rightarrow> cache \<Rightarrow> (unit + nat option) \<times> cache" where
  "impl_WriteAt now b off PieceFake c = (Inl (), c)"
| "impl_WriteAt now b off (PieceObj i) c = (case WriteAt now b off i c of (n, c) \<Rightarrow> (Inr n, c))"

fun impl_ReadAt :: "int \<Rightarrow> nat \<Rightarrow> int \<Rightarrow> piece_impl \<Rightarrow> cache \<Rightarrow> (unit + read_result option) \<times> cache" where
  "impl_ReadAt now n off PieceFake c = (Inl (), c)"
| "impl_ReadAt now n off (PieceObj i) c = (case ReadAt now n off i c of (r, c) \<Rightarrow> (Inr r, c))"

fun impl_MarkComplete :: "piece_impl \<Rightarrow> cache \<Rightarrow> (unit + unit) \<times> cache" where
  "impl_MarkComplete PieceFake c = (Inl (), c)"
| "impl_MarkComplete (PieceObj i) c = (Inr (), MarkComplete i c)"

fun impl_Completion :: "piece_impl \<Rightarrow> cache \<Rightarrow> bool" where
  "impl_Completion PieceFake c = False"
| "impl_Completion (PieceObj i) c = Completion i c"

record item_state =
  it_Id :: nat
  it_Size :: int
  it_Length :: int
  it_Completed :: bool
  it_Priority :: int

record cache_state =
  st_Capacity :: int
  st_PiecesLength :: int
  st_PiecesCount :: nat
  st_Filled :: int
  st_Pieces :: "item_state list"
  st_Readers :: "(int \<times> int \<times> int) list"

text \<open>
  \<open>prio_of\<close> is the engine's priority of a piece. The loop over the pieces adds up the sizes and
  lists the pieces that hold bytes.
\<close>

fun state_scan :: "(nat \<Rightarrow> int) \<Rightarrow> cache \<Rightarrow> nat list \<Rightarrow> int \<Rightarrow> item_state list \<Rightarrow> int \<times> item_state list" where
  "state_scan prio_of c [] fill ps = (fill, ps)"
| "state_scan prio_of c (i # is) fill ps =
     (let p = objs c ! i; sz = Size p
      in if sz > 0
         then state_scan prio_of c is (wrap64 (fill + sz))
                (ps @ [\<lparr>it_Id = Id p, it_Size = Size p, it_Length = pieceLength c,
                        it_Completed = Complete p, it_Priority = (if torrent c then prio_of (Id p) else 0)\<rparr>])
         else state_scan prio_of c is fill ps)"

definition GetState :: "btsets \<Rightarrow> (nat \<Rightarrow> int) \<Rightarrow> cache \<Rightarrow> cache_state \<times> cache" where
  "GetState sets prio_of c =
     (let (fill, ps) = state_scan prio_of c (case pieces c of None \<Rightarrow> [] | Some ps \<Rightarrow> ps) 0 [];
          rds = (if Readers c > 0
                 then map (\<lambda>i. let rg = getPiecesRange sets c (robjs c ! i)
                                in (Start rg, End rg, getReaderPiece c (robjs c ! i)))
                        (case readers c of None \<Rightarrow> [] | Some rs \<Rightarrow> rs)
                 else []);
          c = c\<lparr>filled := fill\<rparr>
      in (\<lparr>st_Capacity = capacity c, st_PiecesLength = pieceLength c, st_PiecesCount = pieceCount c,
           st_Filled = fill, st_Pieces = ps, st_Readers = rds\<rparr>, c))"

definition GetCapacity :: "cache option \<Rightarrow> int" where
  "GetCapacity c = (case c of None \<Rightarrow> 0 | Some c \<Rightarrow> capacity c)"

subsection \<open>The storage\<close>

text \<open>
  Caches are objects named by their index; \<open>caches\<close> is the map from info hashes to them. A hash is
  a number. \<open>dir\<close> is the index cache on disk of the torrent that is opened.
\<close>

record storage =
  st_capacity :: int
  caches :: "(nat \<times> nat) list"
  cobjs :: "cache list"

definition NewStorage :: "int \<Rightarrow> storage" where
  "NewStorage cap = \<lparr>st_capacity = cap, caches = [], cobjs = []\<rparr>"

definition OpenTorrent :: "int \<Rightarrow> (nat \<Rightarrow> byte list option) option \<Rightarrow> int \<Rightarrow> nat \<Rightarrow> int list \<Rightarrow> nat \<Rightarrow>
    storage \<Rightarrow> storage option" where
  "OpenTorrent now dir plen numPieces files infoHash s =
     (case Init now dir plen numPieces files (NewCache (st_capacity s)) of
        None \<Rightarrow> None
      | Some ch \<Rightarrow> Some (s\<lparr>cobjs := cobjs s @ [ch],
                            caches := AList.update infoHash (length (cobjs s)) (caches s)\<rparr>))"

definition CloseHash :: "nat \<Rightarrow> storage \<Rightarrow> storage" where
  "CloseHash hash s =
     (case map_of (caches s) hash of
        Some k \<Rightarrow> s\<lparr>cobjs := (cobjs s)[k := Close (cobjs s ! k)], caches := AList.delete hash (caches s)\<rparr>
      | None \<Rightarrow> s)"

definition storage_Close :: "storage \<Rightarrow> storage" where
  "storage_Close s =
     s\<lparr>cobjs := fold (\<lambda>k cs. cs[k := Close (cs ! k)]) (map snd (caches s)) (cobjs s), caches := []\<rparr>"

definition GetCache :: "nat \<Rightarrow> storage \<Rightarrow> nat option" where
  "GetCache hash s = map_of (caches s) hash"

subsection \<open>Every operation keeps the invariant\<close>

text \<open>For operations on the readers, and for operations on the memory.\<close>

lemma cache_inv_reader_op:
  assumes "cache_inv c" and "core d = core c" and "reader_inv d" and "readers d = None \<longleftrightarrow> readers c = None"
    and "pieceInRange d = pieceInRange c" and "localPriority d = localPriority c"
  shows "cache_inv d"
  using assms core_mem_inv [OF assms(2)] core_eqD [OF assms(2)]
  by (auto simp: cache_inv_def shape_inv_def prio_inv_def)

lemma cache_inv_mem_op:
  assumes "cache_inv c" and "mem_inv d" and "mem.more d = mem.more c" and "map Id (objs d) = map Id (objs c)"
    and "pieceCount d = pieceCount c" and "pieceLength d = pieceLength c"
    and "pieces d = pieces c" and "isClosed d = isClosed c"
  shows "cache_inv d"
  using assms more_eqD [OF assms(3)]
  by (auto simp: cache_inv_def shape_inv_def prio_inv_def reader_inv_def)

lemma upd_obj_Id: "(\<And>p. Id (f p) = Id p) \<Longrightarrow> map Id (objs (upd_obj i f s)) = map Id (objs s)"
  by (cases "i < length (objs s)")
    (simp_all add: upd_obj_simps map_update list_update_beyond list_update_same_conv)

lemma WriteAt_Id: "map Id (objs (snd (WriteAt now b off i s))) = map Id (objs s)"
proof -
  have "map Id (objs (snd (ensure_buffer i s))) = map Id (objs s)"
    by (cases "buffer (objs s ! i)"; cases rule: getBuffer_cases [of "s\<lparr>cleanTrigger := True\<rparr>"])
      (simp_all add: ensure_buffer_def make_buffer_def upd_obj_Id)
  then show ?thesis
    by (cases "ensure_buffer i s"; cases "fst (ensure_buffer i s)")
      (simp_all add: WriteAt_def Let_def upd_obj_Id)
qed

lemma WriteAt_cache_inv:
  assumes "cache_inv c" and "i < length (objs c)"
  shows "cache_inv (snd (WriteAt now b off i c))"
proof -
  have m: "mem_inv c" using assms(1) by (simp add: cache_inv_def)
  show ?thesis
    using WriteAt_inv [OF m assms(2)] WriteAt_frame [OF m assms(2)]
    by (intro cache_inv_mem_op [OF assms(1)]) (simp_all add: WriteAt_static WriteAt_Id)
qed

lemma ReadAt_cases:
  "snd (ReadAt now n off i s) = s \<or>
   snd (ReadAt now n off i s) = upd_obj i (\<lambda>p. p\<lparr>Accessed := now\<rparr>) s \<or>
   snd (ReadAt now n off i s) = (upd_obj i (\<lambda>p. p\<lparr>Accessed := now\<rparr>) s)\<lparr>cleanTrigger := True\<rparr>"
  by (simp add: ReadAt_def Let_def)

lemma ReadAt_cache_inv:
  assumes "cache_inv c"
  shows "cache_inv (snd (ReadAt now n off i c))"
proof -
  have "mem_inv (snd (ReadAt now n off i c))" using assms by (simp add: ReadAt_inv cache_inv_def)
  with ReadAt_cases [of now n off i c] show ?thesis
    by (elim disjE; intro cache_inv_mem_op [OF assms]) (simp_all add: upd_obj_simps upd_obj_Id del: upd_obj_simps(16))
qed

lemma MarkComplete_cache_inv:
  assumes "cache_inv c"
  shows "cache_inv (MarkComplete i c)"
proof -
  have "mem_inv (MarkComplete i c)" using assms by (simp add: MarkComplete_inv cache_inv_def)
  then show ?thesis
    by (intro cache_inv_mem_op [OF assms])
      (simp_all add: MarkComplete_def Let_def upd_obj_simps upd_obj_Id del: upd_obj_simps(16))
qed

lemma mem_Release_Id: "map Id (objs (mem_Release i s)) = map Id (objs s)"
  by (simp only: mem_Release_frame(4) drop_piece_def) (simp add: upd_obj_Id)

lemma Release_cache_inv:
  assumes "cache_inv c" and "i < length (objs c)"
  shows "cache_inv (Release i c)"
  using assms Release_inv [of c i]
  by (intro cache_inv_mem_op [OF assms(1)]) (simp_all add: Release_static cache_inv_def, simp add: Release_def Let_def mem_Release_Id)

lemma readerOff_core: "core (readerOff i c) = core c" "pieceInRange (readerOff i c) = pieceInRange c"
  "localPriority (readerOff i c) = localPriority c"
  by (simp_all add: readerOff_def Let_def cache_simps)

lemma reader_Close_core:
  "core (reader_Close i c) = core c" "pieceInRange (reader_Close i c) = pieceInRange c"
  "localPriority (reader_Close i c) = localPriority c"
  by (simp_all add: reader_Close_def Let_def cache_simps readerOff_core)

lemma CloseReader_core:
  "core (CloseReader i c) = core c" "pieceInRange (CloseReader i c) = pieceInRange c"
  "localPriority (CloseReader i c) = localPriority c" "readers (CloseReader i c) = None \<longleftrightarrow> readers c = None"
  by (auto simp: CloseReader_def Let_def cache_simps reader_Close_core reader_Close_frame split: option.split)

lemma core_truncate: "mem.truncate d = mem.truncate c \<Longrightarrow> core d = core c"
  by (simp add: core_def)

lemma move_core: "core (move now n i c) = core c" "pieceInRange (move now n i c) = pieceInRange c"
  "localPriority (move now n i c) = localPriority c"
  by (simp_all add: move_def cache_simps)

lemma adjust_loop_core:
  "core (fold (\<lambda>i. upd_reader i f) is c) = core c \<and> readers (fold (\<lambda>i. upd_reader i f) is c) = readers c \<and>
   pieceInRange (fold (\<lambda>i. upd_reader i f) is c) = pieceInRange c \<and>
   localPriority (fold (\<lambda>i. upd_reader i f) is c) = localPriority c"
  by (induction "is" arbitrary: c) (simp_all add: cache_simps)

lemma cache_inv_capacity: "cache_inv (c\<lparr>capacity := x\<rparr>) = cache_inv c" "cache_inv (c\<lparr>torrent := t\<rparr>) = cache_inv c"
  "cache_inv (c\<lparr>IsAggressive := t\<rparr>) = cache_inv c" "cache_inv (c\<lparr>MasterLimit := x\<rparr>) = cache_inv c"
  by (simp_all add: cache_inv_def mem_inv_def bufs_inv_def buf_ok_def owned_def piece_ok_def
      reader_inv_def shape_inv_def prio_inv_def)

lemma newReader_cache_inv: "cache_inv c \<Longrightarrow> file_ok f \<Longrightarrow> cache_inv (newReader f c)"
  by (rule cache_inv_reader_op [of c])
    (simp_all add: newReader_simps newReader_inv cache_inv_def core_truncate [OF newReader_simps(4)])

lemma move_cache_inv:
  "cache_inv c \<Longrightarrow> i < length (robjs c) \<Longrightarrow> 0 \<le> n \<Longrightarrow> n \<le> lim \<Longrightarrow> cache_inv (move now n i c)"
  by (rule cache_inv_reader_op [of c]) (simp_all add: move_core move_simps move_inv cache_inv_def)

lemma reader_Close_cache_inv: "cache_inv c \<Longrightarrow> i < length (robjs c) \<Longrightarrow> cache_inv (reader_Close i c)"
  by (rule cache_inv_reader_op [of c]) (simp_all add: reader_Close_core reader_Close_frame reader_Close_inv cache_inv_def)

lemma CloseReader_cache_inv: "cache_inv c \<Longrightarrow> i < length (robjs c) \<Longrightarrow> cache_inv (CloseReader i c)"
  by (rule cache_inv_reader_op [of c]) (simp_all add: CloseReader_core CloseReader_inv cache_inv_def)

lemma AdjustRA_cache_inv:
  assumes "cache_inv c" and "0 \<le> ra" and "ra \<le> lim"
  shows "cache_inv (AdjustRA sets ra c)"
proof -
  define d where "d = (if CacheSize sets = 0 then c\<lparr>capacity := wrap64 (ra * 3)\<rparr> else c)"
  have d: "cache_inv d" using assms(1) by (simp add: d_def cache_inv_capacity)
  have "core (AdjustRA sets ra c) = core d \<and> readers (AdjustRA sets ra c) = readers d \<and>
    pieceInRange (AdjustRA sets ra c) = pieceInRange d \<and> localPriority (AdjustRA sets ra c) = localPriority d"
    using adjust_loop_core by (simp add: AdjustRA_def Let_def flip: d_def)
  with AdjustRA_inv [of c ra sets] assms show ?thesis
    by (intro cache_inv_reader_op [OF d]) (simp_all add: cache_inv_def)
qed

lemma SetTorrent_cache_inv: "SetTorrent t c = Some c' \<Longrightarrow> cache_inv c \<Longrightarrow> cache_inv c'"
  by (auto simp: SetTorrent_def Let_def cache_inv_capacity cache_inv_scratch split: if_splits)

lemma GetState_cache_inv: "cache_inv c \<Longrightarrow> cache_inv (snd (GetState sets prio_of c))"
  by (auto simp: GetState_def Let_def cache_inv_scratch split: prod.split)

subsection \<open>Closing the cache\<close>

lemma drop_piece_static:
  "objs (drop_piece i c) = (objs c)[i := gone (objs c ! i)]"
  "pieceLength (drop_piece i c) = pieceLength c" "pieceCount (drop_piece i c) = pieceCount c"
  "isClosed (drop_piece i c) = isClosed c" "free (drop_piece i c) = free c"
  "mem.more (drop_piece i c) = mem.more c" "isIndexPiece (drop_piece i c) = isIndexPiece c"
  "freeCap (drop_piece i c) = freeCap c" "map Id (objs (drop_piece i c)) = map Id (objs c)"
proof -
  show "map Id (objs (drop_piece i c)) = map Id (objs c)" unfolding drop_piece_def by (rule upd_obj_Id) simp
qed (simp_all add: drop_piece_def upd_obj_simps gone_def)

lemma drop_all_static:
  "length (objs (fold drop_piece is c)) = length (objs c) \<and>
    map Id (objs (fold drop_piece is c)) = map Id (objs c) \<and>
    pieceLength (fold drop_piece is c) = pieceLength c \<and> pieceCount (fold drop_piece is c) = pieceCount c \<and>
    isClosed (fold drop_piece is c) = isClosed c \<and> mem.more (fold drop_piece is c) = mem.more c \<and>
    isIndexPiece (fold drop_piece is c) = isIndexPiece c \<and> freeCap (fold drop_piece is c) = freeCap c"
proof (induction "is" arbitrary: c)
  case (Cons i "is")
  from Cons.IH [of "drop_piece i c"] show ?case
    using drop_piece_static(9) [of i c] by (simp add: drop_piece_static(2-8)) (metis length_map)
qed simp

lemma drop_all_objs:
  "j < length (objs c) \<Longrightarrow>
    objs (fold drop_piece is c) ! j = (if j \<in> set is then gone (objs c ! j) else objs c ! j)"
proof (induction "is" arbitrary: c)
  case (Cons i "is")
  have "objs (drop_piece i c) ! j = (if j = i then gone (objs c ! j) else objs c ! j)"
    using Cons.prems by (simp add: drop_piece_static)
  moreover have "j < length (objs (drop_piece i c))" using Cons.prems by (simp add: drop_piece_static(1))
  ultimately show ?case using Cons.IH [of "drop_piece i c"] by (auto simp: gone_gone)
qed simp

lemma drop_all_inv: "mem_inv c \<Longrightarrow> mem_inv (fold drop_piece is c)"
  by (induction "is" arbitrary: c) (simp_all add: drop_piece_inv)

lemma mem_inv_free_nil:
  assumes "mem_inv c"
  shows "mem_inv (c\<lparr>free := []\<rparr>)"
proof -
  have "bufs_inv (c\<lparr>free := []\<rparr>)"
    by (rule bufs_inv_sub [of c]) (use assms in \<open>simp_all add: mem_inv_def owned_def buf_ok_def\<close>)
  with assms show ?thesis by (simp add: mem_inv_def piece_ok_def)
qed

lemma Close_spec:
  assumes "cache_inv c" and "\<not> isClosed c"
  shows "cache_inv (Close c)" and "isClosed (Close c)" and "pieces (Close c) = None"
    and "readers (Close c) = None" and "free (Close c) = []"
    and "\<forall>j < pieceCount c. objs (Close c) ! j = gone (objs c ! j)"
    and "length (objs (Close c)) = length (objs c)"
proof -
  obtain ps where ps: "pieces c = Some ps" "set ps = {..<pieceCount c}"
    using assms by (auto simp: cache_inv_def shape_inv_def)
  define d where "d = fold drop_piece ps (c\<lparr>isClosed := True\<rparr>)"
  have eq: "Close c = d\<lparr>free := [], readers := None, pieces := None\<rparr>"
    using assms(2) ps(1) by (simp add: Close_def d_def Let_def)
  have "mem_inv (c\<lparr>isClosed := True\<rparr>)"
    using assms(1) by (simp add: cache_inv_def mem_inv_def bufs_inv_def buf_ok_def owned_def piece_ok_def)
  then have "mem_inv (d\<lparr>free := []\<rparr>)" unfolding d_def by (intro mem_inv_free_nil drop_all_inv)
  then have m: "mem_inv (Close c)"
    unfolding eq by (simp add: mem_inv_def bufs_inv_def buf_ok_def owned_def piece_ok_def)
  have st: "length (objs d) = length (objs c)" "map Id (objs d) = map Id (objs c)"
    "pieceLength d = pieceLength c" "pieceCount d = pieceCount c" "isClosed d" "mem.more d = mem.more c"
    unfolding d_def using drop_all_static [of ps "c\<lparr>isClosed := True\<rparr>"] by simp_all
  note more = more_eqD [OF st(6)]
  show "cache_inv (Close c)"
    using m assms(1) st more by (auto simp: eq cache_inv_def shape_inv_def prio_inv_def reader_inv_def)
  show "isClosed (Close c)" "pieces (Close c) = None" "readers (Close c) = None" "free (Close c) = []"
    "length (objs (Close c)) = length (objs c)"
    using st by (simp_all add: eq)
  have "length (objs c) = pieceCount c" using assms(1) by (simp add: cache_inv_def mem_inv_def)
  then show "\<forall>j < pieceCount c. objs (Close c) ! j = gone (objs c ! j)"
    using ps(2) drop_all_objs [of _ "c\<lparr>isClosed := True\<rparr>" ps] by (simp add: eq d_def)
qed

lemma Close_cache_inv: "cache_inv c \<Longrightarrow> cache_inv (Close c)"
  using Close_spec(1) [of c] by (cases "isClosed c") (auto simp: Close_def)

lemma cleanPieces_cache_inv:
  assumes "cleanPieces sets now c = Some c'" and "cache_inv c" and "0 \<le> capacity c"
  shows "cache_inv c'"
  by (rule cleanPieces_effect [OF assms(2,3), of sets now]) (use assms(1) in simp)

text \<open>
  C13. Closing a cache gives back all its memory: no piece and no free list holds a buffer afterwards,
  no piece counts as complete, the engine gets the failing stand-in for every piece, and eviction
  and reader bookkeeping are switched off.
\<close>

theorem Close_frees_all:
  assumes "cache_inv c" and "\<not> isClosed c"
  shows "cache_inv (Close c) \<and> owned (Close c) = [] \<and> free (Close c) = [] \<and>
    (\<forall>i. contents (Close c) i = None \<and> Piece i (Close c) = PieceFake) \<and>
    (\<forall>i < pieceCount c. \<not> Completion i (Close c)) \<and>
    Readers (Close c) = 0 \<and> cleanPieces sets now (Close c) = Some (Close c) \<and> Close (Close c) = Close c"
proof -
  note s = Close_spec [OF assms]
  have len: "length (objs c) = pieceCount c" using assms(1) by (simp add: cache_inv_def mem_inv_def)
  have b: "\<forall>p \<in> set (objs (Close c)). buffer p = None"
    using s(6,7) len by (auto simp: in_set_conv_nth gone_def)
  then have "owned (Close c) = []" unfolding owned_def by (rule map_filter_None)
  moreover have "contents (Close c) i = None" for i
    using b by (simp add: contents_def)
  moreover have "Piece i (Close c) = PieceFake" for i using s(3) by (simp add: Piece_def)
  moreover have "\<not> Completion i (Close c)" if "i < pieceCount c" for i
    using s(6) that by (simp add: Completion_def gone_def)
  ultimately show ?thesis
    using s(1,2,4,5) by (simp add: Readers_def cleanPieces_def Close_def [of "Close c"])
qed

theorem Close_frees_all_witness:
  "\<not> isClosed big \<and> contents big 5 \<noteq> None \<and> contents (Close big) 5 = None \<and> owned (Close big) = []"
  using Close_frees_all [OF big_inv big_simps(15)]
  by (simp add: big_simps contents_def full_piece_def)

text \<open>
  C37. A write that arrives after \<^verbatim>\<open>Close\<close> (the engine keeps references to the pieces) takes a new
  buffer, and neither the cleaner nor another \<^verbatim>\<open>Close\<close> gives it back.
\<close>

theorem late_write_stays:
  fixes t :: int and b :: "byte list"
  assumes "cache_inv c" and "\<not> isClosed c" and "i < pieceCount c"
  defines "d \<equiv> snd (WriteAt t b 0 i (Close c))"
  shows "contents d i \<noteq> None \<and> removePiece i d = d \<and> cleanPieces sets now d = Some d \<and> Close d = d"
proof -
  note s = Close_spec [OF assms(1,2)]
  have len: "length (objs c) = pieceCount c" using assms(1) by (simp add: cache_inv_def mem_inv_def)
  have m: "mem_inv (Close c)" "0 \<le> pieceLength (Close c)"
    using s(1) by (auto simp: cache_inv_def mem_inv_def)
  have i: "i < length (objs (Close c))" using assms(3) s(7) len by simp
  have "contents d i \<noteq> None"
    using contents_put_same [OF m(1) i order_refl m(2), of t b] by (auto simp: d_def)
  moreover have "isClosed d" using s(2) by (simp add: d_def WriteAt_static)
  ultimately show ?thesis by (simp add: removePiece_def cleanPieces_def Close_def)
qed

theorem late_write_stays_witness:
  "contents (snd (WriteAt 0 [1] 0 3 (Close big))) 3 \<noteq> None"
  using late_write_stays [OF big_inv big_simps(15), of 3] by (simp add: big_simps)

subsection \<open>The state the API reports\<close>

lemma state_scan_eq:
  assumes "\<forall>i \<in> set is. 0 \<le> Size (objs c ! i)" and "0 \<le> fill"
    and "fill + sum_list (map (\<lambda>i. Size (objs c ! i)) is) \<le> lim"
    and "state_scan prio_of c is fill ps = (fill', ps')"
  shows "fill' = fill + sum_list (map (\<lambda>i. Size (objs c ! i)) is) \<and>
    map it_Id ps' = map it_Id ps @ map (\<lambda>i. Id (objs c ! i)) (filter (\<lambda>i. Size (objs c ! i) > 0) is) \<and>
    map it_Size ps' = map it_Size ps @ map (\<lambda>i. Size (objs c ! i)) (filter (\<lambda>i. Size (objs c ! i) > 0) is)"
  using assms
proof (induction "is" arbitrary: fill ps)
  case (Cons i "is")
  have s: "0 \<le> sum_list (map (\<lambda>i. Size (objs c ! i)) is)"
    using Cons.prems(1) by (intro sum_list_nonneg) auto
  show ?case
  proof (cases "Size (objs c ! i) > 0")
    case True
    have "wrap64 (fill + Size (objs c ! i)) = fill + Size (objs c ! i)"
      using Cons.prems s by (intro wrap64_id) (auto simp: in64_def lim_def)
    with True Cons.prems Cons.IH [of "fill + Size (objs c ! i)" "ps @ [\<lparr>it_Id = Id (objs c ! i),
        it_Size = Size (objs c ! i), it_Length = pieceLength c, it_Completed = Complete (objs c ! i),
        it_Priority = (if torrent c then prio_of (Id (objs c ! i)) else 0)\<rparr>]"] show ?thesis
      by (simp add: Let_def)
  next
    case False
    then have "Size (objs c ! i) = 0" using Cons.prems(1) by simp
    with Cons.prems Cons.IH [of fill] show ?thesis by (simp add: Let_def)
  qed
qed simp



subsection \<open>Interleavings\<close>

text \<open>
  One step of a cache in its environment: the engine stores, reads, completes and releases pieces,
  clients open, move, read and close readers, the cleaner runs, the API asks for the state and
  adjusts the readahead, the cache is closed. The premises are what the callers guarantee: indices
  of existing objects, files within the torrent, seeks to positions in range, an engine that reads
  no further than the end of the file.
\<close>

inductive cache_step :: "btsets \<Rightarrow> cache \<Rightarrow> cache \<Rightarrow> bool" for sets :: btsets where
  do_new_reader: "file_ok f \<Longrightarrow> cache_step sets c (newReader f c)"
| do_seek: "i < length (robjs c) \<Longrightarrow> Seek now off wh i c = (res, c') \<Longrightarrow>
    (\<And>n. res = Some n \<Longrightarrow> 0 \<le> n \<and> n \<le> lim) \<Longrightarrow> cache_step sets c c'"
| do_read_bytes: "i < length (robjs c) \<Longrightarrow> Read now info eng_read i c = (res, c') \<Longrightarrow>
    (\<And>p n err. eng_read p = (n, err) \<Longrightarrow> p + int n \<le> max p (Length (r_file (robjs c ! i)))) \<Longrightarrow>
    cache_step sets c c'"
| do_close_one: "i < length (robjs c) \<Longrightarrow> cache_step sets c (CloseReader i c)"
| do_close_bare: "i < length (robjs c) \<Longrightarrow> cache_step sets c (reader_Close i c)"
| do_adjust: "0 \<le> ra \<Longrightarrow> ra \<le> lim \<Longrightarrow> cache_step sets c (AdjustRA sets ra c)"
| do_aggressive: "cache_step sets c (SetAggressive en ml c)"
| do_torrent: "SetTorrent t c = Some c' \<Longrightarrow> cache_step sets c c'"
| do_write: "i < length (objs c) \<Longrightarrow> cache_step sets c (snd (WriteAt now b off i c))"
| do_load: "cache_step sets c (snd (ReadAt now n off i c))"
| do_complete: "cache_step sets c (MarkComplete i c)"
| do_release: "i < length (objs c) \<Longrightarrow> cache_step sets c (Release i c)"
| do_clean: "cleanPieces sets now c = Some c' \<Longrightarrow> cache_step sets c c'"
| do_clear: "cache_step sets c (clearPriority sets now c)"
| do_state: "cache_step sets c (snd (GetState sets prio_of c))"
| do_close: "cache_step sets c (Close c)"

definition sys_inv :: "cache \<Rightarrow> bool" where
  "sys_inv c \<longleftrightarrow> cache_inv c \<and> 0 \<le> capacity c"

lemma Seek_cache_inv:
  assumes "cache_inv c" and "i < length (robjs c)" and "Seek now off wh i c = (res, c')"
    and "\<And>n. res = Some n \<Longrightarrow> 0 \<le> n \<and> n \<le> lim"
  shows "cache_inv c' \<and> capacity c' = capacity c"
proof (cases "r_isClosed (robjs c ! i)")
  case False
  let ?n = "sought off wh (robjs c ! i)"
  have "res = Some ?n" "c' = move now ?n i c"
    using Seek_eq [of c i now off wh] False assms(1-3) by (auto simp: cache_inv_def)
  with move_cache_inv [OF assms(1,2), of ?n now] assms(4) [of ?n] core_eqD(1) [OF move_core(1)] show ?thesis by simp
qed (use assms in \<open>simp add: Seek_def\<close>)

lemma Read_cache_inv:
  assumes "cache_inv c" and "i < length (robjs c)" and "Read now info eng_read i c = (res, c')"
    and "\<And>p n err. eng_read p = (n, err) \<Longrightarrow> p + int n \<le> max p (Length (r_file (robjs c ! i)))"
  shows "cache_inv c' \<and> capacity c' = capacity c"
proof (cases "r_isClosed (robjs c ! i) \<or> \<not> info")
  case False
  let ?p = "r_offset (robjs c ! i)"
  have inv: "reader_inv c" using assms(1) by (simp add: cache_inv_def)
  obtain n err where e: "eng_read ?p = (n, err)" by fastforce
  have "0 \<le> ?p + int n" "?p + int n \<le> lim"
    using reader_inv_nth [OF inv assms(2)] assms(4) [OF e] by (auto simp: reader_ok_def file_ok_def max_def split: if_splits)
  moreover from this have "wrap64 (?p + int n) = ?p + int n" by (intro wrap64_id) (auto simp: in64_def lim_def)
  ultimately have "c' = move now (?p + int n) i c" "cache_inv (move now (?p + int n) i c)"
    using Read_eq [OF inv assms(2), of eng_read n err now] e False assms(3) move_cache_inv [OF assms(1,2)] by auto
  with core_eqD(1) [OF move_core(1)] show ?thesis by simp
qed (use assms in \<open>auto simp: Read_def split: if_splits\<close>)

lemma newReader_capacity: "capacity (newReader f c) = capacity c"
  using core_eqD(1) [OF core_truncate [OF newReader_simps(4)]] .

lemma AdjustRA_capacity:
  assumes "0 \<le> ra" and "ra \<le> lim" and "0 \<le> capacity c"
  shows "0 \<le> capacity (AdjustRA sets ra c)"
proof -
  define d where "d = (if CacheSize sets = 0 then c\<lparr>capacity := wrap64 (ra * 3)\<rparr> else c)"
  have "wrap64 (ra * 3) = ra * 3" using assms(1,2) by (intro wrap64_id) (auto simp: in64_def lim_def)
  then have "0 \<le> capacity d" using assms(1,3) by (simp add: d_def)
  moreover have "capacity (fold (\<lambda>i. upd_reader i f) is d) = capacity d" for f "is"
    using core_eqD(1) [of "fold (\<lambda>i. upd_reader i f) is d" d] adjust_loop_core by blast
  ultimately show ?thesis by (simp add: AdjustRA_def Let_def flip: d_def)
qed

lemma Close_capacity: "capacity (Close c) = capacity c"
proof -
  have "capacity (fold drop_piece is c) = capacity c" for "is" and c :: cache
    by (induction "is" arbitrary: c) (simp_all add: drop_piece_def upd_obj_simps)
  then show ?thesis by (simp add: Close_def Let_def)
qed

lemma clearPriority_capacity: "capacity (clearPriority sets now c) = capacity c"
  using clearPriority_frame core_eqD(1) by blast

lemma cleanPieces_sys_inv: "cleanPieces sets now c = Some c' \<Longrightarrow> sys_inv c \<Longrightarrow> sys_inv c'"
  unfolding sys_inv_def by (elim conjE, rule cleanPieces_effect [of c sets now]) simp_all

lemma ReadAt_capacity: "capacity (snd (ReadAt now n off i s)) = capacity s"
  using ReadAt_cases [of now n off i s] by (elim disjE) (simp_all add: upd_obj_simps)

lemma GetState_capacity: "capacity (snd (GetState sets prio_of c)) = capacity c"
  by (simp add: GetState_def Let_def split: prod.split)

lemma cache_step_sys_inv: "cache_step sets c c' \<Longrightarrow> sys_inv c \<Longrightarrow> sys_inv c'"
proof (induction rule: cache_step.induct)
  case (do_seek i c now off wh res c')
  then show ?case using Seek_cache_inv [of c i now off wh res c'] by (simp add: sys_inv_def)
next
  case (do_read_bytes i c now info eng_read res c')
  then show ?case using Read_cache_inv [of c i now info eng_read res c'] by (simp add: sys_inv_def)
next
  case (do_torrent t c c')
  then have "capacity c' = capacity c" by (auto simp: SetTorrent_def Let_def split: if_splits)
  with do_torrent SetTorrent_cache_inv show ?case by (auto simp: sys_inv_def)
next
  case (do_clean now c c')
  then show ?case by (rule cleanPieces_sys_inv)
next
  case (do_complete c i)
  then show ?case by (simp add: sys_inv_def MarkComplete_cache_inv) (simp add: MarkComplete_def Let_def upd_obj_simps)
qed (simp_all add: sys_inv_def newReader_cache_inv newReader_capacity CloseReader_cache_inv
      core_eqD(1) [OF CloseReader_core(1)] reader_Close_cache_inv core_eqD(1) [OF reader_Close_core(1)]
      AdjustRA_cache_inv AdjustRA_capacity SetAggressive_def Let_def cache_inv_capacity WriteAt_cache_inv
      WriteAt_static ReadAt_cache_inv ReadAt_capacity Release_cache_inv Release_static clearPriority_inv
      clearPriority_capacity GetState_cache_inv GetState_capacity Close_cache_inv Close_capacity)

lemma reach_sys_inv: "(cache_step sets)\<^sup>*\<^sup>* c c' \<Longrightarrow> sys_inv c \<Longrightarrow> sys_inv c'"
  by (induction rule: rtranclp_induct) (auto intro: cache_step_sys_inv)

lemma preload_loop_Id:
  "map Id (objs (fst (preload_loop now disk is c bytes))) = map Id (objs c)"
proof (induction "is" arbitrary: c bytes)
  case (Cons i "is")
  have "map Id (objs (load_piece now dat i c)) = map Id (objs c)" for dat
    unfolding load_piece_def by (subst upd_obj_Id) (simp_all add: WriteAt_Id)
  with Cons.IH show ?case
    by (cases "to_load disk (isIndexPiece c) i") (simp_all add: preload_step del: preload_loop.simps)
qed simp

lemma preload_Id: "map Id (objs (preloadIndexCache now dir c)) = map Id (objs c)"
proof (cases dir)
  case (Some disk)
  have "map Id (objs (fst (preload_loop now disk [0..<pieceCount c] c 0))) = map Id (objs c)"
    by (rule preload_loop_Id)
  then show ?thesis
    by (cases "preload_loop now disk [0..<pieceCount c] c 0") (simp add: preloadIndexCache_def Some)
qed (simp add: preloadIndexCache_def)

lemma Init_cache_inv:
  assumes "torrent_ok plen files" and "dir_ok plen dir" and "int n * plen \<le> lim"
    and "Init now dir plen n files (NewCache cap) = Some c"
  shows "cache_inv c" and "capacity c = (if cap = 0 then wrap64 (plen * 4) else cap)"
proof -
  obtain c1 bm where i: "Init now dir plen n files (NewCache cap) = Some c1" "mem_inv c1"
    "same_shape (started plen n bm (NewCache cap)) c1" by (rule Init_spec [OF assms(1,2)])
  have c1: "c1 = c" using i(1) assms(4) by simp
  have sh: "pieceLength c = plen" "pieceCount c = n" "mem.more c = mem.more (started plen n bm (NewCache cap))"
    "pieces c = Some [0..<n]" "\<not> isClosed c"
    and cap: "capacity c = (if cap = 0 then wrap64 (plen * 4) else cap)"
    using i(3) by (simp_all add: c1 same_shape_def started_def NewCache_def Let_def)
  obtain bm' where bm': "mark_files plen (int n) (keep_of plen) 0 files (replicate n False) = Some bm'"
    using assms(1,4) by (auto simp: Init_def keep_of_def torrent_ok_def Let_def split: option.splits if_splits)
  have "c = preloadIndexCache now dir (started plen n bm' (NewCache cap))"
    using Init_eq [OF _ bm', of now dir "NewCache cap"] assms(1,4) by (auto simp: torrent_ok_def)
  then have "map Id (objs c) = [0..<n]"
    by (simp add: preload_Id started_def NewPiece_def Let_def comp_def)
  with sh i(2) assms(3) more_eqD [OF sh(3)] show "cache_inv c"
    by (simp add: c1 cache_inv_def shape_inv_def prio_inv_def reader_inv_def started_def NewCache_def Let_def
        atLeast0LessThan)
  show "capacity c = (if cap = 0 then wrap64 (plen * 4) else cap)" by (rule cap)
qed



subsection \<open>The map of caches\<close>

definition storage_inv :: "storage \<Rightarrow> bool" where
  "storage_inv s \<longleftrightarrow> 0 \<le> st_capacity s \<and> distinct (map snd (caches s)) \<and> distinct (map fst (caches s)) \<and>
     (\<forall>hk \<in> set (caches s). snd hk < length (cobjs s)) \<and> (\<forall>c \<in> set (cobjs s). cache_inv c)"

lemma set_AList_update_subset: "set (AList.update k v al) \<subseteq> insert (k, v) (set al)"
  by (induction al) auto

lemma map_snd_AList_update:
  "distinct (map snd al) \<Longrightarrow> v \<notin> snd ` set al \<Longrightarrow> distinct (map snd (AList.update k v al))"
proof (induction al)
  case (Cons p al)
  have "snd ` set (AList.update k v al) \<subseteq> insert v (snd ` set al)"
    using image_mono [OF set_AList_update_subset [of k v al], of snd] by simp
  with Cons show ?case by (cases p) auto
qed simp

lemma OpenTorrent_inv:
  assumes "storage_inv s" and "torrent_ok plen files" and "dir_ok plen dir" and "int n * plen \<le> lim"
    and "OpenTorrent now dir plen n files h s = Some s'"
  shows "storage_inv s'"
proof -
  obtain ch where ch: "Init now dir plen n files (NewCache (st_capacity s)) = Some ch"
    "s' = s\<lparr>cobjs := cobjs s @ [ch], caches := AList.update h (length (cobjs s)) (caches s)\<rparr>"
    using assms(5) by (auto simp: OpenTorrent_def split: option.splits)
  have "length (cobjs s) \<notin> snd ` set (caches s)" using assms(1) by (auto simp: storage_inv_def)
  then have "distinct (map snd (AList.update h (length (cobjs s)) (caches s)))"
    using assms(1) by (intro map_snd_AList_update) (simp_all add: storage_inv_def)
  moreover have "\<forall>hk \<in> set (AList.update h (length (cobjs s)) (caches s)). snd hk < length (cobjs s @ [ch])"
    using set_AList_update_subset [of h "length (cobjs s)" "caches s"] assms(1)
    by (fastforce simp: storage_inv_def)
  ultimately show ?thesis
    using assms(1) Init_cache_inv(1) [OF assms(2-4) ch(1)] by (auto simp: storage_inv_def ch(2) distinct_update)
qed

lemma close_fold:
  "k < length cs \<Longrightarrow> distinct ks \<Longrightarrow>
    fold (\<lambda>k cs. cs[k := Close (cs ! k)]) ks cs ! k = (if k \<in> set ks then Close (cs ! k) else cs ! k)"
proof (induction ks arbitrary: cs)
  case (Cons j ks)
  from Cons.IH [of "cs[j := Close (cs ! j)]"] Cons.prems show ?case
    by (cases "k = j") auto
qed simp

lemma Close_isClosed: "cache_inv c \<Longrightarrow> isClosed (Close c)"
  using Close_spec(2) [of c] by (cases "isClosed c") (auto simp: Close_def)

text \<open>
  Opening a torrent registers a cache under its hash that \<^verbatim>\<open>GetCache\<close> finds and \<^verbatim>\<open>CloseHash\<close> closes,
  leaving the entries of the other hashes alone, and closing the storage closes every cache in the
  map and empties it.
\<close>

theorem storage_open_close:
  assumes "storage_inv s" and "torrent_ok plen files" and "dir_ok plen dir" and "int n * plen \<le> lim"
  shows "\<exists>s' k. OpenTorrent now dir plen n files h s = Some s' \<and> storage_inv s' \<and>
    GetCache h s' = Some k \<and> cache_inv (cobjs s' ! k) \<and> \<not> isClosed (cobjs s' ! k) \<and>
    (\<forall>g. g \<noteq> h \<longrightarrow> GetCache g s' = GetCache g s \<and> GetCache g (CloseHash h s') = GetCache g s) \<and>
    GetCache h (CloseHash h s') = None \<and> isClosed (cobjs (CloseHash h s') ! k) \<and>
    (\<forall>g j. GetCache g s' = Some j \<longrightarrow> isClosed (cobjs (storage_Close s') ! j) \<and> GetCache g (storage_Close s') = None)"
proof -
  obtain ch bm where ch: "Init now dir plen n files (NewCache (st_capacity s)) = Some ch"
    "same_shape (started plen n bm (NewCache (st_capacity s))) ch" by (rule Init_spec [OF assms(2,3)])
  let ?k = "length (cobjs s)"
  define s' where "s' = s\<lparr>cobjs := cobjs s @ [ch], caches := AList.update h ?k (caches s)\<rparr>"
  have s': "OpenTorrent now dir plen n files h s = Some s'" by (simp add: OpenTorrent_def ch s'_def)
  have inv: "storage_inv s'" by (rule OpenTorrent_inv [OF assms s'])
  have ok: "cache_inv ch" "\<not> isClosed ch"
    using Init_cache_inv(1) [OF assms(2-4) ch(1)] ch(2) by (simp_all add: same_shape_def started_def NewCache_def Let_def)
  have get: "GetCache g s' = (if g = h then Some ?k else GetCache g s)" for g
    by (simp add: GetCache_def s'_def update_conv')
  have nth: "cobjs s' ! ?k = ch" "?k < length (cobjs s')" by (simp_all add: s'_def)
  have close: "CloseHash h s' = s'\<lparr>cobjs := (cobjs s')[?k := Close (cobjs s' ! ?k)], caches := AList.delete h (caches s')\<rparr>"
    using get [of h] by (simp add: CloseHash_def GetCache_def)
  have all: "isClosed (cobjs (storage_Close s') ! j)" if "GetCache g s' = Some j" for g j
  proof -
    have m: "(g, j) \<in> set (caches s')" using that by (simp add: GetCache_def map_of_SomeD)
    then have "j < length (cobjs s')" "cache_inv (cobjs s' ! j)" using inv by (auto simp: storage_inv_def)
    moreover have "j \<in> set (map snd (caches s'))" using m by force
    ultimately show ?thesis
      using close_fold [of j "cobjs s'" "map snd (caches s')"] inv Close_isClosed
      by (simp add: storage_Close_def storage_inv_def)
  qed
  have "GetCache g (CloseHash h s') = (if g = h then None else GetCache g s')" for g
    by (simp add: close GetCache_def delete_conv')
  moreover have "isClosed (cobjs (CloseHash h s') ! ?k)"
    using nth Close_isClosed [OF ok(1)] by (simp add: close)
  ultimately show ?thesis
    using s' inv get nth ok all by (intro exI [of _ s'] exI [of _ ?k]) (simp add: GetCache_def storage_Close_def)
qed

theorem storage_open_close_witness:
  "\<exists>s' k. OpenTorrent 0 None 4 3 [12] 7 (NewStorage 64) = Some s' \<and> GetCache 7 s' = Some k \<and>
     \<not> isClosed (cobjs s' ! k) \<and> isClosed (cobjs (storage_Close s') ! k)"
proof -
  have "storage_inv (NewStorage 64)" by (simp add: storage_inv_def NewStorage_def)
  moreover have "torrent_ok 4 [12]" "dir_ok 4 None" "int 3 * 4 \<le> lim"
    by (simp_all add: torrent_ok_def dir_ok_def lim_def)
  ultimately show ?thesis using storage_open_close [of "NewStorage 64" 4 "[12]" None 3 0 7] by blast
qed

end
