(* ===== verification/Shield.thy ===== *)
theory Shield
  imports Torrstor
begin

text \<open>
  The adaptive shield of \<^verbatim>\<open>src/server/torr/storage/torrstor/piece.go\<close>: corrupted pieces switch
  streaming from FAST to STRICT mode, and a watchdog goroutine switches it back after a clean
  streak whose length grows with every relapse. The state is the package's atomic variables and
  the running watchdogs, each with its position in the code. \<^verbatim>\<open>MarkNotComplete\<close> and
  \<^verbatim>\<open>ResetShield\<close> are steps; a watchdog makes one step per atomic access, so other calls can come
  between. Times are nanoseconds since the epoch.
\<close>

subsection \<open>State and operations\<close>

definition strictEscalationCapSeconds :: int where
  "strictEscalationCapSeconds = 1800"

text \<open>Where a watchdog is: in its loop, or after lifting the shield, resetting the corruption count,
  resetting the cycle count.\<close>

datatype pc = Sleeping | Lifted | CountReset | CycleReset

record shield =
  lastCorruptionUnix :: int
  shieldActive :: bool
  isWatchdogRunning :: bool
  staticCorruptionCount :: int
  strictCycleCount :: int
  dogs :: "pc list"

definition shield0 :: shield where
  "shield0 = \<lparr>lastCorruptionUnix = 0, shieldActive = False, isWatchdogRunning = False,
     staticCorruptionCount = 0, strictCycleCount = 0, dogs = []\<rparr>"

text \<open>\<^verbatim>\<open>int32\<close> arithmetic wraps.\<close>

definition wrap32 :: "int \<Rightarrow> int" where
  "wrap32 x = (x + 2 ^ 31) mod 2 ^ 32 - 2 ^ 31"

definition IsResponsive :: "btsets \<Rightarrow> shield \<Rightarrow> bool" where
  "IsResponsive sets s \<longleftrightarrow> ResponsiveMode sets \<and> \<not> shieldActive s"

definition ResetShield :: "shield \<Rightarrow> shield" where
  "ResetShield s = s\<lparr>shieldActive := False, isWatchdogRunning := False, staticCorruptionCount := 0\<rparr>"

definition corrupt :: "btsets \<Rightarrow> int \<Rightarrow> shield \<Rightarrow> shield" where
  "corrupt sets now s =
     (let s = s\<lparr>lastCorruptionUnix := unix now\<rparr>;
          s = (if ResponsiveMode sets \<and> \<not> shieldActive s
               then let s = s\<lparr>staticCorruptionCount := wrap32 (staticCorruptionCount s + 1)\<rparr>
                    in if staticCorruptionCount s > 1
                       then s\<lparr>strictCycleCount := wrap32 (strictCycleCount s + 1), shieldActive := True\<rparr>
                       else s
               else s)
      in if staticCorruptionCount s \<ge> 1
         then if isWatchdogRunning s then s else s\<lparr>isWatchdogRunning := True, dogs := dogs s @ [Sleeping]\<rparr>
         else s)"

definition MarkNotComplete :: "btsets \<Rightarrow> int \<Rightarrow> nat \<Rightarrow> 'a mem_scheme \<Rightarrow> shield \<Rightarrow> 'a mem_scheme \<times> shield" where
  "MarkNotComplete sets now i m s =
     (let m = upd_obj i (\<lambda>p. p\<lparr>Complete := False\<rparr>) m
      in if buffer (objs m ! i) = None then (m, s) else (m, corrupt sets now s))"

text \<open>The clean time a watchdog waits for, in nanoseconds; \<^verbatim>\<open>30*cycle\<close> is an \<^verbatim>\<open>int32\<close> product.\<close>

definition cleanNeeded :: "int \<Rightarrow> int" where
  "cleanNeeded cycle =
     (let d = wrap32 (30 * cycle) * 10 ^ 9;
          d = (if d < 30 * 10 ^ 9 then 30 * 10 ^ 9 else d)
      in if d > strictEscalationCapSeconds * 10 ^ 9 then strictEscalationCapSeconds * 10 ^ 9 else d)"

definition dog_step :: "int \<Rightarrow> nat \<Rightarrow> shield \<Rightarrow> shield" where
  "dog_step now k s =
     (case dogs s ! k of
        Sleeping \<Rightarrow>
          if now - lastCorruptionUnix s * 10 ^ 9 > cleanNeeded (strictCycleCount s)
          then s\<lparr>shieldActive := False, dogs := (dogs s)[k := Lifted]\<rparr> else s
      | Lifted \<Rightarrow> s\<lparr>staticCorruptionCount := 0, dogs := (dogs s)[k := CountReset]\<rparr>
      | CountReset \<Rightarrow> s\<lparr>strictCycleCount := 0, dogs := (dogs s)[k := CycleReset]\<rparr>
      | CycleReset \<Rightarrow> s\<lparr>isWatchdogRunning := False, dogs := take k (dogs s) @ drop (Suc k) (dogs s)\<rparr>)"

text \<open>One round of a watchdog's loop with nothing else in between.\<close>

definition dog_round :: "int \<Rightarrow> nat \<Rightarrow> shield \<Rightarrow> shield" where
  "dog_round now k s =
     (let s = dog_step now k s
      in if dogs s ! k = Lifted then dog_step now k (dog_step now k (dog_step now k s)) else s)"

subsection \<open>Runs\<close>

text \<open>\<open>calm\<close>: rounds of watchdogs are not interrupted; \<open>racy\<close>: they are.\<close>

inductive calm :: "btsets \<Rightarrow> shield \<Rightarrow> bool" for sets :: btsets where
  calm_start: "calm sets shield0"
| calm_corrupt: "calm sets s \<Longrightarrow> calm sets (corrupt sets now s)"
| calm_reset: "calm sets s \<Longrightarrow> calm sets (ResetShield s)"
| calm_round: "calm sets s \<Longrightarrow> k < length (dogs s) \<Longrightarrow> calm sets (dog_round now k s)"

inductive racy :: "btsets \<Rightarrow> shield \<Rightarrow> bool" for sets :: btsets where
  racy_start: "racy sets shield0"
| racy_corrupt: "racy sets s \<Longrightarrow> racy sets (corrupt sets now s)"
| racy_reset: "racy sets s \<Longrightarrow> racy sets (ResetShield s)"
| racy_dog: "racy sets s \<Longrightarrow> k < length (dogs s) \<Longrightarrow> racy sets (dog_step now k s)"

subsection \<open>Proofs\<close>

lemma wrap32_id: "- (2 ^ 31) \<le> x \<Longrightarrow> x < 2 ^ 31 \<Longrightarrow> wrap32 x = x"
  by (simp add: wrap32_def)

text \<open>
  The clean streak a watchdog waits for is 30 seconds per cycle, at least 30 seconds and at most
  half an hour.
\<close>

theorem cleanNeeded_bounds:
  "30 * 10 ^ 9 \<le> cleanNeeded cycle \<and> cleanNeeded cycle \<le> 1800 * 10 ^ 9 \<and>
   (1 \<le> cycle \<and> cycle \<le> 2 ^ 26 \<longrightarrow> cleanNeeded cycle = min (30 * cycle) 1800 * 10 ^ 9)"
  by (auto simp: cleanNeeded_def strictEscalationCapSeconds_def wrap32_id min_def Let_def)

theorem cleanNeeded_bounds_witness: "cleanNeeded 3 = 90 * 10 ^ 9 \<and> cleanNeeded 100 = 1800 * 10 ^ 9"
  using cleanNeeded_bounds [of 3] cleanNeeded_bounds [of 100] by simp

definition calm_inv :: "shield \<Rightarrow> bool" where
  "calm_inv s \<longleftrightarrow> (shieldActive s \<or> staticCorruptionCount s \<noteq> 0 \<longrightarrow> isWatchdogRunning s) \<and>
     (isWatchdogRunning s \<longrightarrow> dogs s \<noteq> []) \<and> (\<forall>d \<in> set (dogs s). d = Sleeping) \<and>
     0 \<le> staticCorruptionCount s \<and> staticCorruptionCount s \<le> 2 \<and>
     (staticCorruptionCount s = 2 \<longrightarrow> shieldActive s)"

lemma dog_round_eq:
  assumes "k < length (dogs s)" and "dogs s ! k = Sleeping"
  shows "dog_round now k s =
    (if now - lastCorruptionUnix s * 10 ^ 9 > cleanNeeded (strictCycleCount s)
     then s\<lparr>shieldActive := False, staticCorruptionCount := 0, strictCycleCount := 0,
            isWatchdogRunning := False, dogs := take k (dogs s) @ drop (Suc k) (dogs s)\<rparr>
     else s)"
  using assms by (simp add: dog_round_def dog_step_def Let_def)

lemma calm_inv_corrupt: "calm_inv s \<Longrightarrow> calm_inv (corrupt sets now s)"
  by (auto simp: calm_inv_def corrupt_def Let_def wrap32_id)

lemma calm_inv: "calm sets s \<Longrightarrow> calm_inv s"
proof (induction rule: calm.induct)
  case (calm_round s k now)
  then have "dogs s ! k = Sleeping" by (simp add: calm_inv_def)
  with calm_round show ?case
    by (auto simp: calm_inv_def dog_round_eq dest: in_set_takeD in_set_dropD)
qed (simp_all add: calm_inv_corrupt, simp_all add: calm_inv_def shield0_def ResetShield_def)


abbreviation "sets1 \<equiv> sets0\<lparr>ResponsiveMode := True\<rparr>"


text \<open>
  Activation is delayed: the first corrupted piece after a quiet state keeps FAST mode and only
  starts a watchdog, the second one forces STRICT mode, and each activation raises the cycle count
  by one. A piece without data (an evicted one) never counts as corruption.
\<close>

theorem shield_delayed:
  fixes t1 t2 :: int
  assumes "\<not> shieldActive s" and "staticCorruptionCount s = 0" and "0 \<le> strictCycleCount s"
    and "strictCycleCount s < 2 ^ 30" and "ResponsiveMode sets"
  defines "s1 \<equiv> corrupt sets t1 s" and "s2 \<equiv> corrupt sets t2 (corrupt sets t1 s)"
  shows "IsResponsive sets s1 \<and> isWatchdogRunning s1 \<and> strictCycleCount s1 = strictCycleCount s \<and>
    \<not> IsResponsive sets s2 \<and> isWatchdogRunning s2 \<and> strictCycleCount s2 = strictCycleCount s + 1 \<and>
    (buffer (objs m ! i) = None \<longrightarrow> snd (MarkNotComplete sets t1 i m s) = s)"
proof -
  have b: "buffer (objs (upd_obj i (\<lambda>p. p\<lparr>Complete := False\<rparr>) m) ! i) = buffer (objs m ! i)"
    by (cases "i < length (objs m)") (simp_all add: upd_obj_def list_update_beyond)
  show ?thesis
    using assms(1-5) unfolding s1_def s2_def
    by (auto simp: corrupt_def IsResponsive_def MarkNotComplete_def b wrap32_id Let_def)
qed

theorem shield_delayed_witness:
  "IsResponsive sets1 (corrupt sets1 5 shield0) \<and> \<not> IsResponsive sets1 (corrupt sets1 6 (corrupt sets1 5 shield0))"
  using shield_delayed [of shield0 sets1 5 6 mem0 0] by (simp add: shield0_def)



end
