(* ===== verification/WebUi.thy ===== *)
theory WebUi
  imports Torrstor
begin

text \<open>
  Functions of the web interface, after
  \<^verbatim>\<open>src/server/web/pages/template/pages/static/js/main.c4612288.chunk.js\<close>. The file is one minified
  line; the names here are those of its sources. Modelled are the cache view of a torrent
  (\<^verbatim>\<open>useCreateCacheMap\<close>, \<^verbatim>\<open>getShortCacheMap\<close>, the colours of \<^verbatim>\<open>TorrentCache\<close>), which draws the state
  that \<open>GetState\<close> reports, and the choice of a player by file name (\<^verbatim>\<open>getExt\<close>, \<^verbatim>\<open>isFilePlayable\<close>,
  \<^verbatim>\<open>fileExtension\<close>, \<^verbatim>\<open>shouldUseGStreamerPlayer\<close>). Lower-casing a name follows the tables of
  Unicode and is a parameter.
\<close>

subsection \<open>Numbers\<close>

text \<open>The numbers that the cache view computes with; integers from the server are below \<open>2 ^ 53\<close> and exact.\<close>

datatype jsnum = Fin rat | Infinity | NegInfinity | NaN

definition js_div :: "int \<Rightarrow> int \<Rightarrow> jsnum" where
  "js_div a b =
     (if b \<noteq> 0 then Fin (fl (of_int a / of_int b))
      else if a > 0 then Infinity else if a < 0 then NegInfinity else NaN)"

fun js_times100 :: "jsnum \<Rightarrow> jsnum" where
  "js_times100 (Fin x) = Fin (fl (x * 100))"
| "js_times100 x = x"

text \<open>\<^verbatim>\<open>x || 0\<close>\<close>

fun or_zero :: "jsnum \<Rightarrow> jsnum" where
  "or_zero NaN = Fin 0"
| "or_zero x = x"

fun positive :: "jsnum \<Rightarrow> bool" where
  "positive (Fin x) = (0 < x)"
| "positive Infinity = True"
| "positive x = False"

fun below100 :: "jsnum \<Rightarrow> bool" where
  "below100 (Fin x) = (x < 100)"
| "below100 NegInfinity = True"
| "below100 x = False"

text \<open>The remainder \<^verbatim>\<open>%\<close> takes the sign of the dividend.\<close>

definition js_rem :: "int \<Rightarrow> int \<Rightarrow> int" where
  "js_rem a b = a - b * tdiv a b"

subsection \<open>The cache view\<close>

record block =
  b_id :: nat
  percentage :: jsnum
  priority :: int
  isReader :: bool
  isReaderRange :: bool

definition piece_at :: "nat \<Rightarrow> cache_state \<Rightarrow> item_state option" where
  "piece_at i st = find (\<lambda>p. it_Id p = i) (st_Pieces st)"

definition new_block :: "nat \<Rightarrow> item_state option \<Rightarrow> block" where
  "new_block i p = \<lparr>b_id = i,
     percentage = or_zero (case p of None \<Rightarrow> NaN | Some p \<Rightarrow> js_times100 (js_div (it_Size p) (it_Length p))),
     priority = (case p of None \<Rightarrow> 0 | Some p \<Rightarrow> it_Priority p),
     isReader = False, isReaderRange = False\<rparr>"

text \<open>A reader is reported as the first and last piece of its window and the piece at its position.\<close>

definition mark_reader :: "int \<times> int \<times> int \<Rightarrow> block \<Rightarrow> block" where
  "mark_reader r b =
     (case r of (start, fin, pos) \<Rightarrow>
        let i = int (b_id b);
            b = (if i = pos then b\<lparr>isReader := True\<rparr> else b)
        in if i \<ge> start \<and> i < fin then b\<lparr>isReaderRange := True\<rparr> else b)"

definition useCreateCacheMap :: "cache_state \<Rightarrow> block list" where
  "useCreateCacheMap st =
     map (\<lambda>i. fold mark_reader (st_Readers st) (new_block i (piece_at i st))) [0..<st_PiecesCount st]"

text \<open>\<open>None\<close> is an amount that is not finite.\<close>

definition preloadPiecesAmount :: "cache_state \<Rightarrow> int option" where
  "preloadPiecesAmount st =
     (case js_div (st_Capacity st) (st_PiecesLength st) of
        Fin q \<Rightarrow> Some \<lfloor>fl (q - 1) + 1 / 2\<rfloor>
      | _ \<Rightarrow> None)"

definition getFullAmountOfBlocks :: "int \<Rightarrow> int option \<Rightarrow> int" where
  "getFullAmountOfBlocks piecesInOneRow amount =
     (case amount of
        None \<Rightarrow> 0
      | Some a \<Rightarrow>
          if piecesInOneRow = 0 then 0
          else if js_rem a piecesInOneRow = 0 then a - 1
          else a + piecesInOneRow - js_rem a piecesInOneRow - 1)"

text \<open>The result \<open>None\<close> is the \<^verbatim>\<open>RangeError\<close> of \<^verbatim>\<open>new Array\<close>; a block \<open>None\<close> is the empty object.\<close>

definition getShortCacheMap :: "block list \<Rightarrow> int option \<Rightarrow> int \<Rightarrow> block option list option" where
  "getShortCacheMap cacheMap preload piecesInOneRow =
     (let kept = filter (\<lambda>b. positive (percentage b)) cacheMap;
          final = max (getFullAmountOfBlocks piecesInOneRow (Some (int (length kept))))
                      (getFullAmountOfBlocks piecesInOneRow preload);
          extra = final - int (length kept) + 1
      in if extra = 0 then Some (map Some kept)
         else if extra < 0 \<or> extra \<ge> 2 ^ 32 then None
         else Some (map Some kept @ replicate (nat extra) None))"

datatype fill_style = Gradient jsnum | CompleteFill | Background

definition fillStyle :: "block \<Rightarrow> fill_style" where
  "fillStyle b =
     (if positive (percentage b) \<and> below100 (percentage b) then Gradient (percentage b)
      else if percentage b = Fin 100 then CompleteFill else Background)"

datatype stroke_style = ReaderColor | CompleteColor | RangeColor | BorderColor

definition strokeStyle :: "block \<Rightarrow> stroke_style" where
  "strokeStyle b =
     (if isReader b then ReaderColor
      else if positive (percentage b) \<and> below100 (percentage b) \<or> percentage b = Fin 100 then CompleteColor
      else if isReaderRange b then RangeColor
      else BorderColor)"

subsection \<open>The choice of a player\<close>

fun js_split :: "char \<Rightarrow> string \<Rightarrow> string list" where
  "js_split c [] = [[]]"
| "js_split c (x # xs) =
     (if x = c then [] # js_split c xs
      else (x # hd (js_split c xs)) # tl (js_split c xs))"

fun lastIndexOf :: "char \<Rightarrow> string \<Rightarrow> nat option" where
  "lastIndexOf c [] = None"
| "lastIndexOf c (x # xs) =
     (case lastIndexOf c xs of
        Some i \<Rightarrow> Some (Suc i)
      | None \<Rightarrow> if x = c then Some 0 else None)"

definition fileExtension :: "(string \<Rightarrow> string) \<Rightarrow> string \<Rightarrow> string" where
  "fileExtension lower path =
     (let fileName = hd (js_split CHR ''?'' path)
      in case lastIndexOf CHR ''.'' fileName of
           None \<Rightarrow> ''''
         | Some dot \<Rightarrow> lower (drop (dot + 1) fileName))"

record gst_runtime =
  built_in :: bool
  TranscodeAVI :: "bool option"

definition shouldUseGStreamerPlayer :: "(string \<Rightarrow> string) \<Rightarrow> string \<Rightarrow> gst_runtime option \<Rightarrow> bool" where
  "shouldUseGStreamerPlayer lower path runtime =
     (case runtime of
        None \<Rightarrow> False
      | Some rt \<Rightarrow>
          if \<not> built_in rt then False
          else let ext = fileExtension lower path
               in if ext \<in> set [''mkv'', ''mk3d'', ''webm''] then True
                  else if ext = ''avi'' then TranscodeAVI rt = Some True
                  else False)"

definition getExt :: "(string \<Rightarrow> string) \<Rightarrow> string \<Rightarrow> string" where
  "getExt lower filename =
     (let ext = last (js_split CHR ''.'' filename)
      in if ext = filename then '''' else lower ext)"

definition playableExtList :: "string list" where
  "playableExtList = [''3g2'', ''3gp'', ''aaf'', ''asf'', ''avchd'', ''avi'', ''drc'', ''dv'', ''flv'',
     ''iso'', ''m2ts'', ''m2v'', ''m4p'', ''m4v'', ''mk3d'', ''mkv'', ''mng'', ''mov'', ''mp2'', ''mp4'',
     ''mpe'', ''mpeg'', ''mpg'', ''mpv'', ''mts'', ''mxf'', ''nsv'', ''ogv'', ''qt'', ''rm'', ''rmvb'',
     ''roq'', ''svi'', ''ts'', ''vob'', ''webm'', ''wmv'', ''yuv'', ''aac'', ''ac3'', ''aiff'', ''ape'',
     ''au'', ''dff'', ''dsf'', ''flac'', ''gsm'', ''it'', ''m3u'', ''m4a'', ''mid'', ''mod'', ''mp3'',
     ''mpa'', ''mpga'', ''oga'', ''ogg'', ''opus'', ''pls'', ''ra'', ''s3m'', ''sid'', ''spx'', ''wav'',
     ''weba'', ''wma'', ''wv'', ''wvc'', ''xm'']"

definition isFilePlayable :: "(string \<Rightarrow> string) \<Rightarrow> string \<Rightarrow> bool" where
  "isFilePlayable lower fileName \<longleftrightarrow> getExt lower fileName \<in> set playableExtList"

subsection \<open>File names\<close>

lemma js_split_ne [simp]: "js_split c xs \<noteq> []"
  by (cases xs) auto

lemma js_split_hd: "hd (js_split c xs) = takeWhile (\<lambda>x. x \<noteq> c) xs"
  by (induction xs) auto

lemma js_split_last: "last (js_split c xs) = (case lastIndexOf c xs of None \<Rightarrow> xs | Some i \<Rightarrow> drop (i + 1) xs)"
proof (induction xs)
  case (Cons x xs)
  have "tl (js_split c xs) = [] \<longleftrightarrow> lastIndexOf c xs = None"
    by (induction xs) (auto split: option.split)
  with Cons show ?case
    by (cases "js_split c xs") (auto split: option.splits if_splits)
qed simp

lemma lastIndexOf_bound: "lastIndexOf c xs = Some i \<Longrightarrow> i < length xs"
  by (induction xs arbitrary: i) (auto split: option.splits if_splits)

lemma getExt_fileExtension:
  assumes "CHR ''?'' \<notin> set path"
  shows "getExt lower path = fileExtension lower path"
proof -
  have q: "takeWhile (\<lambda>x. x \<noteq> CHR ''?'') path = path"
    by (rule takeWhile_eq_all_conv [THEN iffD2]) (use assms in blast)
  show ?thesis
  proof (cases "lastIndexOf CHR ''.'' path")
    case (Some i)
    have "length (drop (i + 1) path) \<noteq> length path"
      using lastIndexOf_bound [OF Some] by simp
    then have "drop (i + 1) path \<noteq> path"
      by (rule contrapos_nn) (rule arg_cong)
    then show ?thesis
      unfolding getExt_def fileExtension_def js_split_hd q js_split_last Let_def Some
      by (simp only: option.case if_False)
  next
    case None
    show ?thesis
      unfolding getExt_def fileExtension_def js_split_hd q js_split_last Let_def None
      by (simp only: option.case if_True refl)
  qed
qed

text \<open>
  Every file that would be played by the GStreamer player is one that the interface offers for
  playing, for file names without a question mark.
\<close>

theorem gstreamer_files_playable:
  assumes "shouldUseGStreamerPlayer lower path runtime" and "CHR ''?'' \<notin> set path"
  shows "isFilePlayable lower path \<and> (\<exists>rt. runtime = Some rt \<and> built_in rt)"
proof -
  obtain rt where rt: "runtime = Some rt" "built_in rt"
      "fileExtension lower path \<in> set [''mkv'', ''mk3d'', ''webm'', ''avi'']"
    using assms(1) unfolding shouldUseGStreamerPlayer_def Let_def
    by (cases runtime) (auto split: if_splits)
  have "set [''mkv'', ''mk3d'', ''webm'', ''avi''] \<subseteq> set playableExtList"
    by (simp add: playableExtList_def)
  then show ?thesis
    using rt unfolding isFilePlayable_def getExt_fileExtension [OF assms(2)] by blast
qed

theorem gstreamer_files_playable_witness:
  "isFilePlayable id ''a.b/film.mkv'' \<and> \<not> isFilePlayable id ''film.txt''"
  using gstreamer_files_playable [of id "''a.b/film.mkv''" "Some \<lparr>built_in = True, TranscodeAVI = None\<rparr>"]
  by (simp add: shouldUseGStreamerPlayer_def fileExtension_def isFilePlayable_def getExt_def playableExtList_def)

subsection \<open>Percentages\<close>

text \<open>For sizes up to \<open>2 ^ 40\<close> rounding does not blur the three cases the view distinguishes.\<close>

definition rate :: "int \<Rightarrow> int \<Rightarrow> rat" where
  "rate sz len = fl (fl (of_int sz / of_int len) * 100)"

lemma rate_full: "0 < len \<Longrightarrow> rate len len = 100"
  using fl_int [of 1] fl_int [of 100] by (simp add: rate_def)

lemma rate_partial:
  assumes "0 < sz" and "sz < len" and "len \<le> 2 ^ 40"
  shows "0 < rate sz len" and "rate sz len < 100"
proof -
  define q :: rat where "q = of_int sz / of_int len"
  define e :: rat where "e = 1 / 2 ^ qmin"
  have e: "e \<le> 1 / 2 ^ 100"
    using qmin_small by (simp add: e_def)
  have len: "of_int len \<le> (2 ^ 40 :: rat)" "0 < (of_int len :: rat)"
    using assms of_int_le_iff [of len "2 ^ 40", where ?'a = rat] by simp_all
  have inv: "1 / 2 ^ 40 \<le> 1 / (of_int len :: rat)"
    using len by (intro divide_left_mono) simp_all
  have s: "1 \<le> (of_int sz :: rat)" "of_int sz \<le> of_int len - (1 :: rat)"
    using assms(1,2) of_int_le_iff [of 1 sz, where ?'a = rat] of_int_le_iff [of sz "len - 1", where ?'a = rat]
    by simp_all
  have "1 / of_int len \<le> q"
    unfolding q_def by (rule divide_right_mono) (use s len in simp_all)
  moreover have "q \<le> (of_int len - 1) / of_int len"
    unfolding q_def by (rule divide_right_mono) (use s len in simp_all)
  moreover have "(of_int len - 1) / of_int len = 1 - 1 / (of_int len :: rat)"
    using len(2) by (simp add: diff_divide_distrib)
  ultimately have q: "1 / 2 ^ 40 \<le> q" "q \<le> 1 - 1 / 2 ^ 40"
    using inv by linarith+
  have f: "q * (1 - 1 / 2 ^ 53) - e \<le> fl q" "fl q \<le> q * (1 + 1 / 2 ^ 53) + e"
    using fl_ge [of q] fl_le [of q] q(1) by (simp_all add: e_def)
  then have fq: "1 / 2 ^ 41 \<le> fl q" "fl q \<le> 1 - 1 / 2 ^ 41"
    using q e by simp_all
  have g: "fl q * 100 * (1 - 1 / 2 ^ 53) - e \<le> fl (fl q * 100)"
      "fl (fl q * 100) \<le> fl q * 100 * (1 + 1 / 2 ^ 53) + e"
    using fl_ge [of "fl q * 100"] fl_le [of "fl q * 100"] fq(1) by (simp_all add: e_def)
  have r: "rate sz len = fl (fl q * 100)"
    by (simp add: rate_def q_def)
  show "0 < rate sz len"
    using g(1) fq e unfolding r by simp
  show "rate sz len < 100"
    using g(2) fq e unfolding r by simp
qed

subsection \<open>The blocks of the map\<close>

lemma mark_reader_simps [simp]:
  "b_id (mark_reader r b) = b_id b"
  "percentage (mark_reader r b) = percentage b"
  "isReader (mark_reader r b) \<longleftrightarrow> isReader b \<or> int (b_id b) = snd (snd r)"
  "isReaderRange (mark_reader r b) \<longleftrightarrow> isReaderRange b \<or> fst r \<le> int (b_id b) \<and> int (b_id b) < fst (snd r)"
  by (auto simp: mark_reader_def Let_def split: prod.split)

lemma fold_mark_reader:
  "b_id (fold mark_reader rs b) = b_id b"
  "percentage (fold mark_reader rs b) = percentage b"
  "isReader (fold mark_reader rs b) \<longleftrightarrow> isReader b \<or> (\<exists>r \<in> set rs. int (b_id b) = snd (snd r))"
  "isReaderRange (fold mark_reader rs b) \<longleftrightarrow>
     isReaderRange b \<or> (\<exists>r \<in> set rs. fst r \<le> int (b_id b) \<and> int (b_id b) < fst (snd r))"
  by (induction rs arbitrary: b) auto

lemma state_scan_items:
  "state_scan prio_of c is fill ps = (fill', ps') \<Longrightarrow>
     map (\<lambda>p. (it_Id p, it_Size p, it_Length p)) ps' =
     map (\<lambda>p. (it_Id p, it_Size p, it_Length p)) ps @
     map (\<lambda>i. (Id (objs c ! i), Size (objs c ! i), pieceLength c)) (filter (\<lambda>i. Size (objs c ! i) > 0) is)"
  by (induction "is" arbitrary: fill ps) (auto simp: Let_def split: if_splits)

lemma GetState_fields:
  assumes "GetState sets prio_of c = (st, c')"
  shows "st_PiecesCount st = pieceCount c" "st_PiecesLength st = pieceLength c" "st_Capacity st = capacity c"
    "pieces c = Some ps \<Longrightarrow> state_scan prio_of c ps 0 [] = (st_Filled st, st_Pieces st)"
  using assms by (auto simp: GetState_def Let_def split: prod.splits)

lemma find_Some_in: "find P xs = Some x \<Longrightarrow> x \<in> set xs \<and> P x"
  by (auto simp: find_Some_iff in_set_conv_nth)

text \<open>What the view finds about a piece in the reported state is the size the cache has for it.\<close>

lemma piece_at_GetState:
  assumes "cache_inv c" and "pieces c = Some ps" and "GetState sets prio_of c = (st, c')" and "i < pieceCount c"
  shows "case piece_at i st of None \<Rightarrow> Size (objs c ! i) \<le> 0
    | Some p \<Rightarrow> 0 < Size (objs c ! i) \<and> it_Size p = Size (objs c ! i) \<and> it_Length p = pieceLength c"
proof -
  have ids: "map Id (objs c) = [0..<pieceCount c]" "length (objs c) = pieceCount c" and ps: "set ps = {..<pieceCount c}"
    using assms(1,2) by (auto simp: cache_inv_def shape_inv_def mem_inv_def)
  have Id: "Id (objs c ! j) = j" if "j < pieceCount c" for j
    using ids that by (metis nth_map nth_upt add_0)
  let ?t = "\<lambda>p. (it_Id p, it_Size p, it_Length p)"
  have "map ?t (st_Pieces st) = map (\<lambda>i. (Id (objs c ! i), Size (objs c ! i), pieceLength c))
      (filter (\<lambda>i. Size (objs c ! i) > 0) ps)"
    using state_scan_items [OF GetState_fields(4) [OF assms(3,2)]] by simp
  then have "set (map ?t (st_Pieces st)) = set (map (\<lambda>i. (Id (objs c ! i), Size (objs c ! i), pieceLength c))
      (filter (\<lambda>i. Size (objs c ! i) > 0) ps))"
    by (rule arg_cong)
  then have t: "?t ` set (st_Pieces st) = (\<lambda>j. (j, Size (objs c ! j), pieceLength c)) ` {j. j < pieceCount c \<and> Size (objs c ! j) > 0}"
    using ps Id by (auto simp: image_iff)
  show ?thesis
  proof (cases "piece_at i st")
    case None
    then have "it_Id p \<noteq> i" if "p \<in> set (st_Pieces st)" for p
      using that by (auto simp: piece_at_def find_None_iff)
    then have "(i, Size (objs c ! i), pieceLength c) \<notin> ?t ` set (st_Pieces st)"
      by blast
    then show ?thesis
      unfolding t using None assms(4) by auto
  next
    case (Some p)
    then have "?t p \<in> ?t ` set (st_Pieces st)" "it_Id p = i"
      by (auto simp: piece_at_def dest: find_Some_in)
    then show ?thesis
      unfolding t using Some by auto
  qed
qed

text \<open>The three looks of a block, by the size of its piece.\<close>

lemma new_block_look:
  assumes "0 < len" "len \<le> 2 ^ 40" "0 \<le> sz" "sz \<le> len"
    and "percentage b = or_zero (if sz = 0 then NaN else js_times100 (js_div sz len))"
  shows "fillStyle b = CompleteFill \<longleftrightarrow> sz = len" "(\<exists>x. fillStyle b = Gradient x) \<longleftrightarrow> 0 < sz \<and> sz < len"
    "positive (percentage b) \<longleftrightarrow> 0 < sz"
proof -
  have p: "percentage b = Fin (if sz = 0 then 0 else rate sz len)"
    using assms by (simp add: js_div_def rate_def)
  consider "sz = 0" | "sz = len" "0 < sz" | "0 < sz" "sz < len"
    using assms(3,4) by linarith
  then have "(fillStyle b = CompleteFill \<longleftrightarrow> sz = len) \<and> ((\<exists>x. fillStyle b = Gradient x) \<longleftrightarrow> 0 < sz \<and> sz < len)
      \<and> (positive (percentage b) \<longleftrightarrow> 0 < sz)"
    using p assms(1,2) rate_full [of len] rate_partial [of sz len] by cases (simp_all add: fillStyle_def)
  then show "fillStyle b = CompleteFill \<longleftrightarrow> sz = len" "(\<exists>x. fillStyle b = Gradient x) \<longleftrightarrow> 0 < sz \<and> sz < len"
    "positive (percentage b) \<longleftrightarrow> 0 < sz"
    by blast+
qed

lemma useCreateCacheMap_nth:
  assumes "i < st_PiecesCount st"
  defines "b \<equiv> useCreateCacheMap st ! i"
  shows "b_id b = i" "percentage b = percentage (new_block i (piece_at i st))"
    "isReader b \<longleftrightarrow> (\<exists>r \<in> set (st_Readers st). int i = snd (snd r))"
    "isReaderRange b \<longleftrightarrow> (\<exists>r \<in> set (st_Readers st). fst r \<le> int i \<and> int i < fst (snd r))"
  using assms by (simp_all add: useCreateCacheMap_def fold_mark_reader) (simp_all add: new_block_def)

lemma useCreateCacheMap_length [simp]: "length (useCreateCacheMap st) = st_PiecesCount st"
  by (simp add: useCreateCacheMap_def)



subsection \<open>The short view\<close>

text \<open>The number of blocks in the rows that \<open>n\<close> blocks need.\<close>

definition whole_rows :: "int \<Rightarrow> int \<Rightarrow> int" where
  "whole_rows k n = (n + k - 1) div k * k"

lemma getFullAmountOfBlocks_eq:
  assumes "0 < k" and "0 \<le> n"
  shows "getFullAmountOfBlocks k (Some n) = whole_rows k n - 1"
proof -
  have r: "js_rem n k = n mod k"
    using assms by (simp add: js_rem_def tdiv_nonneg minus_mult_div_eq_mod)
  show ?thesis
  proof (cases "n mod k = 0")
    case True
    have "(n + k - 1) div k = n div k"
      by (rule int_div_pos_eq [of _ _ _ "k - 1"]) (use assms(1) True mult_div_mod_eq [of k n] in simp_all)
    then show ?thesis
      using True r assms(1) mult_div_mod_eq [of k n]
      by (simp add: getFullAmountOfBlocks_def whole_rows_def mult.commute)
  next
    case False
    have m: "0 \<le> n mod k" "n mod k < k"
      using assms(1) by simp_all
    have "(n + k - 1) div k = n div k + 1"
      by (rule int_div_pos_eq [of _ _ _ "n mod k - 1"])
        (use False m mult_div_mod_eq [of k n] in \<open>simp_all add: distrib_left\<close>)
    moreover have "k * (n div k + 1) = n - n mod k + k"
      by (simp add: distrib_left minus_mod_eq_mult_div)
    ultimately show ?thesis
      using False r assms(1)
      by (simp add: getFullAmountOfBlocks_def whole_rows_def mult.commute)
  qed
qed

lemma whole_rows_ge: "0 < k \<Longrightarrow> n \<le> whole_rows k n"
proof -
  assume "0 < k"
  then have "(n + k - 1) mod k \<le> k - 1"
    by simp
  then show ?thesis
    using div_mult_mod_eq [of "n + k - 1" k] unfolding whole_rows_def by linarith
qed

lemma whole_rows_dvd: "k dvd whole_rows k n"
  by (simp add: whole_rows_def)

text \<open>
  The short view of the cache shows every block that holds bytes, in order, followed by empty blocks
  up to the end of a row: whole rows, enough for the blocks and for the pieces that the capacity
  allows, and no more than that. It does not throw as long as a row holds a block.
\<close>

theorem short_view_whole_rows:
  assumes "0 < piecesInOneRow" and "0 \<le> preload" and "preload + piecesInOneRow < 2 ^ 32"
    and "int (length cacheMap) + piecesInOneRow < 2 ^ 32"
    and "kept = filter (\<lambda>b. positive (percentage b)) cacheMap"
  shows "\<exists>k. getShortCacheMap cacheMap (Some preload) piecesInOneRow = Some (map Some kept @ replicate k None)
    \<and> int (length kept + k) = max (whole_rows piecesInOneRow (int (length kept))) (whole_rows piecesInOneRow preload)
    \<and> piecesInOneRow dvd int (length kept + k)"
proof -
  let ?r = "piecesInOneRow" and ?n = "int (length kept)"
  define m where "m = max (whole_rows ?r ?n) (whole_rows ?r preload)"
  have n: "?n \<le> int (length cacheMap)"
    by (simp add: assms(5))
  have up: "whole_rows ?r x \<le> x + ?r - 1" for x
    unfolding whole_rows_def using assms(1) div_mult_mod_eq [of "x + ?r - 1" ?r] pos_mod_sign [of ?r "x + ?r - 1"]
    by linarith
  have m: "?n \<le> m" "m < 2 ^ 32" "?r dvd m"
    using whole_rows_ge [OF assms(1), of ?n] up [of ?n] up [of preload] n assms(3,4)
    by (auto simp: m_def max_def whole_rows_dvd)
  have "getFullAmountOfBlocks ?r (Some ?n) = whole_rows ?r ?n - 1"
      "getFullAmountOfBlocks ?r (Some preload) = whole_rows ?r preload - 1"
    using assms(1,2) by (simp_all add: getFullAmountOfBlocks_eq)
  then have "max (getFullAmountOfBlocks ?r (Some ?n)) (getFullAmountOfBlocks ?r (Some preload)) = m - 1"
    by (simp add: m_def max_def)
  then have "getShortCacheMap cacheMap (Some preload) ?r = Some (map Some kept @ replicate (nat (m - ?n)) None)"
    using m(1,2) by (simp add: getShortCacheMap_def Let_def assms(5))
  moreover have "int (length kept + nat (m - ?n)) = m"
    using m(1) by simp
  ultimately show ?thesis
    using m(3) m_def by metis
qed

theorem short_view_whole_rows_witness:
  "\<exists>k. getShortCacheMap [\<lparr>b_id = 1, percentage = Fin 100, priority = 0, isReader = False, isReaderRange = False\<rparr>] (Some 6) 5
     = Some (Some \<lparr>b_id = 1, percentage = Fin 100, priority = 0, isReader = False, isReaderRange = False\<rparr> # replicate k None) \<and> 1 + int k = 10"
  using short_view_whole_rows [of 5 6 "[\<lparr>b_id = 1, percentage = Fin 100, priority = 0, isReader = False, isReaderRange = False\<rparr>]", OF _ _ _ _ refl]
  by (simp add: whole_rows_def)

text \<open>Before the canvas has a width a row holds no block, and two blocks are enough for an exception.\<close>

lemma short_view_throws:
  assumes "2 \<le> length (filter (\<lambda>b. positive (percentage b)) cacheMap)"
  shows "getShortCacheMap cacheMap preload 0 = None"
  using assms by (simp add: getShortCacheMap_def getFullAmountOfBlocks_def Let_def split: option.split)

end
