(* ===== verification/Webpack.thy ===== *)
theory Webpack
  imports Prelude
begin

text \<open>
  The module loader of the web interface, after
  \<^verbatim>\<open>src/server/web/pages/template/pages/static/js/runtime-main.5ed86a79.js\<close>. The file is one
  minified line; the names here are those of the webpack bootstrap it was made from
  (\<^verbatim>\<open>r\<close> is \<^verbatim>\<open>webpackJsonpCallback\<close>, \<^verbatim>\<open>t\<close> is \<^verbatim>\<open>checkDeferredModules\<close>, \<^verbatim>\<open>l\<close> is
  \<^verbatim>\<open>__webpack_require__\<close>, \<^verbatim>\<open>e\<close>, \<^verbatim>\<open>n\<close>, \<^verbatim>\<open>o\<close>, \<^verbatim>\<open>u\<close> are the modules, the module cache, the
  chunks and the deferred entries). The functions of the modules are data of the loader, programs
  over what it hands to them: requiring a module (and catching its exception), reading another
  module's exports, defining getters on the own exports object or replacing it, throwing. Nothing
  in this runtime starts loading a chunk, so a chunk is installed (\<^verbatim>\<open>0\<close>) or absent and the
  list \<^verbatim>\<open>s\<close> of promises to resolve is always empty.
\<close>

subsection \<open>State\<close>

datatype 'v prog = Done | Throw
  | Require nat "bool \<Rightarrow> 'v prog"
  | Look nat string "'v option \<Rightarrow> 'v prog"
  | Define string 'v "'v prog"
  | MarkEs "'v prog"
  | Assign "(string \<times> 'v) list" "'v prog"

text \<open>\<open>exps\<close> and \<open>esModule\<close> describe the exports object the loader made, \<open>assigned\<close> what the module
  put in its place with \<^verbatim>\<open>module.exports = ...\<close>.\<close>

record 'v module =
  exps :: "(string \<times> 'v) list"
  esModule :: bool
  assigned :: "(string \<times> 'v) list option"
  loaded :: bool

text \<open>\<open>parent\<close> says whether \<^verbatim>\<open>p\<close>, the original \<^verbatim>\<open>push\<close>, is set; \<open>jsonp\<close> counts the chunks passed to it;
  \<open>startup\<close> is \<^verbatim>\<open>l.s\<close>. \<open>ran\<close> lists the modules whose functions were called, in order.\<close>

record 'v rt =
  mods :: "nat \<rightharpoonup> 'v prog"
  installedModules :: "nat \<rightharpoonup> 'v module"
  installedChunks :: "nat set"
  deferredModules :: "(nat \<times> nat list) list"
  parent :: bool
  jsonp :: nat
  startup :: "nat option"
  ran :: "nat list"

definition fresh_module :: "'v module" where
  "fresh_module = \<lparr>exps = [], esModule = False, assigned = None, loaded = False\<rparr>"

definition upd_module :: "nat \<Rightarrow> ('v module \<Rightarrow> 'v module) \<Rightarrow> 'v rt \<Rightarrow> 'v rt" where
  "upd_module r f s = s\<lparr>installedModules := (installedModules s)(r := map_option f (installedModules s r))\<rparr>"

text \<open>\<^verbatim>\<open>l(r).k\<close>, for a module that is in the cache.\<close>

definition export :: "nat \<Rightarrow> string \<Rightarrow> 'v rt \<Rightarrow> 'v option" where
  "export r k s =
     (case installedModules s r of
        None \<Rightarrow> None
      | Some m \<Rightarrow> map_of (case assigned m of None \<Rightarrow> exps m | Some e \<Rightarrow> e) k)"

subsection \<open>Requiring a module\<close>

text \<open>\<^verbatim>\<open>l.o\<close>, \<^verbatim>\<open>l.d\<close> and \<^verbatim>\<open>l.r\<close>: a getter that exists is not redefined.\<close>

definition has_own :: "string \<Rightarrow> 'v module \<Rightarrow> bool" where
  "has_own k m \<longleftrightarrow> k \<in> fst ` set (exps m)"

definition define_getter :: "string \<Rightarrow> 'v \<Rightarrow> 'v module \<Rightarrow> 'v module" where
  "define_getter k v m = (if \<not> has_own k m then m\<lparr>exps := exps m @ [(k, v)]\<rparr> else m)"

definition mark_es :: "'v module \<Rightarrow> 'v module" where
  "mark_es m = m\<lparr>esModule := True\<rparr>"

text \<open>
  \<open>run f m p s\<close> runs the rest \<open>p\<close> of module \<open>m\<close>'s function; the flag says that it returned
  (otherwise it threw), and \<open>None\<close> that the fuel ran out. \<open>webpack_require\<close> is
  \<^verbatim>\<open>__webpack_require__\<close>: calling the function of an unknown module throws.
\<close>

fun run :: "nat \<Rightarrow> nat \<Rightarrow> 'v prog \<Rightarrow> 'v rt \<Rightarrow> (bool \<times> 'v rt) option"
and webpack_require :: "nat \<Rightarrow> nat \<Rightarrow> 'v rt \<Rightarrow> (bool \<times> 'v rt) option" where
  "run 0 m p s = None"
| "run (Suc f) m Done s = Some (True, s)"
| "run (Suc f) m Throw s = Some (False, s)"
| "run (Suc f) m (Require r p) s =
     (case webpack_require f r s of
        None \<Rightarrow> None
      | Some (ok, s) \<Rightarrow> run f m (p ok) s)"
| "run (Suc f) m (Look r k p) s = run f m (p (export r k s)) s"
| "run (Suc f) m (Define k v p) s = run f m p (upd_module m (define_getter k v) s)"
| "run (Suc f) m (MarkEs p) s = run f m p (upd_module m mark_es s)"
| "run (Suc f) m (Assign e p) s = run f m p (upd_module m (assigned_update (\<lambda>_. Some e)) s)"
| "webpack_require 0 r s = None"
| "webpack_require (Suc f) r s =
     (if installedModules s r \<noteq> None then Some (True, s)
      else
        let s = s\<lparr>installedModules := (installedModules s)(r \<mapsto> fresh_module)\<rparr>
        in case mods s r of
             None \<Rightarrow> Some (False, s)
           | Some body \<Rightarrow>
               (case run f r body (s\<lparr>ran := ran s @ [r]\<rparr>) of
                  None \<Rightarrow> None
                | Some (ok, s) \<Rightarrow>
                    Some (if ok then (True, upd_module r (loaded_update (\<lambda>_. True)) s) else (False, s))))"

subsection \<open>Chunks and entries\<close>

text \<open>An entry is a module and the chunks it waits for.\<close>

definition fulfilled :: "nat set \<Rightarrow> nat \<times> nat list \<Rightarrow> bool" where
  "fulfilled installed d \<longleftrightarrow> (\<forall>c \<in> set (snd d). c \<in> installed)"

text \<open>The loop of \<^verbatim>\<open>checkDeferredModules\<close>: \<open>kept\<close> are the entries before the index, \<open>ds\<close> the others.\<close>

fun check_loop :: "nat \<Rightarrow> (nat \<times> nat list) list \<Rightarrow> (nat \<times> nat list) list \<Rightarrow> 'v rt \<Rightarrow>
    (bool \<times> 'v rt) option" where
  "check_loop f kept [] s = Some (True, s)"
| "check_loop f kept (d # ds) s =
     (if fulfilled (installedChunks s) d
      then case webpack_require f (fst d) (s\<lparr>deferredModules := kept @ ds, startup := Some (fst d)\<rparr>) of
             None \<Rightarrow> None
           | Some (ok, s) \<Rightarrow> if ok then check_loop f kept ds s else Some (False, s)
      else check_loop f (kept @ [d]) ds s)"

definition checkDeferredModules :: "nat \<Rightarrow> 'v rt \<Rightarrow> (bool \<times> 'v rt) option" where
  "checkDeferredModules f s = check_loop f [] (deferredModules s) s"

text \<open>What a chunk's file pushes: its chunk numbers, its modules, its entries.\<close>

type_synonym 'v chunk = "nat list \<times> (nat \<times> 'v prog) list \<times> (nat \<times> nat list) list option"

definition webpackJsonpCallback :: "nat \<Rightarrow> 'v chunk \<Rightarrow> 'v rt \<Rightarrow> (bool \<times> 'v rt) option" where
  "webpackJsonpCallback f dat s =
     (case dat of (chunkIds, moreModules, executeModules) \<Rightarrow>
        let s = s\<lparr>installedChunks := installedChunks s \<union> set chunkIds\<rparr>;
            s = s\<lparr>mods := mods s ++ map_of moreModules\<rparr>;
            s = (if parent s then s\<lparr>jsonp := jsonp s + 1\<rparr> else s);
            s = s\<lparr>deferredModules := deferredModules s @
                   (case executeModules of None \<Rightarrow> [] | Some ds \<Rightarrow> ds)\<rparr>
        in checkDeferredModules f s)"

text \<open>The start of the runtime: the chunks that arrived before it are replayed, then \<^verbatim>\<open>p\<close> is set.\<close>

definition rt0 :: "'v rt" where
  "rt0 = \<lparr>mods = Map.empty, installedModules = Map.empty, installedChunks = {1}, deferredModules = [],
     parent = False, jsonp = 0, startup = None, ran = []\<rparr>"

fun push_all :: "nat \<Rightarrow> 'v chunk list \<Rightarrow> 'v rt \<Rightarrow> (bool \<times> 'v rt) option" where
  "push_all f [] s = Some (True, s)"
| "push_all f (d # ds) s =
     (case webpackJsonpCallback f d s of
        None \<Rightarrow> None
      | Some (ok, s) \<Rightarrow> if ok then push_all f ds s else Some (False, s))"

definition bootstrap :: "nat \<Rightarrow> 'v chunk list \<Rightarrow> (bool \<times> 'v rt) option" where
  "bootstrap f early =
     (case push_all f early rt0 of
        None \<Rightarrow> None
      | Some (ok, s) \<Rightarrow> if ok then checkDeferredModules f (s\<lparr>parent := True\<rparr>) else Some (False, s))"

subsection \<open>What running modules leaves alone\<close>

definition cached :: "'v rt \<Rightarrow> nat set" where
  "cached s = {r. installedModules s r \<noteq> None}"

definition same_loader :: "'v rt \<Rightarrow> 'v rt \<Rightarrow> bool" where
  "same_loader s s' \<longleftrightarrow> mods s' = mods s \<and> installedChunks s' = installedChunks s
     \<and> deferredModules s' = deferredModules s \<and> parent s' = parent s \<and> jsonp s' = jsonp s
     \<and> startup s' = startup s \<and> cached s \<subseteq> cached s'"

definition once :: "'v rt \<Rightarrow> bool" where
  "once s \<longleftrightarrow> distinct (ran s) \<and> set (ran s) \<subseteq> cached s"

lemma same_loader_refl [simp]: "same_loader s s"
  by (simp add: same_loader_def)

lemma same_loader_trans [trans]: "same_loader s t \<Longrightarrow> same_loader t u \<Longrightarrow> same_loader s u"
  unfolding same_loader_def by (elim conjE) simp

lemma in_cached: "r \<in> cached s \<longleftrightarrow> installedModules s r \<noteq> None"
  by (simp add: cached_def)

lemma cached_simps [simp]:
  "cached (upd_module r f s) = cached s"
  "cached (s\<lparr>installedModules := (installedModules s)(r \<mapsto> m)\<rparr>) = insert r (cached s)"
  "cached (s\<lparr>deferredModules := l\<rparr>) = cached s"
  "cached (s\<lparr>startup := e\<rparr>) = cached s"
  "cached (s\<lparr>ran := l'\<rparr>) = cached s"
  by (auto simp: cached_def upd_module_def split: if_splits)

lemma upd_module_simps [simp]:
  "mods (upd_module r f s) = mods s"
  "installedChunks (upd_module r f s) = installedChunks s"
  "deferredModules (upd_module r f s) = deferredModules s"
  "parent (upd_module r f s) = parent s"
  "jsonp (upd_module r f s) = jsonp s"
  "startup (upd_module r f s) = startup s"
  "ran (upd_module r f s) = ran s"
  by (simp_all add: upd_module_def)

lemma same_loader_upd [simp]: "same_loader (upd_module r f s) s' = same_loader s s'"
    "same_loader s (upd_module r f s') = same_loader s s'"
  by (simp_all add: same_loader_def)

lemma once_upd [simp]: "once (upd_module r f s) = once s"
  by (simp add: once_def)

lemma same_loader_enter:
  "same_loader (s\<lparr>installedModules := (installedModules s)(r \<mapsto> m), ran := l\<rparr>) s' \<Longrightarrow>
     same_loader s s' \<and> r \<in> cached s'"
  by (auto simp: same_loader_def)

lemma once_enter:
  "once s \<Longrightarrow> r \<notin> cached s \<Longrightarrow>
     once (s\<lparr>installedModules := (installedModules s)(r \<mapsto> m), ran := ran s @ [r]\<rparr>)"
  by (auto simp: once_def)

lemma require_keeps:
  "run f m p s = Some (ok, s') \<Longrightarrow> same_loader s s' \<and> (once s \<longrightarrow> once s')"
  "webpack_require f r s = Some (ok, s') \<Longrightarrow>
     same_loader s s' \<and> (once s \<longrightarrow> once s') \<and> r \<in> cached s'"
proof (induction f m p s and f r s arbitrary: ok s' and ok s' rule: run_webpack_require.induct)
  case (4 f m r p s)
  then show ?case
    by (auto split: option.splits intro: same_loader_trans)
next
  case (10 f r s)
  show ?case
  proof (cases "r \<in> cached s")
    case False
    then have r: "installedModules s r = None"
      by (simp add: in_cached)
    let ?s = "s\<lparr>installedModules := (installedModules s)(r \<mapsto> fresh_module)\<rparr>"
    show ?thesis
    proof (cases "mods s r")
      case None
      then show ?thesis
        using 10(2) r by (auto simp: same_loader_def once_def)
    next
      case (Some body)
      then obtain o1 s1 where r1: "run f r body (?s\<lparr>ran := ran s @ [r]\<rparr>) = Some (o1, s1)"
          and s': "s' = s1 \<or> s' = upd_module r (loaded_update (\<lambda>_. True)) s1"
        using 10(2) r by (auto simp: Let_def split: option.splits prod.splits if_splits)
      have k: "same_loader (?s\<lparr>ran := ran s @ [r]\<rparr>) s1"
          "once (?s\<lparr>ran := ran s @ [r]\<rparr>) \<longrightarrow> once s1"
        using 10(1) [OF _ refl] Some r1 r by auto
      have "same_loader s s1 \<and> (once s \<longrightarrow> once s1) \<and> r \<in> cached s1"
        using same_loader_enter [OF k(1)] k(2) once_enter [OF _ False] by blast
      then show ?thesis
        using s' by (elim disjE) (simp_all only: same_loader_upd once_upd cached_simps, blast+)
    qed
  qed (use 10 in \<open>auto simp: in_cached\<close>)
qed auto

subsection \<open>Termination\<close>

text \<open>\<open>halts g\<close>: from some fuel on, \<open>g\<close> returns, always the same.\<close>

definition halts :: "(nat \<Rightarrow> (bool \<times> 'v rt) option) \<Rightarrow> bool" where
  "halts g \<longleftrightarrow> (\<exists>F r. \<forall>k. g (F + k) = Some r)"

lemma haltsI: "(\<And>k. g (Suc k) = Some r) \<Longrightarrow> halts g"
  unfolding halts_def by (intro exI [of _ 1] exI [of _ r]) simp

lemma halts_cong: "halts g \<Longrightarrow> (\<And>k. h (Suc k) = g k) \<Longrightarrow> halts h"
  unfolding halts_def by (elim exE, rule_tac x = "Suc F" in exI) simp

lemma halts_bind:
  assumes g: "halts g" and h: "\<And>f ok s. g f = Some (ok, s) \<Longrightarrow> halts (h ok s)"
  shows "halts (\<lambda>f. case g f of None \<Rightarrow> None | Some (ok, s) \<Rightarrow> h ok s f)"
proof -
  obtain F ok s where F: "\<And>k. g (F + k) = Some (ok, s)"
    using g by (auto simp: halts_def)
  obtain G r where G: "\<And>k. h ok s (G + k) = Some r"
    using h [OF F [of 0]] by (auto simp: halts_def)
  have "(case g (F + G + k) of None \<Rightarrow> None | Some (ok, s) \<Rightarrow> h ok s (F + G + k)) = Some r" for k
    using F [of "G + k"] G [of "F + k"] by (simp add: ac_simps)
  then show ?thesis
    unfolding halts_def by blast
qed

lemma halts_const: "halts (\<lambda>f. Some r)"
  by (auto simp: halts_def)

definition left :: "'v rt \<Rightarrow> nat" where
  "left s = card (dom (mods s) - cached s)"

lemma left_mono: "finite (dom (mods s)) \<Longrightarrow> same_loader s s' \<Longrightarrow> left s' \<le> left s"
  unfolding left_def same_loader_def by (auto intro!: card_mono)

lemma left_enter:
  assumes "finite (dom (mods s))" "mods s r = Some body" "r \<notin> cached s"
  shows "left (s\<lparr>installedModules := (installedModules s)(r \<mapsto> m), ran := l\<rparr>) < left s"
  unfolding left_def by (rule psubset_card_mono) (use assms in auto)

lemma require_halts:
  fixes s :: "'v rt"
  assumes sm: "\<And>(t :: 'v rt) m p. left t < left s \<Longrightarrow> finite (dom (mods t)) \<Longrightarrow> halts (\<lambda>f. run f m p t)"
    and fin: "finite (dom (mods s))"
  shows "halts (\<lambda>f. webpack_require f r s)"
proof (cases "r \<in> cached s")
  case False
  let ?t = "s\<lparr>installedModules := (installedModules s)(r \<mapsto> fresh_module), ran := ran s @ [r]\<rparr>"
  show ?thesis
  proof (cases "mods s r")
    case (Some body)
    have "halts (\<lambda>f. run f r body ?t)"
      by (rule sm) (use left_enter [OF fin Some False] fin in auto)
    then have "halts (\<lambda>f. case run f r body ?t of None \<Rightarrow> None | Some (ok, s) \<Rightarrow>
        Some (if ok then (True, upd_module r (loaded_update (\<lambda>_. True)) s) else (False, s)))"
      by (rule halts_bind) (rule halts_const)
    then show ?thesis
      by (rule halts_cong) (use False Some in \<open>simp add: in_cached\<close>)
  next
    case None
    show ?thesis
      by (rule haltsI) (use False None in \<open>simp add: in_cached\<close>)
  qed
next
  case True
  then show ?thesis
    by (intro haltsI) (simp add: in_cached)
qed

lemma left_upd [simp]: "left (upd_module r g s) = left s"
  by (simp add: left_def)

lemma run_halts: "finite (dom (mods s)) \<Longrightarrow> left s \<le> n \<Longrightarrow> halts (\<lambda>f. run f m p s)"
proof (induction n arbitrary: s m p rule: less_induct)
  case (less n)
  show ?case
    using less(2,3)
  proof (induction p arbitrary: s)
    case (Require r p)
    have "halts (\<lambda>f. webpack_require f r s)"
      by (rule require_halts) (use less(1) [OF _ _ order_refl] Require(3) in \<open>auto intro: Require(2)\<close>)
    then have "halts (\<lambda>f. case webpack_require f r s of None \<Rightarrow> None | Some (ok, s) \<Rightarrow> run f m (p ok) s)"
    proof (rule halts_bind)
      fix f ok s'
      assume "webpack_require f r s = Some (ok, s')"
      then have k: "same_loader s s'"
        by (rule require_keeps(2) [THEN conjunct1])
      then show "halts (\<lambda>f. run f m (p ok) s')"
        using Require left_mono [OF _ k] by (intro Require.IH) (auto simp: same_loader_def)
    qed
    then show ?case
      by (rule halts_cong) simp
  next
    case Done
    show ?case
      by (rule haltsI) simp
  next
    case Throw
    show ?case
      by (rule haltsI) simp
  next
    case (Look r k p)
    show ?case
      by (rule halts_cong [OF Look(1) [OF rangeI Look(2,3)]]) simp
  next
    case (Define k v p)
    show ?case
      by (rule halts_cong [OF Define(1) [of "upd_module m (define_getter k v) s"]]) (use Define(2,3) in simp_all)
  next
    case (MarkEs p)
    show ?case
      by (rule halts_cong [OF MarkEs(1) [of "upd_module m mark_es s"]]) (use MarkEs(2,3) in simp_all)
  next
    case (Assign e p)
    show ?case
      by (rule halts_cong [OF Assign(1) [of "upd_module m (assigned_update (\<lambda>_. Some e)) s"]]) (use Assign(2,3) in simp_all)
  qed
qed

lemma webpack_require_halts: "finite (dom (mods s)) \<Longrightarrow> halts (\<lambda>f. webpack_require f r s)"
  by (rule require_halts) (auto intro: run_halts)

lemma check_loop_halts: "finite (dom (mods s)) \<Longrightarrow> halts (\<lambda>f. check_loop f kept ds s)"
proof (induction ds arbitrary: kept s)
  case (Cons d ds)
  let ?t = "s\<lparr>deferredModules := kept @ ds, startup := Some (fst d)\<rparr>"
  show ?case
  proof (cases "fulfilled (installedChunks s) d")
    case True
    have "halts (\<lambda>f. case webpack_require f (fst d) ?t of None \<Rightarrow> None
        | Some (ok, s) \<Rightarrow> if ok then check_loop f kept ds s else Some (False, s))"
    proof (rule halts_bind)
      show "halts (\<lambda>f. webpack_require f (fst d) ?t)"
        using Cons(2) by (intro webpack_require_halts) simp
      fix f ok s'
      assume "webpack_require f (fst d) ?t = Some (ok, s')"
      then have "same_loader ?t s'"
        by (rule require_keeps(2) [THEN conjunct1])
      then have "finite (dom (mods s'))"
        using Cons(2) by (simp add: same_loader_def)
      then show "halts (\<lambda>f. if ok then check_loop f kept ds s' else Some (False, s'))"
        using Cons(1) halts_const by (cases ok) auto
    qed
    then show ?thesis
      by (simp add: True)
  qed (use Cons in simp)
qed (simp add: halts_const)

subsection \<open>The loop over the entries\<close>

text \<open>One require of the loop, and then what is known after the loop, whether it returned or threw.\<close>

lemma require_entry:
  assumes "webpack_require f (fst d) (s\<lparr>deferredModules := l, startup := Some (fst d)\<rparr>) = Some (ok, s')"
  shows "mods s' = mods s" "installedChunks s' = installedChunks s" "parent s' = parent s"
    "jsonp s' = jsonp s" "deferredModules s' = l" "cached s \<subseteq> cached s'"
    "once s \<Longrightarrow> once s'" "fst d \<in> cached s'"
  using require_keeps(2) [OF assms] by (simp_all add: same_loader_def once_def)

lemma check_loop_keeps:
  "check_loop f kept ds s = Some (ok, s') \<Longrightarrow>
     mods s' = mods s \<and> installedChunks s' = installedChunks s \<and> parent s' = parent s
     \<and> jsonp s' = jsonp s \<and> (once s \<longrightarrow> once s') \<and> cached s \<subseteq> cached s'"
proof (induction f kept ds s rule: check_loop.induct)
  case (2 f kept d ds s)
  show ?case
  proof (cases "fulfilled (installedChunks s) d")
    case True
    obtain o1 s1 where r: "webpack_require f (fst d) (s\<lparr>deferredModules := kept @ ds, startup := Some (fst d)\<rparr>) = Some (o1, s1)"
        and s': "if o1 then check_loop f kept ds s1 = Some (ok, s') else s' = s1"
      using 2(3) True by (auto split: option.splits if_splits)
    show ?thesis
      using s' 2(1) [OF True r refl] require_entry [OF r] by (cases o1) auto
  qed (use 2 in simp)
qed simp

lemma check_loop_kept:
  "check_loop f kept ds s = Some (ok, s') \<Longrightarrow> deferredModules s = kept @ ds \<Longrightarrow>
     (\<exists>l. deferredModules s' = kept @ l
        \<and> (\<forall>d \<in> set ds. d \<in> set l \<or> fst d \<in> cached s')
        \<and> (ok \<longrightarrow> l = filter (\<lambda>d. \<not> fulfilled (installedChunks s) d) ds))"
proof (induction f kept ds s rule: check_loop.induct)
  case (2 f kept d ds s)
  show ?case
  proof (cases "fulfilled (installedChunks s) d")
    case True
    obtain o1 s1 where r: "webpack_require f (fst d) (s\<lparr>deferredModules := kept @ ds, startup := Some (fst d)\<rparr>) = Some (o1, s1)"
        and s': "if o1 then check_loop f kept ds s1 = Some (ok, s') else \<not> ok \<and> s' = s1"
      using 2(3) True by (auto split: option.splits if_splits)
    note k = require_entry [OF r]
    show ?thesis
    proof (cases o1)
      case o1: True
      then obtain l where "deferredModules s' = kept @ l"
          "\<forall>d \<in> set ds. d \<in> set l \<or> fst d \<in> cached s'"
          "ok \<longrightarrow> l = filter (\<lambda>d. \<not> fulfilled (installedChunks s) d) ds"
        using 2(1) [OF True r refl o1] s' k by auto
      moreover have "fst d \<in> cached s'"
        using check_loop_keeps [of f kept ds s1 ok s'] s' o1 k(8) by auto
      ultimately show ?thesis
        using True by (intro exI [of _ l]) simp
    next
      case False
      then show ?thesis
        using s' k(5,8) by (intro exI [of _ ds]) simp
    qed
  next
    case False
    then obtain l where "deferredModules s' = (kept @ [d]) @ l"
        "\<forall>d \<in> set ds. d \<in> set l \<or> fst d \<in> cached s'"
        "ok \<longrightarrow> l = filter (\<lambda>d. \<not> fulfilled (installedChunks s) d) ds"
      using 2 by (auto simp del: append_assoc)
    then show ?thesis
      using False by (intro exI [of _ "d # l"]) simp
  qed
qed simp

lemma check_loop_idle:
  "(\<And>d. d \<in> set ds \<Longrightarrow> \<not> fulfilled (installedChunks s) d) \<Longrightarrow> check_loop f kept ds s = Some (True, s)"
  by (induction ds arbitrary: kept) auto

subsection \<open>The loader as a whole\<close>

text \<open>The state after \<^verbatim>\<open>webpackJsonpCallback\<close> has taken a chunk in, before it checks the entries.\<close>

definition taken :: "'v chunk \<Rightarrow> 'v rt \<Rightarrow> 'v rt" where
  "taken dat s = s\<lparr>installedChunks := installedChunks s \<union> set (fst dat),
     mods := mods s ++ map_of (fst (snd dat)),
     jsonp := (if parent s then jsonp s + 1 else jsonp s),
     deferredModules := deferredModules s @ (case snd (snd dat) of None \<Rightarrow> [] | Some ds \<Rightarrow> ds)\<rparr>"

lemma webpackJsonpCallback_taken: "webpackJsonpCallback f dat s = checkDeferredModules f (taken dat s)"
  by (cases s) (simp add: webpackJsonpCallback_def taken_def Let_def split: prod.split)

lemma taken_simps [simp]:
  "installedChunks (taken dat s) = installedChunks s \<union> set (fst dat)"
  "mods (taken dat s) = mods s ++ map_of (fst (snd dat))"
  "deferredModules (taken dat s) = deferredModules s @ (case snd (snd dat) of None \<Rightarrow> [] | Some ds \<Rightarrow> ds)"
  "cached (taken dat s) = cached s"
  "once (taken dat s) = once s"
  "parent (taken dat s) = parent s"
  by (simp_all add: taken_def cached_def once_def)

text \<open>The states of the loader: chunks are pushed, in any order and at any time, before and after the
  runtime has set \<^verbatim>\<open>p\<close> and checked the entries; a push may throw.\<close>

inductive loader :: "'v rt \<Rightarrow> bool" where
  start: "loader rt0"
| push: "loader s \<Longrightarrow> webpackJsonpCallback f dat s = Some (ok, s') \<Longrightarrow> loader s'"
| ready: "loader s \<Longrightarrow> checkDeferredModules f (s\<lparr>parent := True\<rparr>) = Some (ok, s') \<Longrightarrow> loader s'"

definition loader_inv :: "'v rt \<Rightarrow> bool" where
  "loader_inv s \<longleftrightarrow> once s \<and> finite (dom (mods s))"

lemma loader_inv_check:
  "checkDeferredModules f s = Some (ok, s') \<Longrightarrow> loader_inv s \<Longrightarrow> loader_inv s'"
  using check_loop_keeps [of f "[]" "deferredModules s" s ok s']
  by (simp add: checkDeferredModules_def loader_inv_def)

lemma loader_inv: "loader s \<Longrightarrow> loader_inv s"
proof (induction rule: loader.induct)
  case start
  show ?case
    by (simp add: loader_inv_def once_def rt0_def)
next
  case (push s f dat ok s')
  then show ?case
    by (intro loader_inv_check [of f "taken dat s" ok s'])
      (auto simp: webpackJsonpCallback_taken loader_inv_def finite_dom_map_of)
next
  case (ready s f ok s')
  then show ?case
    by (intro loader_inv_check [of f "s\<lparr>parent := True\<rparr>" ok s']) (auto simp: loader_inv_def once_def cached_def)
qed

lemma loader_push_all: "push_all f ds s = Some (ok, s') \<Longrightarrow> loader s \<Longrightarrow> loader s'"
  by (induction ds arbitrary: s) (auto split: option.splits if_splits dest: loader.push [rotated])

lemma loader_bootstrap: "bootstrap f early = Some (ok, s) \<Longrightarrow> loader s"
  by (auto simp: bootstrap_def split: option.splits if_splits
      dest!: loader_push_all [OF _ loader.start] dest: loader.ready [rotated])

lemma callback_halts: "loader s \<Longrightarrow> halts (\<lambda>f. webpackJsonpCallback f dat s)"
  using loader_inv [of s] unfolding webpackJsonpCallback_taken checkDeferredModules_def
  by (intro check_loop_halts) (simp add: loader_inv_def finite_dom_map_of)

lemma push_all_halts: "loader s \<Longrightarrow> halts (\<lambda>f. push_all f ds s)"
proof (induction ds arbitrary: s)
  case (Cons d ds)
  have "halts (\<lambda>f. case webpackJsonpCallback f d s of None \<Rightarrow> None
      | Some (ok, s) \<Rightarrow> if ok then push_all f ds s else Some (False, s))"
  proof (rule halts_bind [OF callback_halts [OF Cons(2)]])
    fix f ok s'
    assume "webpackJsonpCallback f d s = Some (ok, s')"
    then show "halts (\<lambda>f. if ok then push_all f ds s' else Some (False, s'))"
      using loader.push [OF Cons(2)] Cons(1) halts_const by (cases ok) auto
  qed
  then show ?case
    by simp
qed (simp add: halts_const)

lemma bootstrap_halts:
  fixes early :: "'v chunk list"
  shows "halts (\<lambda>f. bootstrap f early)"
  unfolding bootstrap_def
proof (rule halts_bind [OF push_all_halts [OF loader.start]])
  fix f ok and s :: "'v rt"
  assume "push_all f early rt0 = Some (ok, s)"
  then have "loader s"
    by (rule loader_push_all [OF _ loader.start])
  then have "finite (dom (mods s))"
    using loader_inv [of s] by (simp add: loader_inv_def)
  then have "halts (\<lambda>f. checkDeferredModules f (s\<lparr>parent := True\<rparr>))"
    unfolding checkDeferredModules_def by (intro check_loop_halts) simp
  then show "halts (\<lambda>f. if ok then checkDeferredModules f (s\<lparr>parent := True\<rparr>) else Some (False, s))"
    using halts_const by (cases ok) auto
qed

text \<open>A small application: a vendor chunk with one module, and the main chunk whose entry needs it.\<close>

abbreviation vendor_chunk :: "nat chunk" where
  "vendor_chunk \<equiv> ([2], [(5, Define ''a'' 9 Done)], None)"

abbreviation main_chunk :: "nat chunk" where
  "main_chunk \<equiv> ([0], [(7, Require 5 (\<lambda>ok. Look 5 ''a'' (\<lambda>v. case v of None \<Rightarrow> Throw | Some x \<Rightarrow> Define ''b'' x Done)))],
     Some [(7, [1, 2])])"

lemmas loader_eval = bootstrap_def rt0_def webpackJsonpCallback_def checkDeferredModules_def Let_def
  fulfilled_def upd_module_def export_def define_getter_def has_own_def fresh_module_def eval_nat_numeral

lemma demo_loaded:
  "\<exists>s. bootstrap 9 [vendor_chunk, main_chunk] = Some (True, s) \<and> ran s = [7, 5] \<and> export 7 ''b'' s = Some 9"
  by (simp add: loader_eval)

subsection \<open>Properties\<close>

text \<open>
  C16. The function of a module runs at most once in the life of the page, whatever chunks are pushed in
  whatever order, also when modules require each other in a circle, throw, or are contained in several
  chunks: a module that was entered is in the cache and is never entered again.
\<close>

theorem module_runs_once:
  assumes "loader s"
  shows "distinct (ran s) \<and> set (ran s) \<subseteq> cached s
    \<and> (r \<in> set (ran s) \<longrightarrow> webpack_require (Suc f) r s = Some (True, s))"
  using loader_inv [OF assms] by (auto simp: loader_inv_def once_def in_cached)

theorem module_runs_once_witness:
  "\<exists>s. bootstrap 9 [vendor_chunk, main_chunk] = Some (True, s) \<and> distinct (ran s)
     \<and> webpack_require 1 5 s = Some (True, s)"
proof -
  obtain s where b: "bootstrap 9 [vendor_chunk, main_chunk] = Some (True, s)" "ran s = [7, 5]"
    using demo_loaded by blast
  show ?thesis
    using module_runs_once [OF loader_bootstrap [OF b(1)], of 5 0] b by (intro exI [of _ s]) simp
qed

text \<open>
  C18. The loader always comes to an end: with enough fuel the start of the runtime and every push of a
  chunk return (or throw), however the modules require each other, since a module that was entered is
  not entered again.
\<close>

theorem loader_terminates:
  assumes "loader s"
  shows "(\<exists>F r. \<forall>k. webpackJsonpCallback (F + k) dat s = Some r)
    \<and> (\<exists>F r. \<forall>k. bootstrap (F + k) early = Some r)"
  using callback_halts [OF assms] bootstrap_halts by (auto simp: halts_def)

theorem loader_terminates_witness:
  "\<exists>F r. \<forall>k. webpackJsonpCallback (F + k) main_chunk rt0 = Some r"
  by (rule loader_terminates [OF loader.start, THEN conjunct1])

text \<open>
  A push installs its chunks and modules even if it throws, and loses no entry: afterwards every
  entry still waits or its module is in the cache, and after a push that did not throw exactly the
  entries wait that lack a chunk, in their order.
\<close>

theorem push_entries:
  assumes "webpackJsonpCallback f (cs, ms, es) s = Some (ok, s')"
    and "waiting = deferredModules s @ (case es of None \<Rightarrow> [] | Some ds \<Rightarrow> ds)"
  shows "installedChunks s' = installedChunks s \<union> set cs \<and> mods s' = mods s ++ map_of ms
    \<and> (\<forall>d \<in> set waiting. d \<in> set (deferredModules s') \<or> fst d \<in> cached s')
    \<and> (ok \<longrightarrow> deferredModules s' = filter (\<lambda>d. \<not> fulfilled (installedChunks s') d) waiting)"
proof -
  have c: "check_loop f [] waiting (taken (cs, ms, es) s) = Some (ok, s')"
    using assms by (simp add: webpackJsonpCallback_taken checkDeferredModules_def)
  show ?thesis
    using check_loop_keeps [OF c] check_loop_kept [OF c] assms(2) by auto
qed

theorem push_entries_witness:
  "\<exists>s. webpackJsonpCallback 3 main_chunk rt0 = Some (True, s) \<and> deferredModules s = [(7, [1, 2])]"
proof -
  obtain s where s: "webpackJsonpCallback 3 main_chunk rt0 = Some (True, s)"
    by (simp add: rt0_def webpackJsonpCallback_def checkDeferredModules_def Let_def fulfilled_def)
  have "deferredModules s = [(7, [1, 2])]"
    using push_entries [OF s refl] by (simp add: rt0_def fulfilled_def)
  then show ?thesis
    using s by blast
qed

text \<open>
  The order in which the two files of the application arrive does not matter: a chunk without
  entries and a chunk whose entries all wait for it give the same state and the same order of
  execution either way round, if no module is in both.
\<close>

theorem chunk_order:
  assumes "deferredModules s = []" and "dom (map_of vs) \<inter> dom (map_of ms) = {}"
    and "\<And>d. d \<in> set es \<Longrightarrow> \<not> set (snd d) \<subseteq> installedChunks s \<union> set mc"
  shows "push_all f [(vc, vs, None), (mc, ms, Some es)] s = push_all f [(mc, ms, Some es), (vc, vs, None)] s"
proof -
  let ?v = "(vc, vs, None)" and ?m = "(mc, ms, Some es)"
  have v: "webpackJsonpCallback f ?v s = Some (True, taken ?v s)"
    using assms(1) by (simp add: webpackJsonpCallback_taken checkDeferredModules_def)
  have m: "webpackJsonpCallback f ?m s = Some (True, taken ?m s)"
    unfolding webpackJsonpCallback_taken checkDeferredModules_def
    by (rule check_loop_idle) (use assms(1,3) in \<open>auto simp: fulfilled_def\<close>)
  have "mods s ++ map_of vs ++ map_of ms = mods s ++ map_of ms ++ map_of vs"
    by (metis assms(2) map_add_assoc map_add_comm)
  then have "taken ?m (taken ?v s) = taken ?v (taken ?m s)"
    using assms(1) by (simp add: taken_def Un_ac)
  then show ?thesis
    using v m by (simp add: webpackJsonpCallback_taken)
qed

theorem chunk_order_witness:
  "push_all 9 [vendor_chunk, main_chunk] rt0 = push_all 9 [main_chunk, vendor_chunk] rt0"
  by (rule chunk_order) (auto simp: rt0_def)

end
