(* ===== verification/Decimal.thy ===== *)
theory Decimal
  imports Prelude
begin

text \<open>
  Decimal notation as both languages print it (\<^verbatim>\<open>strconv.FormatInt\<close>, \<^verbatim>\<open>'' + n\<close>), as bytes, and the value of
  a sequence of digits.
\<close>

text \<open>A string literal of the source as its bytes.\<close>

definition ascii :: "string \<Rightarrow> byte list" where
  "ascii s = map (\<lambda>c. of_nat (of_char c)) s"

fun digits :: "nat \<Rightarrow> byte list" where
  "digits n = (if n < 10 then [48 + of_nat n] else digits (n div 10) @ [48 + of_nat (n mod 10)])"

declare digits.simps [simp del]

definition show_int :: "int \<Rightarrow> byte list" where
  "show_int n = (if n < 0 then 45 # digits (nat (- n)) else digits (nat n))"

definition digit :: "byte \<Rightarrow> bool" where
  "digit b \<longleftrightarrow> 48 \<le> b \<and> b < 58"

definition value_of :: "byte list \<Rightarrow> int" where
  "value_of bs = fold (\<lambda>b a. a * 10 + (uint b - 48)) bs 0"

lemma digit_of_nat: "n < 10 \<Longrightarrow> digit (48 + of_nat n)" "n < 10 \<Longrightarrow> uint (48 + of_nat n :: byte) = 48 + int n"
proof -
  assume "n < 10"
  then have "n = 0 \<or> n = 1 \<or> n = 2 \<or> n = 3 \<or> n = 4 \<or> n = 5 \<or> n = 6 \<or> n = 7 \<or> n = 8 \<or> n = 9"
    by arith
  then show "digit (48 + of_nat n)" "uint (48 + of_nat n :: byte) = 48 + int n"
    by (auto simp: digit_def)
qed

lemma digits_digit: "b \<in> set (digits n) \<Longrightarrow> digit b"
  by (induction n rule: digits.induct) (subst (asm) (2) digits.simps, auto split: if_splits simp: digit_of_nat)

lemma digits_ne: "digits n \<noteq> []"
  by (subst digits.simps) simp

lemma value_of_digits: "value_of (digits n) = int n"
proof (induction n rule: digits.induct)
  case (1 n)
  show ?case
  proof (cases "n < 10")
    case True
    then show ?thesis
      by (subst digits.simps) (use digit_of_nat(2) [of n] in \<open>simp add: value_of_def\<close>)
  next
    case False
    have "value_of (digits n) = value_of (digits (n div 10)) * 10 + int (n mod 10)"
      by (subst digits.simps) (use False digit_of_nat(2) [of "n mod 10"] in \<open>simp add: value_of_def\<close>)
    then show ?thesis
      using 1 [OF False] by (simp add: zdiv_int zmod_int)
  qed
qed

lemma value_of_snoc_mono:
  "\<forall>b \<in> set bs. digit b \<Longrightarrow> 0 \<le> a \<Longrightarrow> a \<le> fold (\<lambda>b a. a * 10 + (uint b - 48)) bs a"
proof (induction bs arbitrary: a)
  case (Cons b bs)
  have "48 \<le> uint b"
    using Cons.prems(1) by (simp add: digit_def word_le_def)
  then show ?case
    using Cons.IH [of "a * 10 + (uint b - 48)"] Cons.prems by simp
qed simp

lemma digit_other: "digit b \<Longrightarrow> b \<notin> {58, 100, 101, 105, 108}"
  by (auto simp: digit_def)

lemma show_int_other: "101 \<notin> set (show_int n)"
  using digits_digit digit_other by (auto simp: show_int_def)

end
