(* ===== verification/Bencode.thy ===== *)
theory Bencode
  imports Float64 Decimal
begin

text \<open>
  The bencode codec with which the web interface reads torrent files (\<^verbatim>\<open>parseTorrent\<close> in the dialog that
  adds a torrent), after \<^verbatim>\<open>src/server/web/pages/template/pages/static/js/2.f454f580.chunk.js\<close>, a bundle
  of packages on one minified line; the names here are those of \<^verbatim>\<open>bencode/lib/encode.js\<close> and
  \<^verbatim>\<open>bencode/lib/decode.js\<close>. A string is represented by its UTF-8 bytes; \<open>utf8\<close> is what decoding bytes as
  UTF-8 makes of them (\<^verbatim>\<open>Buffer.toString\<close>) and \<open>lt\<close> the order of \<^verbatim>\<open>Array.sort\<close> on strings, both
  parameters. Numbers to encode are integers below \<open>2 ^ 53\<close> (larger ones are printed rounded), numbers
  to decode have at most 308 digits (longer ones are read as \<^verbatim>\<open>Infinity\<close>).
\<close>

datatype bval = BNull | BInt int | BBytes "byte list" | BList "bval list" | BDict "(byte list \<times> bval) list"

subsection \<open>Encoding\<close>

text \<open>\<^verbatim>\<open>x << 0\<close>\<close>

definition to_int32 :: "int \<Rightarrow> int" where
  "to_int32 x = (x + 2 ^ 31) mod 2 ^ 32 - 2 ^ 31"

definition encode_number :: "int \<Rightarrow> byte list" where
  "encode_number data =
     (let maxLo = 2 ^ 31;
          hi = to_int32 (tdiv data maxLo);
          lo = to_int32 (data - maxLo * tdiv data maxLo);
          val = hi * maxLo + lo
      in 105 # show_int val @ [101])"

text \<open>\<^verbatim>\<open>encode.buffer\<close> and \<^verbatim>\<open>encode.string\<close>\<close>

definition encode_buffer :: "byte list \<Rightarrow> byte list" where
  "encode_buffer data = digits (length data) @ 58 # data"

text \<open>\<^verbatim>\<open>encode.dict\<close> sorts the keys and skips missing values.\<close>

fun encode :: "(byte list \<Rightarrow> byte list \<Rightarrow> bool) \<Rightarrow> bval \<Rightarrow> byte list"
and encode_list :: "(byte list \<Rightarrow> byte list \<Rightarrow> bool) \<Rightarrow> bval list \<Rightarrow> byte list"
and encode_items :: "(byte list \<Rightarrow> byte list \<Rightarrow> bool) \<Rightarrow> (byte list \<times> bval) list \<Rightarrow> (byte list \<times> byte list) list" where
  "encode lt BNull = []"
| "encode lt (BInt n) = encode_number n"
| "encode lt (BBytes b) = encode_buffer b"
| "encode lt (BList vs) = 108 # encode_list lt vs @ [101]"
| "encode lt (BDict kvs) =
     100 # concat (map snd (sort_by (\<lambda>x y. lt (fst x) (fst y)) (encode_items lt kvs))) @ [101]"
| "encode_list lt [] = []"
| "encode_list lt (v # vs) = encode lt v @ encode_list lt vs"
| "encode_items lt [] = []"
| "encode_items lt ((k, v) # kvs) =
     (k, if v = BNull then [] else encode_buffer k @ encode lt v) # encode_items lt kvs"

subsection \<open>Decoding\<close>

datatype 'a outcome = Ret 'a | Exn

text \<open>\<^verbatim>\<open>data[i]\<close>, undefined outside the buffer.\<close>

definition byte_at :: "byte list \<Rightarrow> int \<Rightarrow> byte option" where
  "byte_at d i = (if 0 \<le> i \<and> i < int (length d) then Some (d ! nat i) else None)"

text \<open>An integer result as a float.\<close>

definition rnd :: "int \<Rightarrow> int" where
  "rnd x = \<lfloor>fl (of_int x)\<rfloor>"

text \<open>\<^verbatim>\<open>getIntFromBuffer\<close>; \<open>first\<close> says that the index is still at the start, \<open>None\<close> is the exception.\<close>

fun int_loop :: "bool \<Rightarrow> byte option list \<Rightarrow> int \<Rightarrow> int \<Rightarrow> int option" where
  "int_loop first [] acc sign = Some (acc * sign)"
| "int_loop first (b # bs) acc sign =
     (case b of
        None \<Rightarrow> None
      | Some num \<Rightarrow>
          if num < 58 \<and> num \<ge> 48 then int_loop False bs (rnd (rnd (acc * 10) + (uint num - 48))) sign
          else if first \<and> num = 43 then int_loop False bs acc sign
          else if first \<and> num = 45 then int_loop False bs acc (- 1)
          else if num = 46 then Some (acc * sign)
          else None)"

definition getIntFromBuffer :: "byte list \<Rightarrow> int \<Rightarrow> int \<Rightarrow> int option" where
  "getIntFromBuffer d start fin = int_loop True (map (byte_at d) [start..fin - 1]) 0 1"

definition find_byte :: "byte list \<Rightarrow> byte \<Rightarrow> int \<Rightarrow> int option" where
  "find_byte d chr position = find (\<lambda>i. byte_at d i = Some chr) [position..int (length d) - 1]"

text \<open>\<^verbatim>\<open>Buffer.slice\<close>\<close>

definition slice :: "byte list \<Rightarrow> int \<Rightarrow> int \<Rightarrow> byte list" where
  "slice d start fin =
     (let len = int (length d);
          clamp = (\<lambda>x. if x < 0 then max 0 (x + len) else min x len);
          s = clamp (to_int32 start);
          e = max s (clamp (to_int32 fin))
      in take (nat (e - s)) (drop (nat s) d))"

definition decode_integer :: "byte list \<Rightarrow> int \<Rightarrow> (bval \<times> int) outcome" where
  "decode_integer d position =
     (case find_byte d 101 position of
        None \<Rightarrow> Exn
      | Some fin \<Rightarrow>
          (case getIntFromBuffer d (position + 1) fin of
             None \<Rightarrow> Exn
           | Some n \<Rightarrow> Ret (BInt n, fin + 1)))"

definition decode_buffer :: "byte list \<Rightarrow> int \<Rightarrow> (byte list \<times> int) outcome" where
  "decode_buffer d position =
     (case find_byte d 58 position of
        None \<Rightarrow> Exn
      | Some sep \<Rightarrow>
          (case getIntFromBuffer d position sep of
             None \<Rightarrow> Exn
           | Some len \<Rightarrow> Ret (slice d (sep + 1) (sep + 1 + len), sep + 1 + len)))"

text \<open>\<^verbatim>\<open>dict[key] = value\<close>: assigning to \<^verbatim>\<open>__proto__\<close> makes no property.\<close>

definition proto_key :: "byte list" where
  "proto_key = [95, 95, 112, 114, 111, 116, 111, 95, 95]"

fun set_key :: "byte list \<Rightarrow> bval \<Rightarrow> (byte list \<times> bval) list \<Rightarrow> (byte list \<times> bval) list" where
  "set_key k v [] = (if k = proto_key then [] else [(k, v)])"
| "set_key k v ((k', v') # kvs) = (if k = k' then (k, v) # kvs else (k', v') # set_key k v kvs)"

text \<open>The position is passed along; \<open>None\<close> means that the fuel ran out.\<close>

fun on_return :: "'a outcome option \<Rightarrow> ('a \<Rightarrow> 'b outcome option) \<Rightarrow> 'b outcome option" where
  "on_return None g = None"
| "on_return (Some Exn) g = Some Exn"
| "on_return (Some (Ret x)) g = g x"

function decode_next :: "(byte list \<Rightarrow> byte list) \<Rightarrow> nat \<Rightarrow> byte list \<Rightarrow> int \<Rightarrow> (bval \<times> int) outcome option"
and decode_list :: "(byte list \<Rightarrow> byte list) \<Rightarrow> nat \<Rightarrow> byte list \<Rightarrow> int \<Rightarrow> bval list \<Rightarrow> (bval \<times> int) outcome option"
and decode_dictionary :: "(byte list \<Rightarrow> byte list) \<Rightarrow> nat \<Rightarrow> byte list \<Rightarrow> int \<Rightarrow> (byte list \<times> bval) list \<Rightarrow>
    (bval \<times> int) outcome option" where
  "decode_next utf8 0 d position = None"
| "decode_next utf8 (Suc f) d position =
     (if byte_at d position = Some 100 then decode_dictionary utf8 f d (position + 1) []
      else if byte_at d position = Some 108 then decode_list utf8 f d (position + 1) []
      else if byte_at d position = Some 105 then Some (decode_integer d position)
      else on_return (Some (decode_buffer d position)) (\<lambda>(b, position). Some (Ret (BBytes b, position))))"
| "decode_list utf8 0 d position lst = None"
| "decode_list utf8 (Suc f) d position lst =
     (if byte_at d position \<noteq> Some 101
      then on_return (decode_next utf8 f d position) (\<lambda>(v, position).
        decode_list utf8 f d position (lst @ [v]))
      else Some (Ret (BList lst, position + 1)))"
| "decode_dictionary utf8 0 d position dict = None"
| "decode_dictionary utf8 (Suc f) d position dict =
     (if byte_at d position \<noteq> Some 101
      then on_return (Some (decode_buffer d position)) (\<lambda>(k, position).
        on_return (decode_next utf8 f d position) (\<lambda>(v, position).
          decode_dictionary utf8 f d position (set_key (utf8 k) v dict)))
      else Some (Ret (BDict dict, position + 1)))"
  by pat_completeness auto
termination
  by (relation "measure (case_sum (\<lambda>(u, f, _). f) (case_sum (\<lambda>(u, f, _). f) (\<lambda>(u, f, _). f)))") auto

definition decode :: "(byte list \<Rightarrow> byte list) \<Rightarrow> nat \<Rightarrow> byte list \<Rightarrow> bval outcome option" where
  "decode utf8 f d =
     (if d = [] then Some (Ret BNull)
      else on_return (decode_next utf8 f d 0) (\<lambda>(v, position). Some (Ret v)))"

subsection \<open>Reading the buffer\<close>

lemma byte_at_append [simp]:
  "byte_at (pre @ xs) (int (length pre) + int i) = (if i < length xs then Some (xs ! i) else None)"
  by (simp add: byte_at_def nth_append nat_add_distrib)

lemma byte_at_here [simp]: "byte_at (pre @ x # xs) (int (length pre)) = Some x"
  using byte_at_append [of pre "x # xs" 0] by simp

lemma upto_map: "[int a..int a + int n - 1] = map (\<lambda>i. int a + int i) [0..<n]"
proof (induction n)
  case (Suc n)
  have "[int a..int a + int (Suc n) - 1] = [int a..int a + int n - 1] @ [int a + int n]"
    using upto_rec2 [of "int a" "int a + int n"] by simp
  with Suc show ?case by simp
qed simp

lemma map_byte_at: "map (byte_at (pre @ xs @ ys)) [int (length pre)..int (length pre) + int (length xs) - 1] = map Some xs"
  unfolding upto_map by (rule nth_equalityI) (simp_all add: nth_append)

lemma find_append: "find P (xs @ ys) = (case find P xs of None \<Rightarrow> find P ys | Some x \<Rightarrow> Some x)"
  by (induction xs) auto

lemma find_byte_at:
  assumes "d = pre @ xs @ c # ys" and "c \<notin> set xs"
  shows "find_byte d c (int (length pre)) = Some (int (length pre) + int (length xs))"
proof -
  have "[0..<length xs + Suc (length ys)] = [0..<length xs] @ length xs # [Suc (length xs)..<length xs + Suc (length ys)]"
    using upt_add_eq_append [of 0 "length xs" "Suc (length ys)"]
      upt_conv_Cons [of "length xs" "length xs + Suc (length ys)"] by (simp del: upt_Suc)
  then have "[int (length pre)..int (length d) - 1] =
      map (\<lambda>i. int (length pre) + int i) ([0..<length xs] @ length xs # [Suc (length xs)..<length xs + Suc (length ys)])"
    using upto_map [of "length pre" "length xs + Suc (length ys)"] assms(1)
    by (simp add: algebra_simps del: upt_Suc)
  moreover have "find (\<lambda>i. byte_at d i = Some c) (map (\<lambda>i. int (length pre) + int i) [0..<length xs]) = None"
    using assms by (auto simp: find_None_iff nth_append)
  ultimately show ?thesis
    using assms by (simp add: find_byte_def find_append)
qed

subsection \<open>Numbers\<close>

lemma rnd_id: "0 \<le> x \<Longrightarrow> x < 2 ^ 53 \<Longrightarrow> rnd x = x"
proof (cases "x = 0")
  case True
  then show ?thesis
    using round_half_even_int [of 0] by (simp add: rnd_def fl_def)
next
  case False
  assume "0 \<le> x" "x < 2 ^ 53"
  with False show ?thesis
    by (simp add: rnd_def fl_int)
qed

lemma int_loop_digits:
  "\<forall>b \<in> set bs. digit b \<Longrightarrow> 0 \<le> a \<Longrightarrow> fold (\<lambda>b a. a * 10 + (uint b - 48)) bs a < 2 ^ 53 \<Longrightarrow>
     int_loop first (map Some bs) a sign = Some (fold (\<lambda>b a. a * 10 + (uint b - 48)) bs a * sign)"
proof (induction bs arbitrary: a first)
  case (Cons b bs)
  let ?a = "a * 10 + (uint b - 48)"
  have b: "48 \<le> b" "b < 58" "48 \<le> uint b"
    using Cons.prems(1) by (simp_all add: digit_def word_le_def)
  have le: "?a < 2 ^ 53" "a * 10 < 2 ^ 53"
    using value_of_snoc_mono [of bs ?a] Cons.prems b(3) by auto
  have "rnd (rnd (a * 10) + (uint b - 48)) = ?a"
    using rnd_id [of "a * 10"] rnd_id [of ?a] le Cons.prems(2) b(3) by simp
  then show ?case
    using Cons b by simp
qed simp

lemma int_loop_show_int:
  assumes "\<bar>n\<bar> < 2 ^ 53"
  shows "int_loop True (map Some (show_int n)) 0 1 = Some n"
proof -
  have l: "int_loop first (map Some (digits m)) 0 sign = Some (int m * sign)" if "int m < 2 ^ 53" for first m sign
    using int_loop_digits [of "digits m" 0 first sign] value_of_digits [of m] that digits_digit
    by (simp add: value_of_def)
  show ?thesis
    using l [of "nat (- n)" False "- 1"] l [of "nat n" True 1] assms by (auto simp: show_int_def)
qed

lemma encode_number_eq:
  assumes "\<bar>n\<bar> < 2 ^ 53"
  shows "encode_number n = 105 # show_int n @ [101]"
proof -
  have "\<bar>tdiv n (2 ^ 31)\<bar> < 2 ^ 31" "\<bar>n - 2 ^ 31 * tdiv n (2 ^ 31)\<bar> < 2 ^ 31"
    using assms by (auto simp: tdiv_def sgn_if abs_if)
  moreover have "to_int32 x = x" if "\<bar>x\<bar> < 2 ^ 31" for x
    using that by (simp add: to_int32_def)
  ultimately show ?thesis
    by (simp add: encode_number_def Let_def)
qed

subsection \<open>Byte strings\<close>

lemma decode_next_tag:
  "byte_at d p = Some 100 \<Longrightarrow> decode_next utf8 (Suc f) d p = decode_dictionary utf8 f d (p + 1) []"
  "byte_at d p = Some 108 \<Longrightarrow> decode_next utf8 (Suc f) d p = decode_list utf8 f d (p + 1) []"
  "byte_at d p = Some 105 \<Longrightarrow> decode_next utf8 (Suc f) d p = Some (decode_integer d p)"
  by simp_all

lemma encode_buffer_Cons:
  obtains x xs where "encode_buffer b = x # xs" "digit x"
  using digits_digit [of "hd (digits (length b))" "length b"] digits_ne [of "length b"]
  by (cases "digits (length b)") (auto simp: encode_buffer_def)

lemma slice_middle:
  assumes "length (pre @ b @ post) < 2 ^ 31"
  shows "slice (pre @ b @ post) (int (length pre)) (int (length pre) + int (length b)) = b"
proof -
  have "to_int32 (int (length pre)) = int (length pre)"
      "to_int32 (int (length pre) + int (length b)) = int (length pre) + int (length b)"
    using assms by (simp_all add: to_int32_def)
  then show ?thesis
    by (simp add: slice_def Let_def)
qed

lemma decode_buffer_encode:
  assumes "d = pre @ encode_buffer b @ post" and "length d < 2 ^ 31"
  shows "decode_buffer d (int (length pre)) = Ret (b, int (length pre) + int (length (encode_buffer b)))"
proof -
  let ?n = "digits (length b)"
  have d: "d = pre @ ?n @ 58 # b @ post" "d = (pre @ ?n @ [58]) @ b @ post"
    using assms(1) by (simp_all add: encode_buffer_def)
  have l: "length b < 2 ^ 31"
    using assms(2) d(1) by simp
  have f: "find_byte d 58 (int (length pre)) = Some (int (length pre) + int (length ?n))"
    by (rule find_byte_at [OF d(1)]) (use digits_digit digit_other in blast)
  have "map (byte_at d) [int (length pre)..int (length pre) + int (length ?n) - 1] = map Some ?n"
    unfolding d(1) by (rule map_byte_at)
  then have g: "getIntFromBuffer d (int (length pre)) (int (length pre) + int (length ?n)) = Some (int (length b))"
    using int_loop_show_int [of "int (length b)"] l by (simp add: getIntFromBuffer_def show_int_def)
  have "slice d (int (length (pre @ ?n @ [58]))) (int (length (pre @ ?n @ [58])) + int (length b)) = b"
    using slice_middle [of "pre @ ?n @ [58]" b post] assms(2) unfolding d(2) .
  then show ?thesis
    using f g by (simp add: decode_buffer_def encode_buffer_def add_ac)
qed

lemma decode_integer_encode:
  assumes "d = pre @ encode_number n @ post" and "\<bar>n\<bar> < 2 ^ 53"
  shows "decode_integer d (int (length pre)) = Ret (BInt n, int (length pre) + int (length (encode_number n)))"
proof -
  let ?s = "show_int n"
  have d: "d = pre @ (105 # ?s) @ 101 # post" "d = (pre @ [105]) @ ?s @ 101 # post"
    using assms by (simp_all add: encode_number_eq)
  have f: "find_byte d 101 (int (length pre)) = Some (int (length pre) + int (length (105 # ?s)))"
    by (rule find_byte_at [OF d(1)]) (use show_int_other in simp)
  have "map (byte_at d) [int (length (pre @ [105]))..int (length (pre @ [105])) + int (length ?s) - 1] = map Some ?s"
    unfolding d(2) by (rule map_byte_at)
  then have "getIntFromBuffer d (int (length pre) + 1) (int (length pre) + int (length (105 # ?s))) = Some n"
    using int_loop_show_int [OF assms(2)] by (simp add: getIntFromBuffer_def add_ac)
  then show ?thesis
    using f by (simp add: decode_integer_def encode_number_eq [OF assms(2)])
qed

subsection \<open>Decoding what was encoded\<close>

text \<open>
  The values that have an encoding of their own: no missing values, integers below \<open>2 ^ 53\<close>, the keys of
  a dictionary well-formed strings in increasing order, none of them \<^verbatim>\<open>__proto__\<close>.
\<close>

fun proper :: "(byte list \<Rightarrow> byte list) \<Rightarrow> (byte list \<Rightarrow> byte list \<Rightarrow> bool) \<Rightarrow> bval \<Rightarrow> bool"
and proper_list :: "(byte list \<Rightarrow> byte list) \<Rightarrow> (byte list \<Rightarrow> byte list \<Rightarrow> bool) \<Rightarrow> bval list \<Rightarrow> bool"
and proper_items :: "(byte list \<Rightarrow> byte list) \<Rightarrow> (byte list \<Rightarrow> byte list \<Rightarrow> bool) \<Rightarrow> (byte list \<times> bval) list \<Rightarrow> bool" where
  "proper utf8 lt BNull = False"
| "proper utf8 lt (BInt n) = (\<bar>n\<bar> < 2 ^ 53)"
| "proper utf8 lt (BBytes b) = True"
| "proper utf8 lt (BList vs) = proper_list utf8 lt vs"
| "proper utf8 lt (BDict kvs) = (sorted_wrt lt (map fst kvs) \<and> proper_items utf8 lt kvs)"
| "proper_list utf8 lt [] = True"
| "proper_list utf8 lt (v # vs) = (proper utf8 lt v \<and> proper_list utf8 lt vs)"
| "proper_items utf8 lt [] = True"
| "proper_items utf8 lt ((k, v) # kvs) =
     (utf8 k = k \<and> k \<noteq> proto_key \<and> proper utf8 lt v \<and> proper_items utf8 lt kvs)"

text \<open>The fuel that decoding a value needs.\<close>

fun cost :: "bval \<Rightarrow> nat"
and cost_list :: "bval list \<Rightarrow> nat"
and cost_items :: "(byte list \<times> bval) list \<Rightarrow> nat" where
  "cost (BList vs) = Suc (cost_list vs)"
| "cost (BDict kvs) = Suc (cost_items kvs)"
| "cost v = 1"
| "cost_list [] = 1"
| "cost_list (v # vs) = Suc (cost v + cost_list vs)"
| "cost_items [] = 1"
| "cost_items ((k, v) # kvs) = Suc (cost v + cost_items kvs)"

lemma sort_by_sorted:
  "(\<And>a b. lt a b \<Longrightarrow> \<not> lt b a) \<Longrightarrow> sorted_wrt lt xs \<Longrightarrow> sort_by lt xs = xs"
proof (induction xs)
  case (Cons x xs)
  then show ?case
    by (cases xs) auto
qed simp

lemma encode_items_keys: "map fst (encode_items lt kvs) = map fst kvs"
  by (induction kvs) auto

lemma encode_dict_sorted:
  assumes "\<And>a b. lt a b \<Longrightarrow> \<not> lt b a" and "sorted_wrt lt (map fst kvs)"
  shows "encode lt (BDict kvs) = 100 # concat (map snd (encode_items lt kvs)) @ [101]"
proof -
  have "sorted_wrt (\<lambda>x y. lt (fst x) (fst y)) (encode_items lt kvs)"
    using assms(2) encode_items_keys [of lt kvs] by (metis sorted_wrt_map)
  then have "sort_by (\<lambda>x y. lt (fst x) (fst y)) (encode_items lt kvs) = encode_items lt kvs"
    by (intro sort_by_sorted) (auto dest: assms(1))
  then show ?thesis
    by simp
qed

lemma set_key_new: "k \<notin> fst ` set kvs \<Longrightarrow> k \<noteq> proto_key \<Longrightarrow> set_key k v kvs = kvs @ [(k, v)]"
  by (induction kvs) auto

lemma encode_first: "proper utf8 lt v \<Longrightarrow> \<exists>x xs. encode lt v = x # xs \<and> x \<noteq> 101"
proof (cases v)
  case (BBytes b)
  obtain x xs where "encode_buffer b = x # xs" "digit x"
    by (rule encode_buffer_Cons)
  then show ?thesis
    using BBytes digit_other [of x] by simp
qed (auto simp: encode_number_def Let_def)

lemma decode_encode:
  "asymp lt \<Longrightarrow> proper utf8 lt v \<Longrightarrow> d = pre @ encode lt v @ post \<Longrightarrow> length d < 2 ^ 31 \<Longrightarrow> cost v \<le> f \<Longrightarrow>
      decode_next utf8 f d (int (length pre)) = Some (Ret (v, int (length pre) + int (length (encode lt v))))"
  "asymp lt \<Longrightarrow> proper_list utf8 lt vs \<Longrightarrow> d = pre @ encode_list lt vs @ 101 # post \<Longrightarrow> length d < 2 ^ 31 \<Longrightarrow>
      cost_list vs \<le> f \<Longrightarrow>
      decode_list utf8 f d (int (length pre)) lst =
        Some (Ret (BList (lst @ vs), int (length pre) + int (length (encode_list lt vs)) + 1))"
  "asymp lt \<Longrightarrow> proper_items utf8 lt kvs \<Longrightarrow> d = pre @ concat (map snd (encode_items lt kvs)) @ 101 # post \<Longrightarrow>
      length d < 2 ^ 31 \<Longrightarrow> cost_items kvs \<le> f \<Longrightarrow> sorted_wrt lt (map fst kvs) \<Longrightarrow>
      fst ` set dict \<inter> fst ` set kvs = {} \<Longrightarrow>
      decode_dictionary utf8 f d (int (length pre)) dict =
        Some (Ret (BDict (dict @ kvs), int (length pre) + int (length (concat (map snd (encode_items lt kvs)))) + 1))"
proof (induction lt v and lt vs and lt kvs arbitrary: pre post f and pre post f lst and pre post f dict
    rule: encode_encode_list_encode_items.induct)
  case (2 lt n)
  then obtain g where "f = Suc g" by (cases f) auto
  moreover have "byte_at d (int (length pre)) = Some 105"
    using 2 by (simp add: encode_number_def Let_def)
  ultimately show ?case
    using decode_integer_encode [of d pre n post] 2 by simp
next
  case (3 lt b)
  obtain g where "f = Suc g" using 3 by (cases f) auto
  moreover obtain x xs where "encode_buffer b = x # xs" "digit x" by (rule encode_buffer_Cons)
  then have "byte_at d (int (length pre)) = Some x" using 3 by simp
  ultimately show ?case
    using decode_buffer_encode [of d pre b post] digit_other [OF \<open>digit x\<close>] 3 by simp
next
  case (4 lt vs)
  obtain g where "f = Suc g" using 4 by (cases f) auto
  moreover have "byte_at d (int (length pre)) = Some 108" using 4 by simp
  ultimately have "decode_next utf8 f d (int (length pre)) = decode_list utf8 g d (int (length pre) + 1) []"
    by (simp only: decode_next_tag)
  then show ?case
    using 4(1) [of "pre @ [108]" post g "[]"] 4(2-) \<open>f = Suc g\<close> by (simp add: add_ac)
next
  case (5 lt kvs)
  obtain g where "f = Suc g" using 5 by (cases f) auto
  moreover have e: "encode lt (BDict kvs) = 100 # concat (map snd (encode_items lt kvs)) @ [101]"
    using 5(2,3) by (intro encode_dict_sorted) (auto dest: asympD)
  moreover have "byte_at d (int (length pre)) = Some 100" using 5 e by simp
  ultimately show ?case
    using 5(1) [of "pre @ [100]" post g "[]"] 5(2-) by (simp add: add_ac)
next
  case (6 lt)
  then show ?case by (cases f) auto
next
  case (7 lt v vs)
  obtain g where f: "f = Suc g" using 7 by (cases f) auto
  obtain x xs where "encode lt v = x # xs" "x \<noteq> 101"
    using 7(4) encode_first by fastforce
  then have "byte_at d (int (length pre)) \<noteq> Some 101" using 7(5) by simp
  moreover have "decode_next utf8 g d (int (length pre)) = Some (Ret (v, int (length pre) + int (length (encode lt v))))"
    using 7(1) [of pre "encode_list lt vs @ 101 # post" g] 7(3-) f by simp
  ultimately show ?case
    using 7(2) [of "pre @ encode lt v" post g "lst @ [v]"] 7(3-) f by (simp add: add_ac)
next
  case (8 lt)
  then show ?case by (cases f) auto
next
  case (9 lt k v kvs)
  obtain g where f: "f = Suc g" using 9 by (cases f) auto
  have v: "proper utf8 lt v" "v \<noteq> BNull" "utf8 k = k" "k \<noteq> proto_key"
    using 9(4) by (auto simp: proper.simps(1))
  let ?rest = "concat (map snd (encode_items lt kvs)) @ 101 # post"
  have d: "d = pre @ encode_buffer k @ encode lt v @ ?rest"
    using 9(5) v(2) by simp
  obtain x xs where "encode_buffer k = x # xs" "digit x" by (rule encode_buffer_Cons)
  then have "byte_at d (int (length pre)) \<noteq> Some 101" using d digit_other [of x] by auto
  moreover have "decode_buffer d (int (length pre)) = Ret (k, int (length pre) + int (length (encode_buffer k)))"
    using decode_buffer_encode [OF d 9(6)] .
  moreover have "decode_next utf8 g d (int (length (pre @ encode_buffer k))) =
      Some (Ret (v, int (length (pre @ encode_buffer k)) + int (length (encode lt v))))"
    using 9(1) [of "pre @ encode_buffer k" ?rest g] 9(3-) d v f by simp
  moreover have "set_key k v dict = dict @ [(k, v)]"
    using 9(9) v(4) by (intro set_key_new) auto
  moreover have "k \<notin> fst ` set kvs"
    using 9(8) asympD [OF 9(3)] by auto
  ultimately show ?case
    using 9(2) [of "pre @ encode_buffer k @ encode lt v" post g "dict @ [(k, v)]"] 9(3-) d v f by (simp add: add_ac)
qed simp

text \<open>
  C15. Encoding is undone by decoding: for every value that has an encoding of its own (integers below
  \<open>2 ^ 53\<close>, sorted well-formed keys) and takes less than 2 GiB, \<^verbatim>\<open>decode\<close> returns the value that was
  encoded.
\<close>

theorem bencode_roundtrip:
  assumes "asymp lt" and "proper utf8 lt v" and "length (encode lt v) < 2 ^ 31"
  shows "\<exists>F. \<forall>k. decode utf8 (F + k) (encode lt v) = Some (Ret v)"
proof -
  have "encode lt v \<noteq> []"
    using encode_first [OF assms(2)] by auto
  then have "decode utf8 (cost v + k) (encode lt v) = Some (Ret v)" for k
    using decode_encode(1) [OF assms(1,2), of "encode lt v" "[]" "[]" "cost v + k"] assms(3)
    by (simp add: decode_def)
  then show ?thesis
    by blast
qed

definition short_lt :: "byte list \<Rightarrow> byte list \<Rightarrow> bool" where
  "short_lt a b \<longleftrightarrow> length a < length b"

theorem bencode_roundtrip_witness:
  "\<exists>F. \<forall>k. decode id (F + k) (encode short_lt (BDict [([97], BInt (- 12)), ([98, 99], BList [BBytes [1, 2]])]))
     = Some (Ret (BDict [([97], BInt (- 12)), ([98, 99], BList [BBytes [1, 2]])]))"
proof (rule bencode_roundtrip)
  show "asymp short_lt"
    by (rule asympI) (simp add: short_lt_def)
qed (simp_all add: short_lt_def proto_key_def encode_number_eq show_int_def encode_buffer_def digits.simps)

subsection \<open>Termination\<close>

text \<open>
  C34. A negative length sends the decoder back: on the four bytes \<^verbatim>\<open>l-3:\<close> it never returns, but reads
  the same empty string again and again.
\<close>

theorem decode_diverges: "decode utf8 f [108, 45, 51, 58] = None"
proof -
  let ?d = "[108, 45, 51, 58] :: byte list"
  have at: "byte_at ?d 0 = Some 108" "byte_at ?d 1 = Some 45" "byte_at ?d 2 = Some 51" "byte_at ?d 3 = Some 58"
    by (simp_all add: byte_at_def)
  have u: "[1..3] = [1, 2, 3 :: int]" "[1..2] = [1, 2 :: int]"
    by (simp_all add: upto_rec1)
  have "find_byte ?d 58 1 = Some 3"
    by (simp add: find_byte_def u at)
  moreover have "getIntFromBuffer ?d 1 3 = Some (- 3)"
    using rnd_id [of 0] rnd_id [of 3] by (simp add: getIntFromBuffer_def u at)
  ultimately have b: "decode_buffer ?d 1 = Ret ([], 1)"
    by (simp add: decode_buffer_def slice_def to_int32_def)
  have n: "decode_next utf8 (Suc g) ?d 1 = Some (Ret (BBytes [], 1))" for g
    by (simp add: at b)
  have l: "decode_list utf8 g ?d 1 lst = None" for g lst
  proof (induction g arbitrary: lst)
    case step: (Suc g)
    have "decode_list utf8 (Suc g) ?d 1 lst =
        on_return (decode_next utf8 g ?d 1) (\<lambda>(v, position). decode_list utf8 g ?d position (lst @ [v]))"
      by (simp add: at)
    also have "\<dots> = None"
    proof (cases g)
      case (Suc h)
      show ?thesis
        unfolding Suc n by (simp only: on_return.simps prod.case step [unfolded Suc])
    qed simp
    finally show ?case .
  qed simp
  show ?thesis
    by (cases f) (simp_all add: decode_def decode_next_tag(2) [OF at(1)] l del: decode_next.simps(2))
qed

lemma find_byte_bounds: "find_byte d c p = Some i \<Longrightarrow> p \<le> i \<and> i < int (length d)"
  by (auto simp: find_byte_def find_Some_iff)

lemma rnd_nonneg: "0 \<le> x \<Longrightarrow> 0 \<le> rnd x"
  using fl_nonneg [of "of_int x"] by (simp add: rnd_def)

lemma int_loop_nonneg:
  "int_loop first bs a 1 = Some n \<Longrightarrow> Some 45 \<notin> set bs \<Longrightarrow> 0 \<le> a \<Longrightarrow> 0 \<le> n"
proof (induction bs arbitrary: first a)
  case (Cons b bs)
  have "0 \<le> rnd (rnd (a * 10) + (uint c - 48))" if "48 \<le> c" for c :: byte
  proof -
    have "48 \<le> uint c"
      using that by (simp add: word_le_def)
    then show ?thesis
      using rnd_nonneg [of "a * 10"] Cons.prems(3) by (intro rnd_nonneg) simp
  qed
  then show ?case
    using Cons by (auto split: option.splits if_splits)
qed simp

lemma decode_buffer_progress:
  assumes "45 \<notin> set d" and "decode_buffer d p = Ret (b, p')"
  shows "p < p' \<and> p < int (length d)"
proof -
  obtain sep len where s: "find_byte d 58 p = Some sep" "getIntFromBuffer d p sep = Some len" "p' = sep + 1 + len"
    using assms(2) by (auto simp: decode_buffer_def split: option.splits)
  have "Some 45 \<notin> set (map (byte_at d) [p..sep - 1])"
    using assms(1) by (auto simp: byte_at_def)
  then have "0 \<le> len"
    using int_loop_nonneg [of True _ 0 len] s(2) by (simp add: getIntFromBuffer_def)
  then show ?thesis
    using find_byte_bounds [OF s(1)] s(3) by simp
qed

definition rest :: "byte list \<Rightarrow> int \<Rightarrow> nat" where
  "rest d p = nat (int (length d) - p)"

definition moves_on :: "byte list \<Rightarrow> int \<Rightarrow> ('a \<times> int) outcome option \<Rightarrow> bool" where
  "moves_on d p r \<longleftrightarrow> (case r of Some (Ret (v, p')) \<Rightarrow> p < p' \<and> p < int (length d) | _ \<Rightarrow> True)"

lemma moves_on_simps [simp]:
  "moves_on d p None" "moves_on d p (Some Exn)"
  "moves_on d p (Some (Ret (v, p'))) \<longleftrightarrow> p < p' \<and> p < int (length d)"
  by (simp_all add: moves_on_def)

lemma moves_on_trans: "moves_on d p' r \<Longrightarrow> p < p' \<Longrightarrow> p < int (length d) \<Longrightarrow> moves_on d p r"
  by (auto simp: moves_on_def split: option.splits outcome.splits)

lemma moves_on_return:
  assumes "moves_on d p r" and "\<And>x q. moves_on d q (g (x, q))"
  shows "moves_on d p (on_return r g)"
proof (cases "(r, g)" rule: on_return.cases)
  case (3 x g)
  obtain y q where x: "x = (y, q)" by fastforce
  show ?thesis
    using assms(1) assms(2) [of q y] moves_on_trans [of d q "g x" p] 3 x by auto
qed auto

lemma byte_at_Some: "byte_at d p = Some b \<Longrightarrow> 0 \<le> p \<and> p < int (length d)"
  by (auto simp: byte_at_def split: if_splits)

text \<open>Without a minus sign in the data every item ends behind its start.\<close>

lemma decode_buffer_moves: "45 \<notin> set d \<Longrightarrow> moves_on d p (Some (decode_buffer d p))"
  using decode_buffer_progress [of d p] by (cases "decode_buffer d p") auto

lemma decode_integer_moves: "moves_on d p (Some (decode_integer d p))"
  using find_byte_bounds [of d 101 p] by (auto simp: decode_integer_def split: option.splits)

lemma decode_moves:
  assumes m: "45 \<notin> set d"
  shows "moves_on d p (decode_next utf8 f d p) \<and> moves_on d p (decode_list utf8 f d p lst)
    \<and> moves_on d p (decode_dictionary utf8 f d p dict)"
proof (induction f arbitrary: p lst dict)
  case (Suc f)
  note b = decode_buffer_moves [OF m]
  have "moves_on d p (decode_next utf8 (Suc f) d p)"
  proof -
    have "moves_on d p (decode_dictionary utf8 f d (p + 1) [])" "moves_on d p (decode_list utf8 f d (p + 1) [])"
      if "byte_at d p = Some c" for c
      using Suc.IH [of "p + 1" "[]" "[]"] byte_at_Some [OF that] by (auto intro: moves_on_trans)
    moreover have "moves_on d p (on_return (Some (decode_buffer d p)) (\<lambda>(b, p). Some (Ret (BBytes b, p))))"
      using b [of p] by (cases "decode_buffer d p") auto
    ultimately show ?thesis
      using decode_integer_moves [of d p] by (simp del: on_return.simps)
  qed
  moreover have "moves_on d p (decode_list utf8 (Suc f) d p lst)"
    using Suc.IH byte_at_Some [of d p 101] by (auto intro!: moves_on_return simp del: on_return.simps)
  moreover have "moves_on d p (decode_dictionary utf8 (Suc f) d p dict)"
    using Suc.IH b byte_at_Some [of d p 101] by (auto intro!: moves_on_return simp del: on_return.simps)
  ultimately show ?case by blast
qed simp

lemma on_return_ends:
  "r \<noteq> None \<Longrightarrow> (\<And>x q. r = Some (Ret (x, q)) \<Longrightarrow> g (x, q) \<noteq> None) \<Longrightarrow> on_return r g \<noteq> None"
  by (cases "(r, g)" rule: on_return.cases) auto

lemma rest_less: "0 \<le> p \<Longrightarrow> p < q \<Longrightarrow> p < int (length d) \<Longrightarrow> rest d q < rest d p"
  by (simp add: rest_def)

lemma then_ends:
  assumes "r \<noteq> None" and "moves_on d p r" and "0 \<le> p"
    and "\<And>x q. 0 \<le> q \<Longrightarrow> rest d q < rest d p \<Longrightarrow> g (x, q) \<noteq> None"
  shows "on_return r g \<noteq> None"
proof (rule on_return_ends)
  fix x q
  assume "r = Some (Ret (x, q))"
  then show "g (x, q) \<noteq> None"
    using assms(2,3) rest_less [of p q d] by (intro assms(4)) auto
qed (use assms in simp)

lemma decode_ends:
  assumes m: "45 \<notin> set d" and p: "0 \<le> p"
  shows "(2 * rest d p < f \<longrightarrow> decode_next utf8 f d p \<noteq> None)
    \<and> (2 * rest d p + 1 < f \<longrightarrow> decode_list utf8 f d p lst \<noteq> None \<and> decode_dictionary utf8 f d p dict \<noteq> None)"
  using p
proof (induction f arbitrary: p lst dict)
  case (Suc f)
  note moves = decode_moves [OF m, THEN conjunct1] decode_buffer_moves [OF m]
  have n: "decode_next utf8 f d q \<noteq> None" if "2 * rest d q < f" "0 \<le> q" for q
    using Suc.IH [of q] that by blast
  have l: "decode_list utf8 f d q lst \<noteq> None" "decode_dictionary utf8 f d q dict \<noteq> None"
    if "2 * rest d q + 1 < f" "0 \<le> q" for q lst dict
    using Suc.IH [of q lst dict] that by blast+
  have "decode_next utf8 (Suc f) d p \<noteq> None" if f: "2 * rest d p < Suc f"
  proof -
    have "decode_dictionary utf8 f d (p + 1) [] \<noteq> None" "decode_list utf8 f d (p + 1) [] \<noteq> None"
      if "byte_at d p = Some c" for c
      using l [of "p + 1"] rest_less [of p "p + 1" d] byte_at_Some [OF that] f Suc.prems by auto
    moreover have "on_return (Some (decode_buffer d p)) (\<lambda>(b, p). Some (Ret (BBytes b, p))) \<noteq> None"
      by (rule on_return_ends) auto
    ultimately show ?thesis
      by (simp del: on_return.simps)
  qed
  moreover have "decode_list utf8 (Suc f) d p lst \<noteq> None" if f: "2 * rest d p + 1 < Suc f"
  proof -
    have "on_return (decode_next utf8 f d p) (\<lambda>(v, q). decode_list utf8 f d q (lst @ [v])) \<noteq> None"
      by (rule then_ends [OF n moves(1) Suc.prems]) (use f l Suc.prems in auto)
    then show ?thesis
      by (simp del: on_return.simps)
  qed
  moreover have "decode_dictionary utf8 (Suc f) d p dict \<noteq> None" if f: "2 * rest d p + 1 < Suc f"
  proof -
    have "on_return (decode_next utf8 f d q) (\<lambda>(v, q). decode_dictionary utf8 f d q (set_key k v dict)) \<noteq> None"
      if "0 \<le> q" "rest d q < rest d p" for q k
      by (rule then_ends [OF n moves(1) that(1)]) (use f that l in auto)
    then have "on_return (Some (decode_buffer d p)) (\<lambda>(k, q). on_return (decode_next utf8 f d q)
        (\<lambda>(v, q). decode_dictionary utf8 f d q (set_key (utf8 k) v dict))) \<noteq> None"
      by (intro then_ends [OF _ moves(2) Suc.prems]) auto
    then show ?thesis
      by (simp del: on_return.simps)
  qed
  ultimately show ?case by blast
qed simp

text \<open>
  C33. The minus sign is what it takes: on data without one \<^verbatim>\<open>decode\<close> always returns or throws, however
  damaged the data are.
\<close>

theorem decode_terminates:
  assumes "45 \<notin> set d"
  shows "\<exists>F. \<forall>k. decode utf8 (F + k) d \<noteq> None"
proof -
  define F where "F = Suc (2 * rest d 0)"
  have "decode_next utf8 (F + k) d 0 \<noteq> None" for k
    using decode_ends [OF assms order_refl, of "F + k"] by (simp add: F_def)
  then have "on_return (decode_next utf8 (F + k) d 0) (\<lambda>(v, position). Some (Ret v)) \<noteq> None" for k
    by (rule on_return_ends) simp
  then have "decode utf8 (F + k) d \<noteq> None" for k
    by (simp add: decode_def)
  then show ?thesis
    by blast
qed

theorem decode_terminates_witness: "\<exists>F. \<forall>k. decode id (F + k) [100, 57, 57, 58, 108] \<noteq> None"
  by (rule decode_terminates) simp

end
