(* ===== verification/Torrshash.thy ===== *)
theory Torrshash
  imports Decimal "HOL-Library.Sublist"
begin

text \<open>
  The share tokens of a torrent, after \<^verbatim>\<open>src/server/torrshash\<close>: a hash and a list of tagged fields,
  written one after the other, compressed, and printed in base 62. Strings are their bytes. The
  compression of \<^verbatim>\<open>compress/zlib\<close> is a parameter: \<open>deflate\<close> is what the writer makes of the bytes
  written to it, \<open>inflate\<close> what the reader makes of its input (nothing if the header is bad, otherwise
  bytes and whether they end in an end of file or in an error); \<open>eager\<close> says whether the reader reports
  the end of file together with the last byte, as an \<^verbatim>\<open>io.Reader\<close> may.
\<close>

subsection \<open>Trimming\<close>

text \<open>White space in UTF-8.\<close>

definition white_space :: "byte list list" where
  "white_space = [[9], [10], [11], [12], [13], [32], [194, 133], [194, 160], [225, 154, 128]] @
     map (\<lambda>b. [226, 128, b]) [128, 129, 130, 131, 132, 133, 134, 135, 136, 137, 138, 168, 169, 175] @
     [[226, 129, 159], [227, 128, 128]]"

function strip :: "byte list list \<Rightarrow> byte list \<Rightarrow> byte list" where
  "strip ws s =
     (case find (\<lambda>w. w \<noteq> [] \<and> prefix w s) ws of
        None \<Rightarrow> s
      | Some w \<Rightarrow> strip ws (drop (length w) s))"
  by pat_completeness auto
termination
  by (relation "measure (\<lambda>(ws, s). length s)") (auto simp: find_Some_iff prefix_def)

declare strip.simps [simp del]

definition TrimSpace :: "byte list \<Rightarrow> byte list" where
  "TrimSpace s = rev (strip (map rev white_space) (rev (strip white_space s)))"

subsection \<open>Base 62\<close>

definition base62Alphabet :: "byte list" where
  "base62Alphabet = map (\<lambda>i. 48 + of_nat i) [0..<10] @ map (\<lambda>i. 65 + of_nat i) [0..<26] @
     map (\<lambda>i. 97 + of_nat i) [0..<26]"

text \<open>\<^verbatim>\<open>big.Int.SetBytes\<close> and \<^verbatim>\<open>big.Int.Bytes\<close>\<close>

definition set_bytes :: "byte list \<Rightarrow> nat" where
  "set_bytes b = fold (\<lambda>d a. a * 256 + unat d) b 0"

fun big_bytes :: "nat \<Rightarrow> byte list" where
  "big_bytes n = (if n = 0 then [] else big_bytes (n div 256) @ [of_nat (n mod 256)])"

declare big_bytes.simps [simp del]

function encode_loop :: "nat \<Rightarrow> byte list \<Rightarrow> byte list" where
  "encode_loop x res =
     (if x > 0 then encode_loop (x div 62) (res @ [base62Alphabet ! (x mod 62)]) else res)"
  by pat_completeness auto
termination
  by (relation "measure fst") auto

declare encode_loop.simps [simp del]

definition Encode62 :: "byte list \<Rightarrow> byte list" where
  "Encode62 b = rev (encode_loop (set_bytes b) [])"

text \<open>\<^verbatim>\<open>range\<close> over a string: the code points of its UTF-8, \<open>65533\<close> for a byte that is not part of one.\<close>

definition cont :: "byte \<Rightarrow> bool" where
  "cont b \<longleftrightarrow> 128 \<le> b \<and> b \<le> 191"

fun runes :: "byte list \<Rightarrow> nat list" where
  "runes [] = []"
| "runes (a # s) =
     (if a < 128 then unat a # runes s
      else case s of
        b # s1 \<Rightarrow>
          if 194 \<le> a \<and> a \<le> 223 \<and> cont b
          then ((unat a - 192) * 64 + (unat b - 128)) # runes s1
          else (case s1 of
            c # s2 \<Rightarrow>
              if 224 \<le> a \<and> a \<le> 239 \<and> cont b \<and> cont c \<and> (a = 224 \<longrightarrow> 160 \<le> b) \<and> (a = 237 \<longrightarrow> b \<le> 159)
              then ((unat a - 224) * 4096 + (unat b - 128) * 64 + (unat c - 128)) # runes s2
              else (case s2 of
                d # s3 \<Rightarrow>
                  if 240 \<le> a \<and> a \<le> 244 \<and> cont b \<and> cont c \<and> cont d \<and> (a = 240 \<longrightarrow> 144 \<le> b) \<and> (a = 244 \<longrightarrow> b \<le> 143)
                  then ((unat a - 240) * 262144 + (unat b - 128) * 4096 + (unat c - 128) * 64 + (unat d - 128)) # runes s3
                  else 65533 # runes s
              | [] \<Rightarrow> 65533 # runes s)
          | [] \<Rightarrow> 65533 # runes s)
      | [] \<Rightarrow> [65533])"

text \<open>\<^verbatim>\<open>bytes.IndexByte\<close>\<close>

fun index_byte :: "byte list \<Rightarrow> byte \<Rightarrow> int" where
  "index_byte [] c = - 1"
| "index_byte (x # xs) c =
     (if x = c then 0 else let i = index_byte xs c in if i < 0 then i else i + 1)"

definition Decode62 :: "byte list \<Rightarrow> byte list" where
  "Decode62 s =
     big_bytes (nat \<bar>fold (\<lambda>char res. res * 62 + index_byte base62Alphabet (of_nat char)) (runes s) 0\<bar>)"

definition IsBase62 :: "byte list \<Rightarrow> bool" where
  "IsBase62 s \<longleftrightarrow> (let t = TrimSpace s in t \<noteq> [] \<and> (\<forall>c \<in> set t. c \<in> set base62Alphabet))"

subsection \<open>Fields\<close>

record field =
  Tag :: int
  Value :: "byte list"

definition TagTitle :: int where "TagTitle = 0"
definition TagPoster :: int where "TagPoster = 1"
definition TagTracker :: int where "TagTracker = 2"
definition TagCategory :: int where "TagCategory = 3"
definition TagSize :: int where "TagSize = 4"

definition isBinary :: "int \<Rightarrow> bool" where
  "isBinary t \<longleftrightarrow> t = TagSize"

text \<open>\<^verbatim>\<open>strconv.ParseInt(s, 10, 64)\<close>\<close>

definition ParseInt :: "byte list \<Rightarrow> int option" where
  "ParseInt s =
     (let neg = (s \<noteq> [] \<and> hd s = 45);
          t = (if s \<noteq> [] \<and> (hd s = 45 \<or> hd s = 43) then tl s else s);
          n = (if neg then - value_of t else value_of t)
      in if t = [] \<or> (\<exists>b \<in> set t. \<not> digit b) \<or> \<not> in64 n then None else Some n)"

text \<open>Little-endian integers of \<open>n\<close> bytes.\<close>

fun le_bytes :: "nat \<Rightarrow> int \<Rightarrow> byte list" where
  "le_bytes 0 x = []"
| "le_bytes (Suc n) x = of_int x # le_bytes n (x div 256)"

fun le_value :: "byte list \<Rightarrow> int" where
  "le_value [] = 0"
| "le_value (b # bs) = uint b + 256 * le_value bs"

text \<open>What \<^verbatim>\<open>Field.write\<close> writes, or \<open>None\<close> for its error.\<close>

definition field_write :: "field \<Rightarrow> byte list option" where
  "field_write f =
     (let v = TrimSpace (Value f)
      in if v = [] then Some []
         else if isBinary (Tag f) \<and> v = [48] then Some []
         else if isBinary (Tag f)
         then (case ParseInt v of
                 None \<Rightarrow> None
               | Some ii \<Rightarrow> Some (of_int (Tag f) # (if ii = 0 then [] else le_bytes 8 ii)))
         else Some (of_int (Tag f) # le_bytes 2 (int (length v)) @ v))"

text \<open>\<^verbatim>\<open>ReadField\<close> on the bytes left: nothing more, an error, or a field and what is left then.\<close>

datatype field_result = NoField | ReadErr | GotField field "byte list"

definition ReadField :: "bool \<Rightarrow> bool \<Rightarrow> byte list \<Rightarrow> field_result" where
  "ReadField eager eof s =
     (case s of
        [] \<Rightarrow> if eof then NoField else ReadErr
      | t # s \<Rightarrow>
          if s = [] \<and> eof \<and> eager then NoField
          else if isBinary (uint t)
          then if length s < 8 then ReadErr
               else GotField \<lparr>Tag = uint t, Value = show_int (wrap64 (le_value (take 8 s)))\<rparr> (drop 8 s)
          else if length s < 2 then ReadErr
          else let n = nat (le_value (take 2 s)); s = drop 2 s
               in if length s < n then ReadErr
                  else GotField \<lparr>Tag = uint t, Value = take n s\<rparr> (drop n s))"

subsection \<open>Packing\<close>

record torrs_hash =
  Hash :: "byte list"
  Fields :: "field list"

definition New :: "byte list \<Rightarrow> torrs_hash" where
  "New hash = \<lparr>Hash = hash, Fields = []\<rparr>"

definition AddField :: "int \<Rightarrow> byte list \<Rightarrow> torrs_hash \<Rightarrow> torrs_hash" where
  "AddField tag v th = th\<lparr>Fields := Fields th @ [\<lparr>Tag = tag, Value = v\<rparr>]\<rparr>"

definition first_value :: "int \<Rightarrow> torrs_hash \<Rightarrow> byte list" where
  "first_value tag h = (case find (\<lambda>f. Tag f = tag) (Fields h) of None \<Rightarrow> [] | Some f \<Rightarrow> Value f)"

definition Title :: "torrs_hash \<Rightarrow> byte list" where "Title = first_value TagTitle"
definition Poster :: "torrs_hash \<Rightarrow> byte list" where "Poster = first_value TagPoster"
definition Category :: "torrs_hash \<Rightarrow> byte list" where "Category = first_value TagCategory"

definition Trackers :: "torrs_hash \<Rightarrow> byte list list" where
  "Trackers h = map Value (filter (\<lambda>f. Tag f = TagTracker) (Fields h))"

text \<open>\<^verbatim>\<open>hex.DecodeString\<close>, whose error \<^verbatim>\<open>pack\<close> ignores: the bytes before the first bad digit.\<close>

definition hex_digit :: "nat \<Rightarrow> byte" where
  "hex_digit n = (if n < 10 then 48 + of_nat n else 87 + of_nat n)"

definition hex_value :: "byte \<Rightarrow> nat option" where
  "hex_value c =
     (if 48 \<le> c \<and> c \<le> 57 then Some (unat c - 48)
      else if 97 \<le> c \<and> c \<le> 102 then Some (unat c - 87)
      else if 65 \<le> c \<and> c \<le> 70 then Some (unat c - 55)
      else None)"

fun hex_decode :: "byte list \<Rightarrow> byte list" where
  "hex_decode (a # b # s) =
     (case (hex_value a, hex_value b) of
        (Some x, Some y) \<Rightarrow> of_nat (16 * x + y) # hex_decode s
      | _ \<Rightarrow> [])"
| "hex_decode s = []"

definition hex_encode :: "byte list \<Rightarrow> byte list" where
  "hex_encode s = concat (map (\<lambda>b. [hex_digit (unat b div 16), hex_digit (unat b mod 16)]) s)"

fun write_fields :: "field list \<Rightarrow> byte list option" where
  "write_fields [] = Some []"
| "write_fields (f # fs) =
     (case field_write f of
        None \<Rightarrow> None
      | Some b \<Rightarrow> map_option (\<lambda>bs. b @ bs) (write_fields fs))"

definition pack :: "(byte list \<Rightarrow> byte list) \<Rightarrow> torrs_hash \<Rightarrow> byte list option" where
  "pack deflate t =
     map_option (\<lambda>bs. deflate (hex_decode (TrimSpace (Hash t)) @ bs)) (write_fields (Fields t))"

text \<open>The loop of \<^verbatim>\<open>unpack\<close> over the fields: the fields read and whether it ended without an error.\<close>

function read_fields :: "bool \<Rightarrow> bool \<Rightarrow> byte list \<Rightarrow> field list \<Rightarrow> bool \<times> field list" where
  "read_fields eager eof s fs =
     (case ReadField eager eof s of
        NoField \<Rightarrow> (True, fs)
      | ReadErr \<Rightarrow> (False, fs)
      | GotField f s \<Rightarrow> read_fields eager eof s (fs @ [f]))"
  by pat_completeness auto
termination
  by (relation "measure (\<lambda>(eager, eof, s, fs). length s)")
    (auto simp: ReadField_def Let_def split: list.splits if_splits)

declare read_fields.simps [simp del]

text \<open>The result says whether \<^verbatim>\<open>unpack\<close> returned without an error; with an error there may still be a value.\<close>

definition unpack :: "(byte list \<Rightarrow> (byte list \<times> bool) option) \<Rightarrow> bool \<Rightarrow> byte list \<Rightarrow> bool \<times> torrs_hash option" where
  "unpack inflate eager data =
     (case inflate data of
        None \<Rightarrow> (False, None)
      | Some (s, eof) \<Rightarrow>
          if length s < 20 then (False, None)
          else let (ok, fs) = read_fields eager eof (drop 20 s) []
               in (ok, Some \<lparr>Hash = hex_encode (take 20 s), Fields = fs\<rparr>))"

definition Pack :: "(byte list \<Rightarrow> byte list) \<Rightarrow> torrs_hash \<Rightarrow> byte list option" where
  "Pack deflate hash = map_option Encode62 (pack deflate hash)"

definition Unpack :: "(byte list \<Rightarrow> (byte list \<times> bool) option) \<Rightarrow> bool \<Rightarrow> byte list \<Rightarrow> bool \<times> torrs_hash option" where
  "Unpack inflate eager token = unpack inflate eager (Decode62 (TrimSpace token))"

subsection \<open>Positional notation\<close>

definition of_digits :: "nat \<Rightarrow> nat list \<Rightarrow> nat" where
  "of_digits b ds = fold (\<lambda>d a. a * b + d) ds 0"

fun to_digits :: "nat \<Rightarrow> nat \<Rightarrow> nat list" where
  "to_digits b n = (if n = 0 \<or> b \<le> 1 then [] else to_digits b (n div b) @ [n mod b])"

declare to_digits.simps [simp del]

lemma of_digits_snoc [simp]: "of_digits b (ds @ [d]) = of_digits b ds * b + d"
  by (simp add: of_digits_def)

lemma to_digits_0 [simp]: "to_digits b 0 = []"
  by (simp add: to_digits.simps)

lemma of_digits_Nil [simp]: "of_digits b [] = 0"
  by (simp add: of_digits_def)

locale positional =
  fixes base :: nat
  assumes base: "1 < base"
begin

lemma of_to: "of_digits base (to_digits base n) = n"
proof (induction n rule: less_induct)
  case (less n)
  show ?case
  proof (cases "n = 0")
    case False
    then have "n div base < n"
      using base by simp
    with less [of "n div base"] False base show ?thesis
      by (subst to_digits.simps) simp
  qed (simp add: to_digits.simps)
qed

lemma to_less: "d \<in> set (to_digits base n) \<Longrightarrow> d < base"
proof (induction n rule: less_induct)
  case (less n)
  have "n \<noteq> 0"
    using less.prems by (intro notI) simp
  then have "n div base < n" "to_digits base n = to_digits base (n div base) @ [n mod base]"
    using base by (simp_all add: to_digits.simps [of base n])
  with less base show ?case
    by auto
qed

lemma to_of: "ds = [] \<or> hd ds \<noteq> 0 \<Longrightarrow> \<forall>d \<in> set ds. d < base \<Longrightarrow> to_digits base (of_digits base ds) = ds"
proof (induction ds rule: rev_induct)
  case (snoc d ds)
  have "of_digits base (ds @ [d]) \<noteq> 0"
  proof (cases "ds = []")
    case False
    then have "to_digits base (of_digits base ds) = ds"
      using snoc by (cases ds) auto
    then have "of_digits base ds \<noteq> 0"
      using False by (metis to_digits.simps)
    then show ?thesis
      using base by simp
  qed (use snoc.prems in \<open>simp add: of_digits_def\<close>)
  moreover have "of_digits base (ds @ [d]) div base = of_digits base ds" "of_digits base (ds @ [d]) mod base = d"
    using snoc.prems(2) base by simp_all
  moreover have "ds = [] \<or> hd ds \<noteq> 0" "\<forall>d \<in> set ds. d < base"
    using snoc.prems by (cases ds; simp)+
  then have "to_digits base (of_digits base ds) = ds"
    by (rule snoc.IH)
  ultimately show ?case
    using base by (subst to_digits.simps) simp
qed (simp add: to_digits.simps)

end

interpretation b62: positional 62
  by unfold_locales simp

interpretation b256: positional 256
  by unfold_locales simp

subsection \<open>Base 62, both ways\<close>

lemma set_bytes_eq: "set_bytes b = of_digits 256 (map unat b)"
  by (simp add: set_bytes_def of_digits_def fold_map comp_def)

lemma big_bytes_eq: "big_bytes n = map of_nat (to_digits 256 n)"
proof (induction n rule: less_induct)
  case (less n)
  then show ?case
    by (cases "n = 0") (simp_all add: big_bytes.simps [of n] big_bytes.simps [of 0] to_digits.simps [of 256 n])
qed

lemma unat_byte: "unat (d :: byte) < 256"
  using unsigned_less [of d, where ?'a = nat] by simp

lemma big_bytes_set_bytes: "b = [] \<or> hd b \<noteq> 0 \<Longrightarrow> big_bytes (set_bytes b) = b"
proof -
  assume "b = [] \<or> hd b \<noteq> 0"
  then have "to_digits 256 (of_digits 256 (map unat b)) = map unat b"
    by (intro b256.to_of) (cases b; auto simp: unat_eq_zero unat_byte)+
  then show ?thesis
    by (simp add: set_bytes_eq big_bytes_eq comp_def)
qed

lemma encode_loop_eq: "encode_loop x res = res @ rev (map ((!) base62Alphabet) (to_digits 62 x))"
proof (induction x arbitrary: res rule: less_induct)
  case (less x)
  then show ?case
    by (cases "x = 0") (simp_all add: encode_loop.simps [of x] encode_loop.simps [of 0] to_digits.simps [of 62 x])
qed

lemma Encode62_eq: "Encode62 b = map ((!) base62Alphabet) (to_digits 62 (set_bytes b))"
  by (simp add: Encode62_def encode_loop_eq)

lemma alphabet_length [simp]: "length base62Alphabet = 62"
  by (simp add: base62Alphabet_def)

lemma alphabet_distinct: "distinct base62Alphabet"
  by code_simp

lemma alphabet_plain:
  "list_all (\<lambda>c. c < 128 \<and> list_all (\<lambda>w. w \<noteq> [] \<and> hd w \<noteq> c \<and> last w \<noteq> c) white_space) base62Alphabet"
  by code_simp

lemma index_byte_nth: "distinct xs \<Longrightarrow> i < length xs \<Longrightarrow> index_byte xs (xs ! i) = int i"
proof (induction xs arbitrary: i)
  case (Cons x xs)
  then show ?case
    by (cases i) auto
qed simp

lemma runes_ascii: "\<forall>c \<in> set s. c < 128 \<Longrightarrow> runes s = map unat s"
  by (induction s) auto

lemma Encode62_alnum: "c \<in> set (Encode62 b) \<Longrightarrow> c \<in> set base62Alphabet"
  by (auto simp: Encode62_eq dest: b62.to_less)

lemma decode_fold:
  assumes "\<forall>d \<in> set ds. d < 62"
  shows "fold (\<lambda>char res. res * 62 + index_byte base62Alphabet (of_nat char)) (map unat (map ((!) base62Alphabet) ds)) (int a)
    = int (fold (\<lambda>d a. a * 62 + d) ds a)"
  using assms
proof (induction ds arbitrary: a)
  case (Cons d ds)
  have "index_byte base62Alphabet (base62Alphabet ! d) = int d"
    using Cons.prems by (intro index_byte_nth alphabet_distinct) simp
  then show ?case
    using Cons.IH [of "a * 62 + d"] Cons.prems by simp
qed simp

lemma Decode62_Encode62:
  assumes "b = [] \<or> hd b \<noteq> 0"
  shows "Decode62 (Encode62 b) = b"
proof -
  have "runes (Encode62 b) = map unat (Encode62 b)"
    using alphabet_plain Encode62_alnum by (intro runes_ascii) (auto simp: list_all_iff)
  moreover have "fold (\<lambda>char res. res * 62 + index_byte base62Alphabet (of_nat char)) (map unat (Encode62 b)) 0
      = int (set_bytes b)"
    using decode_fold [of "to_digits 62 (set_bytes b)" 0] b62.of_to [of "set_bytes b"] b62.to_less
    by (simp add: Encode62_eq of_digits_def)
  ultimately show ?thesis
    using big_bytes_set_bytes [OF assms] by (simp add: Decode62_def)
qed

subsection \<open>Trimming leaves letters and digits alone\<close>

lemma strip_id: "(\<And>w. w \<in> set ws \<Longrightarrow> w \<noteq> [] \<Longrightarrow> s \<noteq> [] \<Longrightarrow> hd w \<noteq> hd s) \<Longrightarrow> strip ws s = s"
proof -
  assume h: "\<And>w. w \<in> set ws \<Longrightarrow> w \<noteq> [] \<Longrightarrow> s \<noteq> [] \<Longrightarrow> hd w \<noteq> hd s"
  have "\<not> prefix w s" if "w \<in> set ws" "w \<noteq> []" for w
    using h [OF that] that(2) by (auto simp: prefix_def)
  then have "find (\<lambda>w. w \<noteq> [] \<and> prefix w s) ws = None"
    by (auto simp: find_None_iff)
  then show ?thesis
    by (simp add: strip.simps)
qed

lemma TrimSpace_plain:
  assumes w: "\<And>w c. w \<in> set white_space \<Longrightarrow> c \<in> set s \<Longrightarrow> w \<noteq> [] \<and> hd w \<noteq> c \<and> last w \<noteq> c"
  shows "TrimSpace s = s"
proof -
  have "strip white_space s = s"
    using w by (intro strip_id) (metis hd_in_set)
  moreover have "strip (map rev white_space) (rev s) = rev s"
    using w by (intro strip_id) (auto simp: hd_rev dest: last_in_set)
  ultimately show ?thesis
    by (simp add: TrimSpace_def)
qed

lemma TrimSpace_alnum: "\<forall>c \<in> set s. c \<in> set base62Alphabet \<Longrightarrow> TrimSpace s = s"
  using alphabet_plain by (intro TrimSpace_plain) (auto simp: list_all_iff)

subsection \<open>Hexadecimal\<close>

lemma hex_digit_ok: "n < 16 \<Longrightarrow> hex_value (hex_digit n) = Some n \<and> hex_digit n \<in> set base62Alphabet"
proof -
  have "list_all (\<lambda>n. hex_value (hex_digit n) = Some n \<and> hex_digit n \<in> set base62Alphabet) [0..<16]"
    by code_simp
  then show "n < 16 \<Longrightarrow> ?thesis"
    by (simp add: list_all_iff)
qed

lemma hex_decode_encode: "hex_decode (hex_encode h) = h"
proof (induction h)
  case (Cons b h)
  have "hex_value (hex_digit (unat b div 16)) = Some (unat b div 16)"
      "hex_value (hex_digit (unat b mod 16)) = Some (unat b mod 16)"
    using hex_digit_ok [of "unat b div 16"] hex_digit_ok [of "unat b mod 16"] unat_byte [of b] by auto
  then show ?case
    using Cons by (simp add: hex_encode_def)
qed (simp add: hex_encode_def)

lemma TrimSpace_hex: "TrimSpace (hex_encode h) = hex_encode h"
proof (rule TrimSpace_alnum)
  have "hex_digit (unat b div 16) \<in> set base62Alphabet" "hex_digit (unat b mod 16) \<in> set base62Alphabet" for b :: byte
    using hex_digit_ok [of "unat b div 16"] hex_digit_ok [of "unat b mod 16"] unat_byte [of b] by auto
  then show "\<forall>c \<in> set (hex_encode h). c \<in> set base62Alphabet"
    by (auto simp: hex_encode_def)
qed

subsection \<open>Fields, both ways\<close>

lemma le_bytes_length [simp]: "length (le_bytes n x) = n"
  by (induction n arbitrary: x) auto

lemma le_value_bytes: "le_value (le_bytes n x) = x mod 256 ^ n"
proof (induction n arbitrary: x)
  case (Suc n)
  have "uint (of_int x :: byte) = x mod 256"
    by (simp add: uint_word_of_int)
  with Suc show ?case
    using mod_mult2_eq' [of x 256 "256 ^ n"] by (simp add: zmod_zmult2_eq)
qed simp

text \<open>What a field comes back as: trimmed, a size in canonical form, and not at all if it is empty.\<close>

definition kept_field :: "field \<Rightarrow> field option" where
  "kept_field f =
     (let v = TrimSpace (Value f)
      in if v = [] \<or> isBinary (Tag f) \<and> v = [48] then None
         else if isBinary (Tag f) then Some (f\<lparr>Value := show_int (the (ParseInt v))\<rparr>)
         else Some (f\<lparr>Value := v\<rparr>))"

text \<open>A tag fits a byte, a string is shorter than 64 KiB, a size is a number that is not zero (or \<^verbatim>\<open>0\<close>, or empty).\<close>

definition field_ok :: "field \<Rightarrow> bool" where
  "field_ok f \<longleftrightarrow>
     (let v = TrimSpace (Value f)
      in 0 \<le> Tag f \<and> Tag f < 256 \<and>
         (if isBinary (Tag f) then v = [] \<or> v = [48] \<or> (\<exists>n. ParseInt v = Some n \<and> n \<noteq> 0)
          else length v < 2 ^ 16))"

lemma wrap64_mod: "in64 x \<Longrightarrow> wrap64 (x mod 2 ^ 64) = x"
proof -
  assume "in64 x"
  moreover have "(x mod 2 ^ 64 + 2 ^ 63) mod 2 ^ 64 = (x + 2 ^ 63) mod 2 ^ 64"
    by (rule mod_add_left_eq)
  ultimately show ?thesis
    using wrap64_id [of x] by (simp add: wrap64_def)
qed

lemma field_write_skip: "kept_field f = None \<Longrightarrow> field_write f = Some []"
  by (auto simp: kept_field_def field_write_def Let_def split: if_splits)

lemma tag_byte: "0 \<le> t \<Longrightarrow> t < 256 \<Longrightarrow> uint (of_int t :: byte) = t"
  by (simp add: uint_word_of_int)

lemma ReadField_write:
  assumes "field_ok f" and "kept_field f = Some g"
  shows "\<exists>b. field_write f = Some b \<and> (\<forall>eager eof rest. ReadField eager eof (b @ rest) = GotField g rest)"
proof -
  define v where "v = TrimSpace (Value f)"
  have t: "uint (of_int (Tag f) :: byte) = Tag f"
    using assms(1) by (intro tag_byte) (auto simp: field_ok_def Let_def)
  have v: "v \<noteq> []" "\<not> (isBinary (Tag f) \<and> v = [48])"
    using assms(2) by (auto simp: kept_field_def v_def Let_def split: if_splits)
  show ?thesis
  proof (cases "isBinary (Tag f)")
    case True
    obtain n where n: "ParseInt v = Some n" "n \<noteq> 0"
      using assms(1) True v by (auto simp: field_ok_def v_def Let_def)
    then have "in64 n"
      by (auto simp: ParseInt_def Let_def split: if_splits)
    then have "wrap64 (le_value (le_bytes 8 n)) = n"
      using wrap64_mod [of n] by (simp add: le_value_bytes)
    moreover have "g = f\<lparr>Value := show_int n\<rparr>"
      using assms(2) True v n by (simp add: kept_field_def v_def Let_def)
    moreover have "field_write f = Some (of_int (Tag f) # le_bytes 8 n)"
      using True v n by (simp add: field_write_def v_def Let_def)
    ultimately show ?thesis
      using t True le_bytes_length [of 8 n] by (auto simp: ReadField_def simp del: le_bytes_length)
  next
    case False
    have l: "length v < 2 ^ 16"
      using assms(1) False by (simp add: field_ok_def v_def Let_def)
    then have "le_value (le_bytes 2 (int (length v))) = int (length v)"
      by (simp add: le_value_bytes)
    moreover have "g = f\<lparr>Value := v\<rparr>"
      using assms(2) False v by (simp add: kept_field_def v_def Let_def)
    moreover have "field_write f = Some (of_int (Tag f) # le_bytes 2 (int (length v)) @ v)"
      using False v by (simp add: field_write_def v_def Let_def)
    ultimately show ?thesis
      using t False v(1) by (simp add: ReadField_def Let_def)
  qed
qed

lemma read_write_fields:
  assumes "\<forall>f \<in> set fs. field_ok f"
  shows "\<exists>b. write_fields fs = Some b \<and>
    (\<forall>eager acc. read_fields eager True b acc = (True, acc @ List.map_filter kept_field fs))"
  using assms
proof (induction fs)
  case Nil
  have "read_fields eager True [] acc = (True, acc)" for eager acc
    by (subst read_fields.simps) (simp add: ReadField_def)
  then show ?case
    by (simp add: List.map_filter_simps)
next
  case (Cons f fs)
  obtain b where b: "write_fields fs = Some b"
      "\<And>eager acc. read_fields eager True b acc = (True, acc @ List.map_filter kept_field fs)"
    using Cons by auto
  show ?case
  proof (cases "kept_field f")
    case None
    then show ?thesis
      using b field_write_skip [OF None] by (simp add: List.map_filter_simps)
  next
    case (Some g)
    have "field_ok f"
      using Cons.prems by simp
    then obtain c where c: "field_write f = Some c" "\<And>eager. ReadField eager True (c @ b) = GotField g b"
      using ReadField_write [OF _ Some] by blast
    have "read_fields eager True (c @ b) acc = (True, acc @ g # List.map_filter kept_field fs)" for eager acc
      by (subst read_fields.simps) (simp add: c(2) b(2))
    then show ?thesis
      using b(1) c(1) Some by (simp add: List.map_filter_simps)
  qed
qed

subsection \<open>Tokens\<close>

text \<open>
  C17. A share token gives back what was packed into it: for a hash of 20 bytes in hexadecimal and fields
  that fit the format, \<^verbatim>\<open>Pack\<close> succeeds and \<^verbatim>\<open>Unpack\<close> of the token returns the hash and the fields in
  order, trimmed and without the empty ones. Of the compression this needs that decompressing undoes
  it and that its output does not start with a zero byte, which base 62 would lose (the header of zlib
  starts with \<^verbatim>\<open>0x78\<close>).
\<close>

theorem token_roundtrip:
  assumes "\<And>x. inflate (deflate x) = Some (x, True)" and "\<And>x. deflate x \<noteq> [] \<and> hd (deflate x) \<noteq> 0"
    and "length h = 20" and "Hash th = hex_encode h" and "\<forall>f \<in> set (Fields th). field_ok f"
  shows "\<exists>token. Pack deflate th = Some token \<and> IsBase62 token \<and> Decode62 token = the (pack deflate th) \<and>
    Unpack inflate eager token = (True, Some \<lparr>Hash = Hash th, Fields = List.map_filter kept_field (Fields th)\<rparr>)"
proof -
  obtain b where b: "write_fields (Fields th) = Some b"
      "\<And>acc. read_fields eager True b acc = (True, acc @ List.map_filter kept_field (Fields th))"
    using read_write_fields [OF assms(5)] by auto
  define x where "x = deflate (h @ b)"
  have u: "inflate x = Some (h @ b, True)"
    by (simp add: x_def assms(1))
  have p: "pack deflate th = Some x"
    by (simp add: pack_def b assms(4) TrimSpace_hex hex_decode_encode x_def)
  have d: "Decode62 (Encode62 x) = x"
    using assms(2) by (intro Decode62_Encode62) (simp add: x_def)
  have a: "\<forall>c \<in> set (Encode62 x). c \<in> set base62Alphabet"
    using Encode62_alnum by blast
  have "x \<noteq> []"
    using assms(2) by (simp add: x_def)
  then have "Encode62 x \<noteq> []"
    using d by (auto simp: Decode62_def big_bytes.simps)
  then have i: "IsBase62 (Encode62 x)"
    using a by (simp add: IsBase62_def TrimSpace_alnum)
  have "Unpack inflate eager (Encode62 x) = (True, Some \<lparr>Hash = Hash th, Fields = List.map_filter kept_field (Fields th)\<rparr>)"
    using assms(3,4) b(2) by (simp add: Unpack_def TrimSpace_alnum [OF a] d unpack_def u)
  then show ?thesis
    using p d i by (intro exI [of _ "Encode62 x"]) (simp add: Pack_def)
qed

definition stored :: "byte list \<Rightarrow> byte list" where
  "stored x = 120 # x"

definition unstored :: "byte list \<Rightarrow> (byte list \<times> bool) option" where
  "unstored x = (case x of [] \<Rightarrow> None | b # s \<Rightarrow> if b = 120 then Some (s, True) else None)"

theorem token_roundtrip_witness:
  "\<exists>token. Pack stored (AddField TagTitle [65, 66] (New (hex_encode (replicate 20 171)))) = Some token
     \<and> Unpack unstored False token = (True, Some (AddField TagTitle [65, 66] (New (hex_encode (replicate 20 171)))))"
proof -
  let ?th = "AddField TagTitle [65, 66] (New (hex_encode (replicate 20 171)))"
  have "TrimSpace [65, 66] = [65, 66]"
    by (rule TrimSpace_alnum) code_simp
  then have f: "field_ok \<lparr>Tag = TagTitle, Value = [65, 66]\<rparr>"
      "kept_field \<lparr>Tag = TagTitle, Value = [65, 66]\<rparr> = Some \<lparr>Tag = TagTitle, Value = [65, 66]\<rparr>"
    by (simp_all add: field_ok_def kept_field_def isBinary_def TagTitle_def TagSize_def)
  show ?thesis
    using token_roundtrip [of unstored stored "replicate 20 171" ?th False] f
    by (auto simp: stored_def unstored_def AddField_def New_def List.map_filter_simps)
qed

end
