(* ===== verification/Iplist.thy ===== *)
theory Iplist
  imports Torrshash
begin

text \<open>
  The address lists of the firewall, after \<^verbatim>\<open>src/server/web/waf/iplist.go\<close> and \<^verbatim>\<open>parse.go\<close>: ranges of
  addresses, their order and lookup, and the parser of the lists' text. Strings and addresses are
  lists of bytes. The parsers of \<^verbatim>\<open>net\<close> for addresses and networks are written out. The lemmas show that a lookup
  finds a range exactly if one contains the address, and that the two ends computed for a network bound its
  addresses and no others.
\<close>

subsection \<open>Addresses\<close>

type_synonym ip = "byte list"

definition v4InV6Prefix :: ip where
  "v4InV6Prefix = [0, 0, 0, 0, 0, 0, 0, 0, 0, 0, 255, 255]"

definition To4 :: "ip \<Rightarrow> ip option" where
  "To4 ip =
     (if length ip = 4 then Some ip
      else if length ip = 16 \<and> take 12 ip = v4InV6Prefix then Some (drop 12 ip)
      else None)"

definition To16 :: "ip \<Rightarrow> ip option" where
  "To16 ip =
     (if length ip = 4 then Some (v4InV6Prefix @ ip)
      else if length ip = 16 then Some ip
      else None)"

fun bytes_Compare :: "byte list \<Rightarrow> byte list \<Rightarrow> int" where
  "bytes_Compare [] [] = 0"
| "bytes_Compare [] (b # bs) = - 1"
| "bytes_Compare (a # as) [] = 1"
| "bytes_Compare (a # as) (b # bs) = (if a < b then - 1 else if b < a then 1 else bytes_Compare as bs)"

text \<open>
  Four decimal fields. \<open>len\<close> counts the digits of the field being read, \<open>done\<close> holds the fields before it.
\<close>

fun ipv4_fields :: "byte list \<Rightarrow> nat \<Rightarrow> nat \<Rightarrow> byte list \<Rightarrow> byte list option" where
  "ipv4_fields [] val len done =
     (if length done = 3 \<and> 0 < len then Some (done @ [of_nat val]) else None)"
| "ipv4_fields (c # s) val len done =
     (if digit c
      then if len = 1 \<and> val = 0 then None
           else let val = val * 10 + (unat c - 48)
                in if val > 255 then None else ipv4_fields s val (len + 1) done
      else if c = 46
      then if len = 0 \<or> length done \<ge> 3 then None
           else ipv4_fields s 0 0 (done @ [of_nat val])
      else None)"

text \<open>One group of hexadecimal digits: its value, how many digits, and what follows.\<close>

fun hex_group :: "byte list \<Rightarrow> nat \<Rightarrow> nat \<Rightarrow> nat \<times> nat \<times> byte list" where
  "hex_group [] acc n = (acc, n, [])"
| "hex_group (c # s) acc n =
     (case hex_value c of
        None \<Rightarrow> (acc, n, c # s)
      | Some d \<Rightarrow> hex_group s (acc * 16 + d) (n + 1))"

text \<open>
  The groups of an IPv6 address: \<open>ip\<close> are the bytes read, \<open>ellipsis\<close> where a double colon was. The
  result is the address.
\<close>

definition ipv6_expand :: "byte list \<Rightarrow> nat option \<Rightarrow> byte list \<Rightarrow> byte list option" where
  "ipv6_expand s ellipsis ip =
     (if s \<noteq> [] then None
      else if length ip < 16
      then (case ellipsis of
              None \<Rightarrow> None
            | Some e \<Rightarrow> Some (take e ip @ replicate (16 - length ip) 0 @ drop e ip))
      else if ellipsis = None then Some ip else None)"

fun ipv6_groups :: "nat \<Rightarrow> byte list \<Rightarrow> nat option \<Rightarrow> byte list \<Rightarrow> byte list option" where
  "ipv6_groups 0 s ellipsis ip = ipv6_expand s ellipsis ip"
| "ipv6_groups (Suc k) s ellipsis ip =
     (case hex_group s 0 0 of (acc, n, s') \<Rightarrow>
        if n = 0 \<or> n > 4 then None
        else if s' \<noteq> [] \<and> hd s' = 46
        then if ellipsis = None \<and> length ip \<noteq> 12 \<or> length ip + 4 > 16 then None
             else (case ipv4_fields s 0 0 [] of
                     None \<Rightarrow> None
                   | Some v4 \<Rightarrow> ipv6_expand [] ellipsis (ip @ v4))
        else let ip = ip @ [of_nat (acc div 256), of_nat (acc mod 256)]
             in if s' = [] then ipv6_expand [] ellipsis ip
                else if hd s' \<noteq> 58 \<or> tl s' = [] then None
                else let s = tl s'
                     in if hd s = 58
                        then if ellipsis \<noteq> None then None
                             else if tl s = [] then ipv6_expand [] (Some (length ip)) ip
                             else ipv6_groups k (tl s) (Some (length ip)) ip
                        else ipv6_groups k s ellipsis ip)"

definition parse_ipv6 :: "byte list \<Rightarrow> byte list option" where
  "parse_ipv6 s =
     (if length s \<ge> 2 \<and> s ! 0 = 58 \<and> s ! 1 = 58
      then if drop 2 s = [] then Some (replicate 16 0) else ipv6_groups 8 (drop 2 s) (Some 0) []
      else ipv6_groups 8 s None [])"

text \<open>\<^verbatim>\<open>netip.ParseAddr\<close> for addresses without a zone: the bytes and the number of bits.\<close>

definition ParseAddr :: "byte list \<Rightarrow> (ip \<times> nat) option" where
  "ParseAddr s =
     (case find (\<lambda>c. c \<in> {46, 58, 37}) s of
        None \<Rightarrow> None
      | Some c \<Rightarrow>
          if 37 \<in> set s then None
          else if c = 46 then map_option (\<lambda>ip. (v4InV6Prefix @ ip, 32)) (ipv4_fields s 0 0 [])
          else map_option (\<lambda>ip. (ip, 128)) (parse_ipv6 s))"

definition ParseIP :: "byte list \<Rightarrow> ip option" where
  "ParseIP s = map_option fst (ParseAddr s)"

definition CIDRMask :: "nat \<Rightarrow> nat \<Rightarrow> byte list" where
  "CIDRMask ones bits =
     map (\<lambda>i. if 8 * i + 8 \<le> ones then 255
              else if ones \<le> 8 * i then 0
              else of_nat (256 - 2 ^ (8 - (ones - 8 * i)))) [0..<bits div 8]"

definition ip_mask :: "ip \<Rightarrow> byte list \<Rightarrow> ip" where
  "ip_mask ip m = map2 and (if length m = 4 \<and> length ip = 16 then drop 12 ip else ip) m"

text \<open>\<^verbatim>\<open>net.ParseCIDR\<close>: the network's address and mask.\<close>

definition ParseCIDR :: "byte list \<Rightarrow> (ip \<times> byte list) option" where
  "ParseCIDR s =
     (let addr = takeWhile (\<lambda>c. c \<noteq> 47) s; num = tl (dropWhile (\<lambda>c. c \<noteq> 47) s)
      in case ParseAddr addr of
           None \<Rightarrow> None
         | Some (ip, bits) \<Rightarrow>
             if num = [] \<or> (\<exists>c \<in> set num. \<not> digit c) \<or> value_of num > int bits then None
             else let m = CIDRMask (nat (value_of num)) bits in Some (ip_mask ip m, m))"

subsection \<open>Lists of ranges\<close>

record ip_range =
  First :: ip
  Last :: ip
  Description :: "byte list"

definition ip_range_less :: "ip_range \<Rightarrow> ip_range \<Rightarrow> bool" where
  "ip_range_less a b \<longleftrightarrow>
     (let c = bytes_Compare (First a) (First b)
      in if c \<noteq> 0 then c < 0 else bytes_Compare (Last a) (Last b) < 0)"

text \<open>\<open>sort_by\<close> is stable, as \<^verbatim>\<open>sort.SliceStable\<close> is.\<close>

definition New_list :: "ip_range list \<Rightarrow> ip_range list" where
  "New_list ranges = sort_by ip_range_less ranges"

fun ip_lookup :: "ip_range list \<Rightarrow> ip \<Rightarrow> ip_range option" where
  "ip_lookup [] ip = None"
| "ip_lookup (r # rs) ip =
     (if length (First r) \<noteq> length ip \<or> length (Last r) \<noteq> length ip then ip_lookup rs ip
      else if bytes_Compare (First r) ip \<le> 0 \<and> bytes_Compare ip (Last r) \<le> 0 then Some r
      else ip_lookup rs ip)"

text \<open>\<open>None\<close> is the nil address.\<close>

definition Lookup :: "ip_range list \<Rightarrow> ip option \<Rightarrow> ip_range option" where
  "Lookup ipl ip =
     (case ip of
        None \<Rightarrow> None
      | Some ip \<Rightarrow>
          (case To4 ip of
             Some v4 \<Rightarrow> ip_lookup ipl v4
           | None \<Rightarrow> (case To16 ip of Some v6 \<Rightarrow> ip_lookup ipl v6 | None \<Rightarrow> None)))"

definition minifyIP :: "ip option \<Rightarrow> ip option" where
  "minifyIP ip =
     (case ip of
        None \<Rightarrow> None
      | Some a \<Rightarrow> (case To4 a of Some v4 \<Rightarrow> Some v4 | None \<Rightarrow> Some a))"

subsection \<open>Parsing the lists\<close>

definition lastIP :: "ip \<times> byte list \<Rightarrow> ip" where
  "lastIP network = map2 (\<lambda>a m. or a (not m)) (fst network) (snd network)"

text \<open>\<open>i\<close> runs from 1 to the last index but one.\<close>

definition findRangeHyphen :: "byte list \<Rightarrow> nat option" where
  "findRangeHyphen spec =
     find (\<lambda>i. spec ! i = 45 \<and> ParseIP (TrimSpace (take i spec)) \<noteq> None
        \<and> ParseIP (TrimSpace (drop (i + 1) spec)) \<noteq> None) [1..<length spec - 1]"

text \<open>Two nil addresses have equal lengths, so both tests are needed.\<close>

definition parseIPSpec :: "byte list \<Rightarrow> (ip \<times> ip) option" where
  "parseIPSpec spec =
     (let spec = TrimSpace spec
      in if spec = [] then None
         else if 47 \<in> set spec
         then (case ParseCIDR spec of
                 None \<Rightarrow> None
               | Some network \<Rightarrow>
                   (case (minifyIP (Some (fst network)), minifyIP (Some (lastIP network))) of
                      (Some first, Some final) \<Rightarrow> if length first \<noteq> length final then None else Some (first, final)
                    | _ \<Rightarrow> None))
         else case findRangeHyphen spec of
                Some hyphen \<Rightarrow>
                  (case (minifyIP (ParseIP (TrimSpace (take hyphen spec))),
                         minifyIP (ParseIP (TrimSpace (drop (hyphen + 1) spec)))) of
                     (Some first, Some final) \<Rightarrow>
                       if length first \<noteq> length final then None
                       else if bytes_Compare first final > 0 then None
                       else Some (first, final)
                   | _ \<Rightarrow> None)
              | None \<Rightarrow>
                  (case minifyIP (ParseIP spec) of
                     None \<Rightarrow> None
                   | Some first \<Rightarrow> Some (first, first)))"

datatype line_result = Skip | Bad | Good ip_range

definition parseLine :: "byte list \<Rightarrow> line_result" where
  "parseLine l =
     (let l = TrimSpace l
      in if l = [] \<or> hd l = 35 then Skip
         else case parseIPSpec l of
                Some (first, final) \<Rightarrow> Good \<lparr>First = first, Last = final, Description = []\<rparr>
              | None \<Rightarrow>
                  if 58 \<notin> set l \<or> hd l = 58 then Bad
                  else let desc = TrimSpace (takeWhile (\<lambda>c. c \<noteq> 58) l);
                           spec = TrimSpace (tl (dropWhile (\<lambda>c. c \<noteq> 58) l))
                       in if desc = [] \<or> spec = [] then Bad
                          else case parseIPSpec spec of
                                 None \<Rightarrow> Bad
                               | Some (first, final) \<Rightarrow> Good \<lparr>First = first, Last = final, Description = desc\<rparr>)"

datatype warn_code = invalid_ip_range | invalid_referer | line_too_long | read_failed

type_synonym parse_warning = "nat \<times> warn_code"

text \<open>\<^verbatim>\<open>strings.Split\<close> at a byte\<close>

fun split_at_byte :: "byte \<Rightarrow> byte list \<Rightarrow> byte list list" where
  "split_at_byte c [] = [[]]"
| "split_at_byte c (x # s) =
     (if x = c then [] # split_at_byte c s
      else (x # hd (split_at_byte c s)) # tl (split_at_byte c s))"

text \<open>The tokens of \<^verbatim>\<open>bufio.ScanLines\<close>, with the carriage returns that it drops from them still there.\<close>

definition raw_lines :: "byte list \<Rightarrow> byte list list" where
  "raw_lines buf = (let ps = split_at_byte 10 buf in if last ps = [] then butlast ps else ps)"

definition drop_cr :: "byte list \<Rightarrow> byte list" where
  "drop_cr l = (if l \<noteq> [] \<and> last l = 13 then butlast l else l)"

definition maxScannerTokenSize :: nat where
  "maxScannerTokenSize = 1024 * 1024"

fun scan_ranges :: "nat \<Rightarrow> byte list list \<Rightarrow> ip_range list \<Rightarrow> parse_warning list \<Rightarrow> ip_range list \<times> parse_warning list" where
  "scan_ranges lineNo [] ranges warnings = (ranges, warnings)"
| "scan_ranges lineNo (l # ls) ranges warnings =
     (if length l \<ge> maxScannerTokenSize then (ranges, warnings @ [(lineNo + 1, line_too_long)])
      else case parseLine (drop_cr l) of
             Bad \<Rightarrow> scan_ranges (lineNo + 1) ls ranges (warnings @ [(lineNo + 1, invalid_ip_range)])
           | Skip \<Rightarrow> scan_ranges (lineNo + 1) ls ranges warnings
           | Good r \<Rightarrow> scan_ranges (lineNo + 1) ls (ranges @ [r]) warnings)"

definition scanBuf :: "byte list \<Rightarrow> ip_range list \<times> parse_warning list" where
  "scanBuf buf =
     (if buf = [] then (New_list [], [])
      else let (ranges, warnings) = scan_ranges 0 (raw_lines buf) [] [] in (New_list ranges, warnings))"

unbundle bit_operations_syntax

subsection \<open>Comparing addresses\<close>

lemma bytes_Compare_flip: "bytes_Compare b a = - bytes_Compare a b"
  by (induction a b rule: bytes_Compare.induct) auto

lemma bytes_Compare_0: "bytes_Compare a b = 0 \<longleftrightarrow> a = b"
  by (induction a b rule: bytes_Compare.induct) auto

lemma bytes_Compare_refl [simp]: "bytes_Compare a a = 0"
  by (simp add: bytes_Compare_0)

lemma bytes_Compare_trans: "bytes_Compare a b \<le> 0 \<Longrightarrow> bytes_Compare b c \<le> 0 \<Longrightarrow> bytes_Compare a c \<le> 0"
proof (induction a b arbitrary: c rule: bytes_Compare.induct)
  case (2 b bs)
  then show ?case
    by (cases c) auto
next
  case (4 a as b bs)
  then show ?case
    by (cases c) (auto split: if_splits)
qed auto

lemma ip_range_less_asym: "ip_range_less a b \<Longrightarrow> \<not> ip_range_less b a"
  using bytes_Compare_flip [of "First a" "First b"] bytes_Compare_flip [of "Last a" "Last b"]
  by (simp add: ip_range_less_def Let_def split: if_splits)

lemma not_less_iff:
  "\<not> ip_range_less b a \<longleftrightarrow> bytes_Compare (First a) (First b) < 0
     \<or> First a = First b \<and> bytes_Compare (Last a) (Last b) \<le> 0"
  using bytes_Compare_flip [of "First a" "First b"] bytes_Compare_flip [of "Last a" "Last b"]
    bytes_Compare_0 [of "First a" "First b"]
  by (simp add: ip_range_less_def Let_def not_less) linarith

lemma bytes_Compare_less_trans: "bytes_Compare a b < 0 \<Longrightarrow> bytes_Compare b c < 0 \<Longrightarrow> bytes_Compare a c < 0"
  using bytes_Compare_trans [of a b c] bytes_Compare_0 [of a c] bytes_Compare_flip [of b c] by fastforce

lemma ip_range_less_trans: "\<not> ip_range_less b a \<Longrightarrow> \<not> ip_range_less c b \<Longrightarrow> \<not> ip_range_less c a"
  unfolding not_less_iff
  by (metis bytes_Compare_less_trans bytes_Compare_trans)

interpretation ips: slice_sort ip_range_less "sort_by ip_range_less"
  by (rule slice_sort_by) (fact ip_range_less_asym, fact ip_range_less_trans)

subsection \<open>Looking an address up\<close>

definition in_range :: "ip \<Rightarrow> ip_range \<Rightarrow> bool" where
  "in_range ip r \<longleftrightarrow> length (First r) = length ip \<and> length (Last r) = length ip
     \<and> bytes_Compare (First r) ip \<le> 0 \<and> bytes_Compare ip (Last r) \<le> 0"

lemma ip_lookup_iff: "ip_lookup rs ip \<noteq> None \<longleftrightarrow> (\<exists>r \<in> set rs. in_range ip r)"
  by (induction rs) (auto simp: in_range_def)

lemma New_list_set: "set (New_list rs) = set rs"
  by (simp add: New_list_def ips.set_srt)

subsection \<open>Blocks of addresses\<close>

lemma and_not_mask_uint:
  fixes x :: byte
  assumes "k \<le> 8"
  shows "uint (x AND NOT (mask k)) = uint x div 2 ^ k * 2 ^ k"
proof -
  have "uint x mod 2 ^ k < 256"
    using uint_lt2p [of x] zmod_le_nonneg_dividend [of "uint x" "2 ^ k"] by simp
  then have m: "uint (x AND mask k) = uint x mod 2 ^ k"
    by (simp add: and_mask_mod_2p uint_word_of_int)
  have "(x AND NOT (mask k)) + (x AND mask k) = (x AND NOT (mask k)) OR (x AND mask k)"
    by (rule disjunctive_add_eq_or) (simp add: bit_eq_iff bit_simps)
  also have "\<dots> = x"
    by (rule bit_eqI) (auto simp: bit_simps)
  finally have "x AND NOT (mask k) = x - (x AND mask k)"
    by (simp add: eq_diff_eq)
  moreover have "uint (x - (x AND mask k)) = uint x - uint (x AND mask k)"
    by (rule uint_sub_lem [THEN iffD1]) (simp add: m zmod_le_nonneg_dividend)
  ultimately show ?thesis
    using m by (simp add: minus_mod_eq_div_mult)
qed

lemma byte_block:
  fixes a i :: byte
  assumes "k \<le> 8"
  defines "m \<equiv> NOT (mask k)"
  shows "a AND m \<le> i \<and> i \<le> (a AND m) OR NOT m \<longleftrightarrow> i AND m = a AND m"
proof -
  let ?q = "uint a div 2 ^ k"
  have mk: "uint (mask k :: byte) = 2 ^ k - 1"
    unfolding uint_mask_eq using assms(1) by (simp add: min_absorb2 mask_eq_exp_minus_1)
  have a: "uint (a AND m) = ?q * 2 ^ k"
    unfolding m_def by (rule and_not_mask_uint [OF assms(1)])
  have "(2 :: int) ^ k dvd 2 ^ 8"
    using assms(1) by (rule le_imp_power_dvd)
  then obtain c where c: "(256 :: int) = 2 ^ k * c" by auto
  have "?q < c"
    using uint_lt2p [of a] c by (intro div_less_bound) (simp_all add: mult.commute)
  then have "(?q + 1) * 2 ^ k \<le> c * 2 ^ k"
    by (intro mult_right_mono) simp_all
  then have lt: "?q * 2 ^ k + 2 ^ k \<le> 256"
    unfolding c by (simp add: distrib_right mult.commute [of c])
  have "(a AND m) OR NOT m = (a AND m) + mask k"
    unfolding m_def by (subst disjunctive_add_eq_or) (simp_all add: bit_eq_iff bit_simps)
  moreover have "uint ((a AND m) + mask k) = uint (a AND m) + uint (mask k :: byte)"
    by (rule uint_add_lem [THEN iffD1]) (use lt in \<open>simp add: a mk\<close>)
  ultimately have u: "uint ((a AND m) OR NOT m) = ?q * 2 ^ k + 2 ^ k - 1"
    by (simp add: a mk)
  have "i AND m = a AND m \<longleftrightarrow> uint i div 2 ^ k = ?q"
    using and_not_mask_uint [OF assms(1)] by (simp add: m_def word_uint_eq_iff)
  moreover have "?q * 2 ^ k \<le> uint i \<and> uint i \<le> ?q * 2 ^ k + 2 ^ k - 1 \<longleftrightarrow> uint i div 2 ^ k = ?q"
  proof
    assume "?q * 2 ^ k \<le> uint i \<and> uint i \<le> ?q * 2 ^ k + 2 ^ k - 1"
    then show "uint i div 2 ^ k = ?q"
      by (intro int_div_pos_eq [of _ _ _ "uint i - ?q * 2 ^ k"]) (auto simp: mult.commute)
  next
    assume "uint i div 2 ^ k = ?q"
    then have "?q * 2 ^ k + uint i mod 2 ^ k = uint i"
      using div_mult_mod_eq [of "uint i" "2 ^ k"] by simp
    moreover have "0 \<le> uint i mod 2 ^ k" "uint i mod 2 ^ k < 2 ^ k" by simp_all
    ultimately show "?q * 2 ^ k \<le> uint i \<and> uint i \<le> ?q * 2 ^ k + 2 ^ k - 1"
      by linarith
  qed
  ultimately show ?thesis
    by (simp add: word_le_def a u)
qed

text \<open>The mask of a network byte by byte, and its blocks.\<close>

lemma mask_byte: "p \<le> 8 \<Longrightarrow> of_nat (256 - 2 ^ (8 - p)) = (NOT (mask (8 - p)) :: byte)"
proof -
  assume "p \<le> 8"
  then have "p \<in> {0, 1, 2, 3, 4, 5, 6, 7, 8}" by auto
  then show ?thesis
    by (elim insertE emptyE) (simp_all add: mask_eq_exp_minus_1)
qed

lemma no_mask [simp]: "NOT (mask 8) = (0 :: byte)"
  by (simp add: mask_eq_exp_minus_1)

fun mask_bytes :: "nat \<Rightarrow> nat \<Rightarrow> byte list" where
  "mask_bytes p 0 = []"
| "mask_bytes p (Suc n) = NOT (mask (8 - p)) # mask_bytes (p - 8) n"

lemma CIDRMask_bytes: "CIDRMask ones (8 * n) = mask_bytes ones n"
proof -
  let ?b = "\<lambda>ones i. if 8 * i + 8 \<le> ones then (255 :: byte) else if ones \<le> 8 * i then 0
    else of_nat (256 - 2 ^ (8 - (ones - 8 * i)))"
  have "map (?b ones) [0..<n] = mask_bytes ones n"
  proof (induction n arbitrary: ones)
    case (Suc n)
    have "?b ones 0 = NOT (mask (8 - ones))"
      using mask_byte [of ones] by simp
    moreover have "?b ones (Suc i) = ?b (ones - 8) i" for i
    proof -
      have "8 * Suc i + 8 \<le> ones \<longleftrightarrow> 8 * i + 8 \<le> ones - 8" "ones \<le> 8 * Suc i \<longleftrightarrow> ones - 8 \<le> 8 * i"
        "ones - 8 * Suc i = ones - 8 - 8 * i" by arith+
      then show ?thesis by (simp only:)
    qed
    ultimately show ?case
      using Suc.IH [of "ones - 8"] by (simp add: upt_conv_Cons map_Suc_upt [symmetric] comp_def del: upt_Suc)
  qed simp
  then show ?thesis
    by (simp add: CIDRMask_def)
qed

lemma length_mask_bytes [simp]: "length (mask_bytes p n) = n"
  by (induction p n rule: mask_bytes.induct) auto

lemma mask_bytes_0: "mask_bytes 0 n = replicate n 0"
  by (induction n) simp_all

text \<open>Below the all-zero bytes and above the all-one bytes nothing of the same length is left.\<close>

lemma compare_zeros: "bytes_Compare (replicate (length i) 0) i \<le> 0"
  by (induction i) auto

lemma compare_ones: "bytes_Compare i (replicate (length i) (- 1)) \<le> 0"
  by (induction i) (auto simp: not_less)

lemma map2_and_zeros: "map2 (AND) a (replicate (length a) (0 :: byte)) = replicate (length a) 0"
  by (induction a) auto

lemma map2_or_zeros:
  "map2 (\<lambda>a m. a OR NOT m) (replicate n (0 :: byte)) (replicate n 0) = replicate n (- 1)"
  by (induction n) auto

lemma block_bytes:
  assumes "length a = n" and "length i = n"
  shows "bytes_Compare (map2 (AND) a (mask_bytes p n)) i \<le> 0
     \<and> bytes_Compare i (map2 (\<lambda>a m. a OR NOT m) (map2 (AND) a (mask_bytes p n)) (mask_bytes p n)) \<le> 0
     \<longleftrightarrow> map2 (AND) i (mask_bytes p n) = map2 (AND) a (mask_bytes p n)"
  using assms
proof (induction n arbitrary: a i p)
  case (Suc n)
  then obtain x a' y i' where e: "a = x # a'" "i = y # i'" "length a' = n" "length i' = n"
    by (metis length_Suc_conv)
  note hd = byte_block [of "8 - p" x y, simplified]
  show ?case
  proof (cases "8 \<le> p")
    case True
    have "\<not> y < x \<and> \<not> x < y \<longleftrightarrow> y = x" by auto
    with True Suc.IH [of a' i' "p - 8"] e show ?thesis by auto
  next
    case False
    have z: "map2 (AND) l (replicate n (0 :: byte)) = replicate n 0" if "length l = n" for l
      using map2_and_zeros [of l] that by simp
    from False have p: "p - 8 = 0" by simp
    have "bytes_Compare (replicate n 0) i' \<le> 0" "bytes_Compare i' (replicate n (- 1)) \<le> 0"
      using compare_zeros [of i'] compare_ones [of i'] e by simp_all
    with hd e show ?thesis
      by (auto simp: p mask_bytes_0 z map2_or_zeros simp del: mask_bytes.simps(1))
  qed
qed simp

text \<open>The bits of an address, the most significant first; masking keeps the first of them.\<close>

definition bits_of :: "byte list \<Rightarrow> bool list" where
  "bits_of a = concat (map (\<lambda>b. map (bit b) (rev [0..<8])) a)"

lemma bits_of_simps [simp]:
  "bits_of [] = []"
  "bits_of (b # a) = map (bit b) (rev [0..<8]) @ bits_of a"
  "bits_of (a @ a') = bits_of a @ bits_of a'"
  by (simp_all add: bits_of_def)

lemma length_bits_of [simp]: "length (bits_of a) = 8 * length a"
  by (induction a) simp_all

lemma byte_eq_iff: "x = y \<longleftrightarrow> (\<forall>n < 8. bit x n = bit (y :: byte) n)"
  by (auto simp: bit_eq_iff dest: bit_imp_le_length)

lemma take_byte_bits:
  "take p (map (bit x) (rev [0..<8])) = take p (map (bit y) (rev [0..<8]))
     \<longleftrightarrow> x AND NOT (mask (8 - p)) = y AND NOT (mask (8 - p) :: byte)"
proof -
  have "take p (rev [0..<8]) = rev [8 - p..<8]"
    by (simp add: take_rev del: upt.simps)
  then have "set (take p (rev [0..<8])) = {8 - p..<8}"
    by (simp del: upt.simps)
  moreover have "x AND NOT (mask (8 - p)) = y AND NOT (mask (8 - p)) \<longleftrightarrow> (\<forall>n < 8. 8 - p \<le> n \<longrightarrow> bit x n = bit y n)"
    by (auto simp: byte_eq_iff bit_simps)
  ultimately show ?thesis
    by (auto simp add: take_map map_eq_conv simp del: upt.simps)
qed

lemma masked_bits:
  assumes "length a = n" and "length c = n"
  shows "map2 (AND) c (mask_bytes p n) = map2 (AND) a (mask_bytes p n) \<longleftrightarrow> take p (bits_of c) = take p (bits_of a)"
  using assms
proof (induction n arbitrary: a c p)
  case (Suc n)
  then obtain x a' y c' where e: "a = x # a'" "c = y # c'" "length a' = n" "length c' = n"
    by (metis length_Suc_conv)
  have "take p (bits_of c) = take p (bits_of a) \<longleftrightarrow>
      take p (map (bit y) (rev [0..<8])) = take p (map (bit x) (rev [0..<8])) \<and> take (p - 8) (bits_of c') = take (p - 8) (bits_of a')"
    unfolding e bits_of_simps take_append by (subst append_eq_append_conv) (simp_all del: upt.simps)
  with Suc.IH [OF e(3,4), of "p - 8"] show ?case
    unfolding take_byte_bits by (simp add: e del: upt.simps)
qed simp

subsection \<open>Parsed addresses\<close>

lemma ipv4_fields_length: "ipv4_fields s val len done = Some r \<Longrightarrow> length r = 4"
  by (induction s val len "done" rule: ipv4_fields.induct) (auto simp: Let_def split: if_splits)

lemma ipv6_expand_length: "ipv6_expand s e ip = Some r \<Longrightarrow> length ip \<le> 16 \<Longrightarrow> length r = 16"
  by (auto simp: ipv6_expand_def split: if_splits option.splits)

lemma ipv6_groups_length: "ipv6_groups k s e ip = Some r \<Longrightarrow> length ip + 2 * k \<le> 16 \<Longrightarrow> length r = 16"
proof (induction k s e ip rule: ipv6_groups.induct)
  case (1 s e ip)
  then show ?case by (auto intro: ipv6_expand_length)
next
  case (2 k s e ip)
  obtain acc n s' where g: "hex_group s 0 0 = (acc, n, s')" by (metis prod_cases3)
  have x: "ipv6_expand [] e' (ip @ l) = Some r \<Longrightarrow> length ip + length l \<le> 16 \<Longrightarrow> length r = 16" for e' l
    using ipv6_expand_length [of "[]" e' "ip @ l" r] by simp
  show ?case
    using 2 x ipv4_fields_length by (auto simp: g Let_def split: if_splits option.splits)
qed

lemma ParseAddr_length: "ParseAddr s = Some (ip, bits) \<Longrightarrow> bits = 32 \<and> (\<exists>v. ip = v4InV6Prefix @ v \<and> length v = 4)
    \<or> bits = 128 \<and> length ip = 16"
  using ipv4_fields_length ipv6_groups_length
  by (auto simp: ParseAddr_def parse_ipv6_def split: option.splits if_splits)

lemma To4_append: "length v = 4 \<Longrightarrow> To4 (v4InV6Prefix @ v) = Some v"
  by (simp add: To4_def v4InV6Prefix_def)

lemma To4_16: "length c = 16 \<Longrightarrow> To4 c = Some v \<longleftrightarrow> c = v4InV6Prefix @ v \<and> length v = 4"
  by (auto simp: To4_def v4InV6Prefix_def split: if_splits) (metis append_take_drop_id append_Cons append_Nil)

lemma bytes_Compare_append [simp]: "bytes_Compare (p @ a) (p @ b) = bytes_Compare a b"
  by (induction p) simp_all

lemma length_v4InV6Prefix [simp]: "length v4InV6Prefix = 12"
  by (simp add: v4InV6Prefix_def)

text \<open>Looking a 16-byte address up in one range.\<close>

lemma Lookup_one_v4:
  assumes "length v = 4"
  shows "Lookup [r] (Some (v4InV6Prefix @ v)) \<noteq> None \<longleftrightarrow> in_range v r"
  using ip_lookup_iff [of "[r]" v] by (simp add: Lookup_def To4_append [OF assms])

lemma Lookup_one_v6:
  assumes "length c = 16" and "To4 c = None"
  shows "Lookup [r] (Some c) \<noteq> None \<longleftrightarrow> in_range c r"
  using ip_lookup_iff [of "[r]" c] assms by (simp add: Lookup_def To16_def)

lemma minify_16:
  assumes "length c = 16"
  obtains v where "c = v4InV6Prefix @ v" "length v = 4" "minifyIP (Some c) = Some v"
  | "To4 c = None" "minifyIP (Some c) = Some c"
proof (cases "To4 c")
  case None
  then show thesis by (intro that(2)) (simp_all add: minifyIP_def)
next
  case (Some v)
  then have "c = v4InV6Prefix @ v \<and> length v = 4" using To4_16 [OF assms] by simp
  with Some show thesis by (intro that(1)) (simp_all add: minifyIP_def)
qed

text \<open>The two families of networks.\<close>

lemma cidr_v4:
  assumes "length v = 4" and "length c = 16" and "First r = map2 (AND) v (mask_bytes p 4)"
    and "Last r = map2 (\<lambda>a m. a OR NOT m) (First r) (mask_bytes p 4)"
  shows "Lookup [r] (Some c) \<noteq> None \<longleftrightarrow>
    To4 c \<noteq> None \<and> take (p + 96) (bits_of c) = take (p + 96) (bits_of (v4InV6Prefix @ v))"
  using assms(2)
proof (cases rule: minify_16)
  case (1 w)
  then show ?thesis
    using assms(1,3,4) block_bytes [of v 4 w p] masked_bits [of v 4 w p]
    by (simp add: Lookup_one_v4 To4_append in_range_def del: not_None_eq)
next
  case 2
  then show ?thesis
    using assms by (simp add: Lookup_one_v6 in_range_def del: not_None_eq)
qed

lemma cidr_v6:
  assumes "length ip = 16" and "length c = 16"
    and "minifyIP (Some (map2 (AND) ip (mask_bytes p 16))) = Some (First r)"
    and "minifyIP (Some (map2 (\<lambda>a m. a OR NOT m) (map2 (AND) ip (mask_bytes p 16)) (mask_bytes p 16))) = Some (Last r)"
    and "length (First r) = length (Last r)"
  shows "Lookup [r] (Some c) \<noteq> None \<longleftrightarrow>
    (To4 c \<noteq> None \<longleftrightarrow> length (First r) = 4) \<and> take p (bits_of c) = take p (bits_of ip)"
proof -
  let ?n = "map2 (AND) ip (mask_bytes p 16)" and ?l = "map2 (\<lambda>a m. a OR NOT m) (map2 (AND) ip (mask_bytes p 16)) (mask_bytes p 16)"
  have len: "length ?n = 16" "length ?l = 16" using assms(1) by simp_all
  have blk: "bytes_Compare ?n c \<le> 0 \<and> bytes_Compare c ?l \<le> 0 \<longleftrightarrow> take p (bits_of c) = take p (bits_of ip)"
    using block_bytes [OF assms(1,2)] masked_bits [OF assms(1,2)] by simp
  from len(1) show ?thesis
  proof (cases rule: minify_16)
    case (1 f)
    with len(2) assms(3-5) obtain l where l: "?l = v4InV6Prefix @ l" "length l = 4" "First r = f" "Last r = l"
      by (cases rule: minify_16) auto
    from assms(2) show ?thesis
    proof (cases rule: minify_16)
      case (1 w)
      then show ?thesis
        using blk \<open>?n = v4InV6Prefix @ f\<close> \<open>length f = 4\<close> l by (simp add: Lookup_one_v4 To4_append in_range_def del: not_None_eq)
    next
      case 2
      then show ?thesis
        using assms(2) \<open>length f = 4\<close> l by (simp add: Lookup_one_v6 in_range_def del: not_None_eq)
    qed
  next
    case 2
    with assms(3) have f1: "First r = ?n" by simp
    then have "length (Last r) = 16" using len(1) assms(5) by metis
    note f = f1 this
    from len(2) have "Last r = ?l"
      by (cases rule: minify_16) (use assms(4) f(2) in simp_all)
    note r = f(1) this
    from assms(2) show ?thesis
    proof (cases rule: minify_16)
      case (1 w)
      then show ?thesis
        using r len by (simp add: Lookup_one_v4 To4_append in_range_def del: not_None_eq)
    next
      case 2
      then show ?thesis
        using blk r len assms(2) by (simp add: Lookup_one_v6 in_range_def del: not_None_eq)
    qed
  qed
qed

lemma cidr_ends:
  assumes "parseIPSpec spec = Some (first, final)" and "TrimSpace spec = addr @ 47 # num" and "47 \<notin> set addr"
    and "ParseAddr addr = Some (ip, bits)"
  defines "net \<equiv> map2 (AND) (if bits = 32 then drop 12 ip else ip) (mask_bytes (nat (value_of num)) (bits div 8))"
  shows "minifyIP (Some net) = Some first"
    and "minifyIP (Some (map2 (\<lambda>a m. a OR NOT m) net (mask_bytes (nat (value_of num)) (bits div 8)))) = Some final"
    and "length first = length final"
proof -
  have t: "takeWhile (\<lambda>c. c \<noteq> 47) (addr @ 47 # num) = addr" "dropWhile (\<lambda>c. c \<noteq> 47) (addr @ 47 # num) = 47 # num"
    using assms(3) by (auto simp: takeWhile_append dropWhile_append)
  have b: "CIDRMask p bits = mask_bytes p (bits div 8)" for p
    using ParseAddr_length [OF assms(4)] CIDRMask_bytes [of p 4] CIDRMask_bytes [of p 16] by auto
  let ?m = "mask_bytes (nat (value_of num)) (bits div 8)"
  have n: "ip_mask ip ?m = net"
    using ParseAddr_length [OF assms(4)] by (auto simp: ip_mask_def net_def)
  have "ParseCIDR (TrimSpace spec) = None \<or> ParseCIDR (TrimSpace spec) = Some (net, ?m)"
    by (simp add: ParseCIDR_def Let_def assms(2) t assms(4) b n)
  moreover have "47 \<in> set (TrimSpace spec)" using assms(2) by simp
  ultimately show "minifyIP (Some net) = Some first"
    "minifyIP (Some (map2 (\<lambda>a m. a OR NOT m) net ?m)) = Some final" "length first = length final"
    using assms(1) by (auto simp: parseIPSpec_def Let_def lastIP_def split: option.splits if_splits)
qed

text \<open>
  C21. A network in a list stands for its addresses and no others. Let a specification be an address, a slash
  and a number. The range made of it contains a 16-byte address exactly if that address is of the range's
  family and agrees with the written address on the bits that the number counts. IPv4 addresses are compared
  in their 16-byte form, with 96 bits more.
\<close>

theorem cidr_exact:
  assumes "parseIPSpec spec = Some (first, final)" and "TrimSpace spec = addr @ 47 # num" and "47 \<notin> set addr"
    and "ParseAddr addr = Some (ip, bits)" and "length c = 16"
  shows "Lookup [\<lparr>First = first, Last = final, Description = d\<rparr>] (Some c) \<noteq> None \<longleftrightarrow>
    (To4 c \<noteq> None \<longleftrightarrow> length first = 4) \<and>
    take (nat (value_of num) + (128 - bits)) (bits_of c) = take (nat (value_of num) + (128 - bits)) (bits_of ip)"
  using ParseAddr_length [OF assms(4)]
proof
  assume "bits = 32 \<and> (\<exists>v. ip = v4InV6Prefix @ v \<and> length v = 4)"
  then obtain v where v: "bits = 32" "ip = v4InV6Prefix @ v" "length v = 4" by blast
  let ?m = "mask_bytes (nat (value_of num)) 4"
  have "minifyIP (Some a) = Some a" if "length a = 4" for a
    using that by (simp add: minifyIP_def To4_def)
  note short = this
  have f: "first = map2 (AND) v ?m"
    using cidr_ends(1) [OF assms(1-4)] v by (simp add: short)
  have l: "final = map2 (\<lambda>a m. a OR NOT m) first ?m"
    using cidr_ends(2) [OF assms(1-4)] v unfolding f by (simp add: short)
  show ?thesis
    using f l cidr_v4 [OF v(3) assms(5), of "\<lparr>First = first, Last = final, Description = d\<rparr>" "nat (value_of num)"] v
    by (simp del: not_None_eq)
next
  assume "bits = 128 \<and> length ip = 16"
  then show ?thesis
    using cidr_v6 [of ip c "nat (value_of num)" "\<lparr>First = first, Last = final, Description = d\<rparr>"]
      cidr_ends [OF assms(1-4)] assms(5) by (simp del: not_None_eq)
qed

text \<open>In the network 10.0.0.0/8 the address 10.1.2.3 is found, 11.1.2.3 is not.\<close>

theorem cidr_exact_witness:
  "parseIPSpec (ascii ''10.0.0.0/8'') = Some ([10, 0, 0, 0], [10, 255, 255, 255])
   \<and> Lookup [\<lparr>First = [10, 0, 0, 0], Last = [10, 255, 255, 255], Description = []\<rparr>]
       (Some (v4InV6Prefix @ [10, 1, 2, 3])) \<noteq> None
   \<and> Lookup [\<lparr>First = [10, 0, 0, 0], Last = [10, 255, 255, 255], Description = []\<rparr>]
       (Some (v4InV6Prefix @ [11, 1, 2, 3])) = None"
proof -
  have h: "parseIPSpec (ascii ''10.0.0.0/8'') = Some ([10, 0, 0, 0], [10, 255, 255, 255])"
    "TrimSpace (ascii ''10.0.0.0/8'') = ascii ''10.0.0.0'' @ 47 # ascii ''8''" "47 \<notin> set (ascii ''10.0.0.0'')"
    "ParseAddr (ascii ''10.0.0.0'') = Some (v4InV6Prefix @ [10, 0, 0, 0], 32)"
    by code_simp+
  have l: "length (v4InV6Prefix @ [x, 1, 2, 3]) = 16" for x
    by simp
  have "To4 (v4InV6Prefix @ [10, 1, 2, 3]) \<noteq> None" "To4 (v4InV6Prefix @ [11, 1, 2, 3]) \<noteq> None"
    by (simp_all add: To4_append)
  moreover have "take (nat (value_of (ascii ''8'')) + (128 - 32)) (bits_of (v4InV6Prefix @ [10, 1, 2, 3]))
      = take (nat (value_of (ascii ''8'')) + (128 - 32)) (bits_of (v4InV6Prefix @ [10, 0, 0, 0]))"
    "take (nat (value_of (ascii ''8'')) + (128 - 32)) (bits_of (v4InV6Prefix @ [11, 1, 2, 3]))
      \<noteq> take (nat (value_of (ascii ''8'')) + (128 - 32)) (bits_of (v4InV6Prefix @ [10, 0, 0, 0]))"
    by code_simp+
  ultimately show ?thesis
    using h(1) cidr_exact [OF h l [of 10], of "[]"] cidr_exact [OF h l [of 11], of "[]"] by simp
qed

subsection \<open>Well-formed ranges\<close>

definition wf_range :: "ip_range \<Rightarrow> bool" where
  "wf_range r \<longleftrightarrow> (length (First r) = 4 \<or> length (First r) = 16 \<and> To4 (First r) = None \<and> To4 (Last r) = None)
     \<and> length (Last r) = length (First r) \<and> bytes_Compare (First r) (Last r) \<le> 0"

lemma compare_or: "length a = length m \<Longrightarrow> bytes_Compare a (map2 (\<lambda>a m. a OR NOT m) a m) \<le> 0"
proof (induction a m rule: list_induct2)
  case (Cons x a y m)
  then show ?case
    using le_word_or2 [of x "NOT y"] by (auto simp: not_less)
qed simp

text \<open>The short forms of two addresses of equal length, in order if the addresses are.\<close>

lemma minify_wf:
  assumes "length a = 4 \<or> length a = 16" and "length b = length a" and "bytes_Compare a b \<le> 0"
    and "minifyIP (Some a) = Some f" and "minifyIP (Some b) = Some l" and "length f = length l"
  shows "wf_range \<lparr>First = f, Last = l, Description = d\<rparr>"
proof (cases "length a = 4")
  case True
  with assms show ?thesis by (simp add: wf_range_def minifyIP_def To4_def)
next
  case False
  with assms(1,2) have a: "length a = 16" and b: "length b = 16" by simp_all
  from a show ?thesis
  proof (cases rule: minify_16)
    case (1 v)
    from b show ?thesis
      by (cases rule: minify_16) (use 1 b assms(3-6) in \<open>auto simp: wf_range_def\<close>)
  next
    case 2
    from b show ?thesis
      by (cases rule: minify_16) (use 2 a assms(3-6) in \<open>simp_all add: wf_range_def\<close>)
  qed
qed

lemma ParseIP_length: "ParseIP s = Some ip \<Longrightarrow> length ip = 16"
proof -
  assume "ParseIP s = Some ip"
  then obtain bits where "ParseAddr s = Some (ip, bits)" by (auto simp: ParseIP_def)
  from ParseAddr_length [OF this] show ?thesis by auto
qed

lemma ParseCIDR_length:
  assumes "ParseCIDR s = Some (net, m)"
  shows "length net = length m" and "length net = 4 \<or> length net = 16"
proof -
  from assms obtain ip bits p where p: "ParseAddr (takeWhile (\<lambda>c. c \<noteq> 47) s) = Some (ip, bits)"
    "m = CIDRMask p bits" "net = ip_mask ip m"
    by (auto simp: ParseCIDR_def Let_def split: option.splits if_splits)
  from ParseAddr_length [OF p(1)] have "length net = length m \<and> (length net = 4 \<or> length net = 16)"
    by (auto simp: p(2,3) ip_mask_def CIDRMask_def)
  then show "length net = length m" "length net = 4 \<or> length net = 16" by blast+
qed

lemma parseIPSpec_wf:
  assumes "parseIPSpec spec = Some (first, final)"
  shows "wf_range \<lparr>First = first, Last = final, Description = d\<rparr>"
proof -
  let ?s = "TrimSpace spec"
  have ip: "\<exists>c. ParseIP t = Some c \<and> length c = 16 \<and> minifyIP (Some c) = Some f" if "minifyIP (ParseIP t) = Some f" for t f
    using that ParseIP_length [of t] by (cases "ParseIP t") (simp_all add: minifyIP_def)
  consider net m where "ParseCIDR ?s = Some (net, m)" "minifyIP (Some net) = Some first"
      "minifyIP (Some (lastIP (net, m))) = Some final" "length first = length final"
    | t u where "minifyIP (ParseIP t) = Some first" "minifyIP (ParseIP u) = Some final"
      "length first = length final" "bytes_Compare first final \<le> 0"
    using assms by (auto simp: parseIPSpec_def Let_def not_less split: if_splits option.splits)
  then show ?thesis
  proof cases
    case (1 net m)
    note l = ParseCIDR_length [OF 1(1)]
    show ?thesis
      by (rule minify_wf [OF l(2) _ _ 1(2,3,4)]) (use l(1) compare_or in \<open>simp_all add: lastIP_def\<close>)
  next
    case (2 t u)
    from ip [OF 2(1)] ip [OF 2(2)] obtain a b where ab: "length a = 16" "minifyIP (Some a) = Some first"
      "length b = 16" "minifyIP (Some b) = Some final" by blast
    from ab(1) show ?thesis
    proof (cases rule: minify_16)
      case (1 v)
      with ab 2 show ?thesis by (simp add: wf_range_def)
    next
      case F: 2
      from ab(3) show ?thesis
        by (cases rule: minify_16) (use F ab 2 in \<open>simp_all add: wf_range_def\<close>)
    qed
  qed
qed

lemma parseLine_wf: "parseLine l = Good r \<Longrightarrow> wf_range r"
  by (auto simp: parseLine_def Let_def parseIPSpec_wf split: if_splits option.splits)

lemma scan_ranges_wf: "list_all wf_range rs \<Longrightarrow> list_all wf_range (fst (scan_ranges n ls rs ws))"
  by (induction n ls rs ws rule: scan_ranges.induct) (auto simp: parseLine_wf split: line_result.splits)

text \<open>
  C22. The list made of any text is well formed: the two ends of every range are addresses of one family in
  their short form, the first not after the last, and the ranges are in the order of their ends.
\<close>

theorem scanBuf_wf:
  "list_all wf_range (fst (scanBuf buf)) \<and> sorted_wrt (\<lambda>a b. \<not> ip_range_less b a) (fst (scanBuf buf))"
proof -
  have "list_all wf_range (New_list rs)" if "list_all wf_range rs" for rs
    using that New_list_set [of rs] by (simp add: list_all_iff)
  moreover have "sorted_wrt (\<lambda>a b. \<not> ip_range_less b a) (New_list rs)" for rs
    unfolding New_list_def by (rule ips.sorted_srt)
  ultimately show ?thesis
    using scan_ranges_wf [of "[]" 0 "raw_lines buf" "[]"] by (auto simp: scanBuf_def split: prod.splits)
qed

end
