(* ===== verification/Waf.thy ===== *)
theory Waf
  imports Iplist
begin

text \<open>
  The firewall of the web server, after \<^verbatim>\<open>src/server/web/waf\<close>: the blocked referring hosts, the snapshot
  loaded from the configuration, and the handler that admits or bans a request. The address lists are in
  \<open>Iplist\<close>. What depends on the tables of Unicode (\<^verbatim>\<open>strings.ToLower\<close>, \<^verbatim>\<open>unicode.IsLetter\<close>,
  \<^verbatim>\<open>unicode.IsDigit\<close>) and the parser of \<^verbatim>\<open>net/url\<close> are parameters, gathered in a record.
\<close>

record url =
  Scheme :: "byte list"
  has_user :: bool
  Path :: "byte list"
  RawQuery :: "byte list"
  Fragment :: "byte list"
  Hostname :: "byte list"

record lib =
  ToLower :: "byte list \<Rightarrow> byte list"
  letter_or_digit :: "nat \<Rightarrow> bool"
  url_Parse :: "byte list \<Rightarrow> url option"

subsection \<open>Referring hosts\<close>

definition defaultBlockedReferers :: "byte list list" where
  "defaultBlockedReferers = map ascii
     [''abhq.ru'', ''abmsx.tech'', ''akter.black'', ''bylampa.online'', ''lampa.click'', ''lampa.land'',
      ''lampa1.ru'', ''line.pm'', ''nnmtv.pw'', ''stull.xyz'', ''tvigl.info'', ''uspeh.sbs'', ''usph.xyz'',
      ''xabb.ru'']"

text \<open>One of the two equal loops of \<^verbatim>\<open>mergeReferers\<close>; the hosts seen are the hosts collected.\<close>

fun merge_hosts :: "lib \<Rightarrow> byte list list \<Rightarrow> byte list list \<Rightarrow> byte list list" where
  "merge_hosts lib [] blocked = blocked"
| "merge_hosts lib (h # hs) blocked =
     (let host = ToLower lib (TrimSpace h)
      in if host = [] \<or> host \<in> set blocked then merge_hosts lib hs blocked
         else merge_hosts lib hs (blocked @ [host]))"

definition mergeReferers :: "lib \<Rightarrow> byte list list \<Rightarrow> byte list list \<Rightarrow> byte list list" where
  "mergeReferers lib defaults fileHosts = merge_hosts lib fileHosts (merge_hosts lib defaults [])"

definition trim_suffix :: "byte \<Rightarrow> byte list \<Rightarrow> byte list" where
  "trim_suffix c s = (if s \<noteq> [] \<and> last s = c then butlast s else s)"

definition trim_set :: "byte set \<Rightarrow> byte list \<Rightarrow> byte list" where
  "trim_set cs s = rev (dropWhile (\<lambda>c. c \<in> cs) (rev (dropWhile (\<lambda>c. c \<in> cs) s)))"

text \<open>\<^verbatim>\<open>net.SplitHostPort\<close>, the host only\<close>

definition SplitHostPort :: "byte list \<Rightarrow> byte list option" where
  "SplitHostPort s =
     (if 58 \<notin> set s then None
      else let i = length s - 1 - length (takeWhile (\<lambda>c. c \<noteq> 58) (rev s))
           in if hd s = 91
              then if 93 \<notin> set s then None
                   else let e = length (takeWhile (\<lambda>c. c \<noteq> 93) s)
                        in if e + 1 \<noteq> i \<or> 91 \<in> set (drop 1 s) \<or> 93 \<in> set (drop (e + 1) s) then None
                           else Some (take (e - 1) (drop 1 s))
              else if 58 \<in> set (take i s) \<or> 91 \<in> set s \<or> 93 \<in> set s then None
              else Some (take i s))"

definition label_ok :: "lib \<Rightarrow> byte list \<Rightarrow> bool" where
  "label_ok lib label \<longleftrightarrow>
     label \<noteq> [] \<and> length label \<le> 63 \<and> hd label \<noteq> 45 \<and> last label \<noteq> 45
     \<and> (\<forall>r \<in> set (runes label). letter_or_digit lib r \<or> r = 45)"

text \<open>The last part of \<^verbatim>\<open>normalizeRefererRule\<close>, on the host found.\<close>

definition normalize_host :: "lib \<Rightarrow> byte list \<Rightarrow> byte list option" where
  "normalize_host lib host =
     (let host = trim_set {91, 93} (ToLower lib (trim_suffix 46 (TrimSpace host)))
      in if host = [] then None
         else if ParseIP host \<noteq> None then Some host
         else if length host > 253 then None
         else if \<forall>label \<in> set (split_at_byte 46 host). label_ok lib label then Some host
         else None)"

definition normalizeRefererRule :: "lib \<Rightarrow> byte list \<Rightarrow> byte list option" where
  "normalizeRefererRule lib rule =
     (let v = TrimSpace rule
      in if v = [] \<or> 42 \<in> set v then None
         else if sublist [58, 47, 47] v
         then (case url_Parse lib v of
                 None \<Rightarrow> None
               | Some u \<Rightarrow>
                   if Scheme u \<noteq> [104, 116, 116, 112] \<and> Scheme u \<noteq> [104, 116, 116, 112, 115]
                     \<or> has_user u \<or> Path u \<noteq> [] \<and> Path u \<noteq> [47] \<or> RawQuery u \<noteq> [] \<or> Fragment u \<noteq> []
                   then None
                   else normalize_host lib (Hostname u))
         else if \<exists>c \<in> set v. c \<in> {47, 63, 35, 64} then None
         else normalize_host lib (case SplitHostPort v of None \<Rightarrow> v | Some h \<Rightarrow> h))"

fun scan_hosts :: "lib \<Rightarrow> nat \<Rightarrow> byte list list \<Rightarrow> byte list list \<Rightarrow> parse_warning list \<Rightarrow> byte list list \<times> parse_warning list" where
  "scan_hosts lib lineNo [] hosts warnings = (hosts, warnings)"
| "scan_hosts lib lineNo (l # ls) hosts warnings =
     (if length l \<ge> maxScannerTokenSize then (hosts, warnings @ [(lineNo + 1, line_too_long)])
      else let line = TrimSpace (drop_cr l)
           in if line = [] \<or> hd line = 35 then scan_hosts lib (lineNo + 1) ls hosts warnings
              else case normalizeRefererRule lib line of
                     None \<Rightarrow> scan_hosts lib (lineNo + 1) ls hosts (warnings @ [(lineNo + 1, invalid_referer)])
                   | Some host \<Rightarrow> scan_hosts lib (lineNo + 1) ls (hosts @ [host]) warnings)"

definition scanRefererBufValidated :: "lib \<Rightarrow> byte list \<Rightarrow> byte list list \<times> parse_warning list" where
  "scanRefererBufValidated lib buf = (if buf = [] then ([], []) else scan_hosts lib 0 (raw_lines buf) [] [])"

definition hostFromHeader :: "lib \<Rightarrow> byte list \<Rightarrow> byte list" where
  "hostFromHeader lib header =
     (let v = TrimSpace header
      in if v = [] then []
         else case url_Parse lib v of
                None \<Rightarrow> []
              | Some u \<Rightarrow> ToLower lib (trim_suffix 46 (Hostname u)))"

fun matches_any :: "byte list \<Rightarrow> byte list list \<Rightarrow> bool" where
  "matches_any host [] = False"
| "matches_any host (b # bs) =
     (if b = [] then matches_any host bs
      else if host = b \<or> suffix (46 # b) host then True
      else matches_any host bs)"

definition hostMatchesBlocked :: "lib \<Rightarrow> byte list \<Rightarrow> byte list list \<Rightarrow> bool" where
  "hostMatchesBlocked lib host blocked =
     (let host = ToLower lib (TrimSpace host) in if host = [] then False else matches_any host blocked)"

definition isBlockedReferer :: "lib \<Rightarrow> byte list \<Rightarrow> byte list \<Rightarrow> byte list list \<Rightarrow> bool" where
  "isBlockedReferer lib referer origin blocked \<longleftrightarrow>
     (let host = hostFromHeader lib referer in host \<noteq> [] \<and> hostMatchesBlocked lib host blocked)
     \<or> (let host = hostFromHeader lib origin in host \<noteq> [] \<and> hostMatchesBlocked lib host blocked)"

subsection \<open>Configuration\<close>

datatype list_name = Storage | WhitelistName | BlacklistName | ReferersName

record waf_config =
  cf_Whitelist :: "byte list list"
  cf_Blacklist :: "byte list list"
  cf_Referers :: "byte list list"

record snapshot =
  WhiteIP :: "ip_range list"
  BlackIP :: "ip_range list"
  Referers :: "byte list list"
  WhitelistText :: "byte list"
  BlacklistText :: "byte list"
  ReferersText :: "byte list"
  Warnings :: "(list_name \<times> nat \<times> warn_code) list"
  IPEnabled :: bool
  RefererEnabled :: bool

fun listToText :: "byte list list \<Rightarrow> byte list" where
  "listToText [] = []"
| "listToText [l] = l"
| "listToText (l # ls) = l @ 10 # listToText ls"

text \<open>\<^verbatim>\<open>strings.ReplaceAll(text, "\r\n", "\n")\<close>\<close>

fun replace_crlf :: "byte list \<Rightarrow> byte list" where
  "replace_crlf [] = []"
| "replace_crlf [c] = [c]"
| "replace_crlf (a # b # s) = (if a = 13 \<and> b = 10 then 10 # replace_crlf s else a # replace_crlf (b # s))"

definition textToList :: "byte list \<Rightarrow> byte list list" where
  "textToList text = filter (\<lambda>l. TrimSpace l \<noteq> []) (split_at_byte 10 (replace_crlf text))"

text \<open>\<open>None\<close> stands for settings that cannot be read.\<close>

definition loadLists :: "lib \<Rightarrow> waf_config option \<Rightarrow> snapshot" where
  "loadLists lib settings =
     (let cfg = (case settings of
            None \<Rightarrow> \<lparr>cf_Whitelist = [], cf_Blacklist = [], cf_Referers = []\<rparr> | Some cfg \<Rightarrow> cfg);
          whiteBuf = listToText (cf_Whitelist cfg);
          blackBuf = listToText (cf_Blacklist cfg);
          referBuf = listToText (cf_Referers cfg);
          (white, wWarn) = scanBuf whiteBuf;
          (black, bWarn) = scanBuf blackBuf;
          (userReferers, rWarn) = scanRefererBufValidated lib referBuf;
          referers = mergeReferers lib defaultBlockedReferers userReferers
      in \<lparr>WhiteIP = white, BlackIP = black, Referers = referers,
          WhitelistText = whiteBuf, BlacklistText = blackBuf, ReferersText = referBuf,
          Warnings = (if settings = None then [(Storage, 0, read_failed)] else [])
            @ map (\<lambda>w. (WhitelistName, w)) wWarn @ map (\<lambda>w. (BlacklistName, w)) bWarn
            @ map (\<lambda>w. (ReferersName, w)) rWarn,
          IPEnabled = (length white > 0 \<or> length black > 0), RefererEnabled = (length referers > 0)\<rparr>)"

text \<open>
  The settings file: unreadable, without an entry for the firewall, with one that does not decode, or with
  a configuration. \<open>failed\<close> tells how a write ends: \<open>None\<close> if it succeeds, otherwise what it leaves in the
  file. The lists are of valid UTF-8, so that encoding them as JSON loses nothing.
\<close>

datatype waf_file = Unreadable | NoKey | BadKey | HasKey waf_config

definition GetWAFConfig :: "waf_file \<Rightarrow> waf_config option" where
  "GetWAFConfig f =
     (case f of
        Unreadable \<Rightarrow> None
      | NoKey \<Rightarrow> Some \<lparr>cf_Whitelist = [], cf_Blacklist = [], cf_Referers = []\<rparr>
      | BadKey \<Rightarrow> None
      | HasKey cfg \<Rightarrow> Some cfg)"

text \<open>The file afterwards, and whether there was no error.\<close>

definition SetWAFConfig :: "bool \<Rightarrow> waf_file option \<Rightarrow> waf_config \<Rightarrow> waf_file \<Rightarrow> waf_file \<times> bool" where
  "SetWAFConfig ReadOnly failed cfg f =
     (if ReadOnly then (f, False)
      else if f = Unreadable then (f, False)
      else case failed of None \<Rightarrow> (HasKey cfg, True) | Some f' \<Rightarrow> (f', False))"

record lists_update =
  lu_Whitelist :: "byte list"
  lu_Blacklist :: "byte list"
  lu_Referers :: "byte list"

record waf_store =
  settings_file :: waf_file
  store_snap :: snapshot

definition reload :: "lib \<Rightarrow> waf_store \<Rightarrow> waf_store" where
  "reload lib s = s\<lparr>store_snap := loadLists lib (GetWAFConfig (settings_file s))\<rparr>"

text \<open>\<open>None\<close> is an error.\<close>

definition update :: "lib \<Rightarrow> bool \<Rightarrow> waf_file option \<Rightarrow> lists_update \<Rightarrow> waf_store \<Rightarrow> waf_store \<times> snapshot option" where
  "update lib ReadOnly failed u s =
     (case SetWAFConfig ReadOnly failed
             \<lparr>cf_Whitelist = textToList (lu_Whitelist u), cf_Blacklist = textToList (lu_Blacklist u),
              cf_Referers = textToList (lu_Referers u)\<rparr> (settings_file s) of
        (f, False) \<Rightarrow> (s\<lparr>settings_file := f\<rparr>, None)
      | (f, True) \<Rightarrow>
          let new = loadLists lib (GetWAFConfig f)
          in (s\<lparr>settings_file := f, store_snap := new\<rparr>, Some new))"

subsection \<open>The handler\<close>

datatype verdict = Admit | Ban

definition clientIP :: "byte list \<Rightarrow> ip option" where
  "clientIP remoteAddr =
     ParseIP (case SplitHostPort remoteAddr of None \<Rightarrow> trim_set {91, 93} remoteAddr | Some host \<Rightarrow> host)"

definition WAF :: "lib \<Rightarrow> snapshot \<Rightarrow> byte list \<Rightarrow> byte list \<Rightarrow> byte list \<Rightarrow> verdict" where
  "WAF lib snap referer origin remoteAddr =
     (if isBlockedReferer lib referer origin (Referers snap) then Ban
      else if \<not> IPEnabled snap then Admit
      else case clientIP remoteAddr of
             None \<Rightarrow> Ban
           | Some ip \<Rightarrow>
               let ip = minifyIP (Some ip)
               in if length (WhiteIP snap) > 0 \<and> Lookup (WhiteIP snap) ip = None then Ban
                  else if length (BlackIP snap) > 0 \<and> Lookup (BlackIP snap) ip \<noteq> None then Ban
                  else Admit)"

subsection \<open>What the lists say\<close>

text \<open>
  The ranges and the hosts of a list of lines, and when a host is one of the hosts or below one.
\<close>

definition line_rules :: "byte list list \<Rightarrow> ip_range set" where
  "line_rules ls = {r. \<exists>l \<in> set ls. parseLine (drop_cr l) = Good r}"

definition line_hosts :: "lib \<Rightarrow> byte list list \<Rightarrow> byte list set" where
  "line_hosts lib ls = {h. \<exists>l \<in> set ls. let line = TrimSpace (drop_cr l)
     in line \<noteq> [] \<and> hd line \<noteq> 35 \<and> normalizeRefererRule lib line = Some h}"

definition blocked_hosts :: "lib \<Rightarrow> byte list list \<Rightarrow> byte list set" where
  "blocked_hosts lib ls =
     (\<lambda>h. ToLower lib (TrimSpace h)) ` (set defaultBlockedReferers \<union> line_hosts lib ls) - {[]}"

definition under_any :: "lib \<Rightarrow> byte list \<Rightarrow> byte list set \<Rightarrow> bool" where
  "under_any lib h hosts \<longleftrightarrow>
     h \<noteq> [] \<and> ToLower lib (TrimSpace h) \<noteq> [] \<and>
     (\<exists>b \<in> hosts. ToLower lib (TrimSpace h) = b \<or> suffix (46 # b) (ToLower lib (TrimSpace h)))"

text \<open>Lines that the scanner accepts.\<close>

definition plain_lines :: "byte list list \<Rightarrow> bool" where
  "plain_lines ls \<longleftrightarrow> (\<forall>l \<in> set ls. 10 \<notin> set l \<and> length l < maxScannerTokenSize)"

lemma split_at_byte_ne: "split_at_byte c s \<noteq> []"
  by (cases s) auto

lemma split_at_byte_none: "c \<notin> set s \<Longrightarrow> split_at_byte c s = [s]"
  by (induction s) auto

lemma split_at_byte_append: "c \<notin> set l \<Longrightarrow> split_at_byte c (l @ c # s) = l # split_at_byte c s"
  by (induction l) auto

lemma split_at_byte_free: "l \<in> set (split_at_byte c s) \<Longrightarrow> c \<notin> set l"
proof (induction s arbitrary: l)
  case (Cons x s)
  then show ?case
    using split_at_byte_ne [of c s] by (cases "split_at_byte c s") (auto split: if_splits)
qed simp

lemma split_listToText: "ls \<noteq> [] \<Longrightarrow> \<forall>l \<in> set ls. 10 \<notin> set l \<Longrightarrow> split_at_byte 10 (listToText ls) = ls"
  by (induction ls rule: listToText.induct) (simp_all add: split_at_byte_none split_at_byte_append)

lemma listToText_Nil: "listToText ls = [] \<Longrightarrow> ls = [] \<or> ls = [[]]"
  by (induction ls rule: listToText.induct) auto

lemma raw_lines_text:
  assumes "plain_lines ls"
  shows "set (raw_lines (listToText ls)) \<subseteq> set ls" "set ls \<subseteq> insert [] (set (raw_lines (listToText ls)))"
proof -
  have "set xs \<subseteq> insert (last xs) (set (butlast xs))" for xs :: "byte list list"
    by (cases xs rule: rev_cases) auto
  then have "raw_lines (listToText ls) = (if last ls = [] then butlast ls else ls)" if "ls \<noteq> []"
    using split_listToText [OF that] assms by (simp add: plain_lines_def raw_lines_def Let_def)
  moreover have "raw_lines [] = []" by (simp add: raw_lines_def)
  ultimately show "set (raw_lines (listToText ls)) \<subseteq> set ls" "set ls \<subseteq> insert [] (set (raw_lines (listToText ls)))"
    using \<open>set ls \<subseteq> insert (last ls) (set (butlast ls))\<close>
    by (cases "ls = []"; auto dest: in_set_butlastD)+
qed

lemma scan_ranges_set:
  "\<forall>l \<in> set ls. length l < maxScannerTokenSize \<Longrightarrow>
     set (fst (scan_ranges n ls rs ws)) = set rs \<union> line_rules ls"
proof (induction n ls rs ws rule: scan_ranges.induct)
  case (2 n l ls rs ws)
  then show ?case
    by (cases "parseLine (drop_cr l)") (auto simp: line_rules_def)
qed (simp add: line_rules_def)

lemma scan_hosts_set:
  "\<forall>l \<in> set ls. length l < maxScannerTokenSize \<Longrightarrow>
     set (fst (scan_hosts lib n ls hs ws)) = set hs \<union> line_hosts lib ls"
proof (induction lib n ls hs ws rule: scan_hosts.induct)
  case (2 lib n l ls hs ws)
  let ?t = "TrimSpace (drop_cr l)"
  have e: "line_hosts lib (l # ls) = (if ?t = [] \<or> hd ?t = 35 then {} else set_option (normalizeRefererRule lib ?t)) \<union> line_hosts lib ls"
    by (auto simp: line_hosts_def Let_def)
  show ?case
    using 2 by (cases "normalizeRefererRule lib ?t") (auto simp: e Let_def)
qed (simp add: line_hosts_def)

lemma merge_hosts_set:
  "set (merge_hosts lib hs bs) = set bs \<union> ((\<lambda>h. ToLower lib (TrimSpace h)) ` set hs - {[]})"
  by (induction lib hs bs rule: merge_hosts.induct) (auto simp: Let_def)

lemma blank_line: "drop_cr [] = []" "TrimSpace [] = []" "parseLine [] = Skip"
  by (code_simp)+

lemma line_sets_text:
  assumes "plain_lines ls"
  shows "line_rules (raw_lines (listToText ls)) = line_rules ls"
    and "line_hosts lib (raw_lines (listToText ls)) = line_hosts lib ls"
  using raw_lines_text [OF assms] by (fastforce simp: line_rules_def line_hosts_def Let_def blank_line)+

lemma scanBuf_set:
  assumes "plain_lines ls"
  shows "set (fst (scanBuf (listToText ls))) = line_rules ls"
proof -
  have "\<forall>l \<in> set (raw_lines (listToText ls)). length l < maxScannerTokenSize"
    using raw_lines_text(1) [OF assms] assms by (auto simp: plain_lines_def)
  from scan_ranges_set [OF this, of 0 "[]" "[]"]
  have "set (fst (scan_ranges 0 (raw_lines (listToText ls)) [] [])) = line_rules ls"
    by (simp add: line_sets_text [OF assms])
  then show ?thesis
    using line_sets_text(1) [OF assms]
    by (auto simp: scanBuf_def New_list_set raw_lines_def line_rules_def split: prod.splits)
qed

lemma scanReferer_set:
  assumes "plain_lines ls"
  shows "set (fst (scanRefererBufValidated lib (listToText ls))) = line_hosts lib ls"
proof -
  have "\<forall>l \<in> set (raw_lines (listToText ls)). length l < maxScannerTokenSize"
    using raw_lines_text(1) [OF assms] assms by (auto simp: plain_lines_def)
  from scan_hosts_set [OF this, of lib 0 "[]" "[]"]
  show ?thesis
    using line_sets_text(2) [OF assms, of lib]
    by (auto simp: scanRefererBufValidated_def raw_lines_def line_hosts_def)
qed

lemma matches_any_iff: "matches_any h bs \<longleftrightarrow> (\<exists>b \<in> set bs. b \<noteq> [] \<and> (h = b \<or> suffix (46 # b) h))"
  by (induction bs) auto

lemma loadLists_sets:
  assumes "plain_lines (cf_Whitelist cfg)" and "plain_lines (cf_Blacklist cfg)" and "plain_lines (cf_Referers cfg)"
  shows "set (WhiteIP (loadLists lib (Some cfg))) = line_rules (cf_Whitelist cfg)"
    and "set (BlackIP (loadLists lib (Some cfg))) = line_rules (cf_Blacklist cfg)"
    and "set (Referers (loadLists lib (Some cfg))) = blocked_hosts lib (cf_Referers cfg)"
    and "IPEnabled (loadLists lib (Some cfg)) \<longleftrightarrow> line_rules (cf_Whitelist cfg) \<noteq> {} \<or> line_rules (cf_Blacklist cfg) \<noteq> {}"
  using scanBuf_set [OF assms(1)] scanBuf_set [OF assms(2)] scanReferer_set [OF assms(3), of lib]
  by (auto simp: loadLists_def Let_def blocked_hosts_def mergeReferers_def merge_hosts_set split: prod.splits)

lemma hostMatches_iff:
  assumes "[] \<notin> set bs"
  shows "h \<noteq> [] \<and> hostMatchesBlocked lib h bs \<longleftrightarrow> under_any lib h (set bs)"
proof -
  have "(\<exists>b \<in> set bs. b \<noteq> [] \<and> P b) \<longleftrightarrow> (\<exists>b \<in> set bs. P b)" for P
    using assms by metis
  then show ?thesis
    by (simp add: hostMatchesBlocked_def under_any_def Let_def matches_any_iff)
qed

lemma isBlockedReferer_iff:
  assumes "[] \<notin> set bs"
  shows "isBlockedReferer lib referer origin bs \<longleftrightarrow>
    under_any lib (hostFromHeader lib referer) (set bs) \<or> under_any lib (hostFromHeader lib origin) (set bs)"
  unfolding isBlockedReferer_def Let_def hostMatches_iff [OF assms] by (rule refl)

lemma clientIP_length: "clientIP remote = Some ip \<Longrightarrow> length ip = 16"
  unfolding clientIP_def by (rule ParseIP_length)

lemma Lookup_minify:
  assumes "length c = 16" and "minifyIP (Some c) = Some ip"
  shows "Lookup rs (Some ip) \<noteq> None \<longleftrightarrow> (\<exists>r \<in> set rs. in_range ip r)"
  using assms(1)
proof (cases rule: minify_16)
  case (1 v)
  then show ?thesis
    using ip_lookup_iff [of rs v] assms(2) by (simp add: Lookup_def To4_def del: not_None_eq)
next
  case 2
  then show ?thesis
    using ip_lookup_iff [of rs c] assms by (simp add: Lookup_def To16_def del: not_None_eq)
qed

lemma WAF_iff:
  assumes "[] \<notin> set (Referers snap)" and "IPEnabled snap \<longleftrightarrow> WhiteIP snap \<noteq> [] \<or> BlackIP snap \<noteq> []"
  shows "WAF lib snap referer origin remote = Admit \<longleftrightarrow>
    \<not> under_any lib (hostFromHeader lib referer) (set (Referers snap)) \<and>
    \<not> under_any lib (hostFromHeader lib origin) (set (Referers snap)) \<and>
    (set (WhiteIP snap) = {} \<and> set (BlackIP snap) = {} \<or>
     (\<exists>ip. minifyIP (clientIP remote) = Some ip \<and> (set (WhiteIP snap) = {} \<or> (\<exists>r \<in> set (WhiteIP snap). in_range ip r))
        \<and> \<not> (\<exists>r \<in> set (BlackIP snap). in_range ip r)))"
proof (cases "clientIP remote")
  case None
  then show ?thesis
    using assms by (simp add: WAF_def isBlockedReferer_iff minifyIP_def)
next
  case (Some c)
  obtain ip where ip: "minifyIP (Some c) = Some ip"
    by (rule minify_16 [OF clientIP_length [OF Some]])
  have l: "Lookup rs (Some ip) = None \<longleftrightarrow> \<not> (\<exists>r \<in> set rs. in_range ip r)" for rs
    using Lookup_minify [OF clientIP_length [OF Some] ip, of rs] by blast
  show ?thesis
    using assms by (simp add: WAF_def isBlockedReferer_iff Some ip l del: not_None_eq)
qed

lemma update_file:
  assumes "update lib ReadOnly failed u s = (s', Some view)"
  shows "store_snap s' = loadLists lib (Some \<lparr>cf_Whitelist = textToList (lu_Whitelist u),
    cf_Blacklist = textToList (lu_Blacklist u), cf_Referers = textToList (lu_Referers u)\<rparr>)"
  using assms
  by (auto simp: update_def SetWAFConfig_def GetWAFConfig_def Let_def split: if_splits option.splits)

text \<open>
  C20. After an update that succeeds, the handler does what the texts say, whatever it did before. It admits a
  request if neither the host of its referrer nor that of its origin is a blocked host or below one, and
  there are no address rules, or its client's address is in a range of the whitelist (if that has any) and in
  no range of the blacklist. The blocked hosts are the built-in ones and those of the text. It bans every
  other request. Lines have less than 1 MiB.
\<close>

theorem update_decides:
  assumes "update lib ReadOnly failed u s = (s', Some view)"
    and "\<forall>l \<in> set (textToList (lu_Whitelist u) @ textToList (lu_Blacklist u) @ textToList (lu_Referers u)).
      length l < maxScannerTokenSize"
  defines "W \<equiv> line_rules (textToList (lu_Whitelist u))" and "B \<equiv> line_rules (textToList (lu_Blacklist u))"
    and "H \<equiv> blocked_hosts lib (textToList (lu_Referers u))"
  shows "WAF lib (store_snap s') referer origin remote = Admit \<longleftrightarrow>
    \<not> under_any lib (hostFromHeader lib referer) H \<and> \<not> under_any lib (hostFromHeader lib origin) H \<and>
    (W = {} \<and> B = {} \<or>
     (\<exists>ip. minifyIP (clientIP remote) = Some ip \<and> (W = {} \<or> (\<exists>r \<in> W. in_range ip r)) \<and> \<not> (\<exists>r \<in> B. in_range ip r)))"
proof -
  let ?cfg = "\<lparr>cf_Whitelist = textToList (lu_Whitelist u), cf_Blacklist = textToList (lu_Blacklist u),
    cf_Referers = textToList (lu_Referers u)\<rparr>"
  have "10 \<notin> set l" if "l \<in> set (textToList t)" for l t
    using that split_at_byte_free by (auto simp: textToList_def)
  then have p: "plain_lines (cf_Whitelist ?cfg)" "plain_lines (cf_Blacklist ?cfg)" "plain_lines (cf_Referers ?cfg)"
    using assms(2) by (auto simp: plain_lines_def)
  note sets = loadLists_sets [OF p, of lib, simplified, folded W_def B_def H_def]
  have "[] \<notin> H" by (simp add: H_def blocked_hosts_def)
  then show ?thesis
    unfolding update_file [OF assms(1)]
    using WAF_iff [of "loadLists lib (Some ?cfg)" lib referer origin remote] sets by (simp add: set_empty [symmetric] del: set_empty)
qed

text \<open>A lower-casing that changes only ASCII letters, and a parser that finds no host.\<close>

definition ascii_lib :: lib where
  "ascii_lib = \<lparr>ToLower = map (\<lambda>c. if 65 \<le> c \<and> c \<le> 90 then c + 32 else c),
     letter_or_digit = (\<lambda>c. 48 \<le> c \<and> c \<le> 57 \<or> 97 \<le> c \<and> c \<le> 122), url_Parse = (\<lambda>s. None)\<rparr>"

definition lan_update :: lists_update where
  "lan_update = \<lparr>lu_Whitelist = ascii ''10.0.0.0/8'', lu_Blacklist = ascii ''10.0.0.5'', lu_Referers = []\<rparr>"

definition empty_store :: waf_store where
  "empty_store = \<lparr>settings_file = NoKey, store_snap = loadLists ascii_lib (Some
     \<lparr>cf_Whitelist = [], cf_Blacklist = [], cf_Referers = []\<rparr>)\<rparr>"

lemma lan_lines:
  "textToList (lu_Whitelist lan_update) = [ascii ''10.0.0.0/8'']"
  "textToList (lu_Blacklist lan_update) = [ascii ''10.0.0.5'']"
  "textToList (lu_Referers lan_update) = []"
  by code_simp+

text \<open>A client inside the whitelisted network is admitted, one that is blacklisted as well is not.\<close>

theorem update_decides_witness:
  "WAF ascii_lib (store_snap (fst (update ascii_lib False None lan_update empty_store))) [] [] (ascii ''10.1.2.3:80'') = Admit
   \<and> (\<exists>r \<in> line_rules [ascii ''10.0.0.0/8'']. in_range [10, 1, 2, 3] r)
   \<and> \<not> (\<exists>r \<in> line_rules [ascii ''10.0.0.5'']. in_range [10, 1, 2, 3] r)
   \<and> WAF ascii_lib (store_snap (fst (update ascii_lib False None lan_update empty_store))) [] [] (ascii ''10.0.0.5:80'') = Ban"
proof -
  let ?s = "fst (update ascii_lib False None lan_update empty_store)"
  have u: "update ascii_lib False None lan_update empty_store = (?s, Some (store_snap ?s))"
    by (simp add: update_def SetWAFConfig_def GetWAFConfig_def empty_store_def Let_def)
  have len: "\<forall>l \<in> set (textToList (lu_Whitelist lan_update) @ textToList (lu_Blacklist lan_update)
      @ textToList (lu_Referers lan_update)). length l < maxScannerTokenSize"
    by (simp add: lan_lines ascii_def maxScannerTokenSize_def)
  have p: "parseLine (drop_cr (ascii ''10.0.0.0/8'')) = Good \<lparr>First = [10, 0, 0, 0], Last = [10, 255, 255, 255], Description = []\<rparr>"
    "parseLine (drop_cr (ascii ''10.0.0.5'')) = Good \<lparr>First = [10, 0, 0, 5], Last = [10, 0, 0, 5], Description = []\<rparr>"
    "minifyIP (clientIP (ascii ''10.1.2.3:80'')) = Some [10, 1, 2, 3]"
    "minifyIP (clientIP (ascii ''10.0.0.5:80'')) = Some [10, 0, 0, 5]"
    "hostFromHeader ascii_lib [] = []"
    by code_simp+
  have r: "line_rules [ascii ''10.0.0.0/8''] = {\<lparr>First = [10, 0, 0, 0], Last = [10, 255, 255, 255], Description = []\<rparr>}"
    "line_rules [ascii ''10.0.0.5''] = {\<lparr>First = [10, 0, 0, 5], Last = [10, 0, 0, 5], Description = []\<rparr>}"
    using p(1,2) by (auto simp: line_rules_def)
  show ?thesis
    using update_decides [OF u len, of "[]" "[]" "ascii ''10.1.2.3:80''", unfolded lan_lines r p]
      update_decides [OF u len, of "[]" "[]" "ascii ''10.0.0.5:80''", unfolded lan_lines r p]
    by (cases "WAF ascii_lib (store_snap ?s) [] [] (ascii ''10.0.0.5:80'')")
      (simp_all add: r under_any_def in_range_def)
qed

end
