(* ===== verification/Mp4Box.thy ===== *)
theory Mp4Box
  imports Prelude
begin

text \<open>
  MP4 boxes, after the lower half of \<^verbatim>\<open>src/server/gstreamer/mp4box.go\<close>: big-endian integers, reading one box
  and all boxes of a stretch of bytes, and the writers of small boxes. \<open>uint32\<close> and \<open>uint64\<close> are words.
  Positions and lengths of byte slices are natural numbers. A box is a slice with its header; the
  lemmas show that what the writers write is read back.
\<close>

type_synonym u32 = "32 word"
type_synonym u64 = "64 word"

subsection \<open>Results\<close>

text \<open>A result is \<open>Inl\<close> an error message or \<open>Inr\<close> a value; \<open>chain\<close> goes on with the value.\<close>

type_synonym 'a res = "string + 'a"

definition chain :: "'a res \<Rightarrow> ('a \<Rightarrow> 'b res) \<Rightarrow> 'b res" where
  "chain m f = (case m of Inl e \<Rightarrow> Inl e | Inr x \<Rightarrow> f x)"

lemma chain_simps [simp]: "chain (Inl e) f = Inl e" "chain (Inr x) f = f x"
  by (simp_all add: chain_def)

lemma chain_Inr [simp]: "chain m f = Inr y \<longleftrightarrow> (\<exists>x. m = Inr x \<and> f x = Inr y)"
  by (cases m) simp_all

lemma chain_cong [fundef_cong]: "m = m' \<Longrightarrow> (\<And>x. m' = Inr x \<Longrightarrow> f x = f' x) \<Longrightarrow> chain m f = chain m' f'"
  by (cases m') simp_all

subsection \<open>Big-endian integers\<close>

definition be_value :: "byte list \<Rightarrow> nat" where
  "be_value bs = foldl (\<lambda>a b. a * 256 + unat b) 0 bs"

fun be_bytes :: "nat \<Rightarrow> nat \<Rightarrow> byte list" where
  "be_bytes 0 v = []"
| "be_bytes (Suc n) v = of_nat (v div 256 ^ n) # be_bytes n v"

definition Uint32 :: "byte list \<Rightarrow> u32" where
  "Uint32 bs = of_nat (be_value (take 4 bs))"

definition Uint64 :: "byte list \<Rightarrow> u64" where
  "Uint64 bs = of_nat (be_value (take 8 bs))"

definition put32 :: "u32 \<Rightarrow> byte list" where
  "put32 v = be_bytes 4 (unat v)"

definition put64 :: "u64 \<Rightarrow> byte list" where
  "put64 v = be_bytes 8 (unat v)"

lemma length_be_bytes [simp]: "length (be_bytes n v) = n"
  by (induction n v rule: be_bytes.induct) simp_all

lemma length_put [simp]: "length (put32 v) = 4" "length (put64 w) = 8"
  by (simp_all add: put32_def put64_def)

lemma be_value_foldl: "foldl (\<lambda>a b. a * 256 + unat b) x bs = x * 256 ^ length bs + be_value bs"
proof (induction bs arbitrary: x)
  case (Cons b bs)
  have "be_value (b # bs) = foldl (\<lambda>a b. a * 256 + unat b) (unat b) bs"
    by (simp add: be_value_def)
  with Cons.IH [of "unat b"] Cons.IH [of "x * 256 + unat b"] show ?case
    by (simp add: algebra_simps)
qed (simp add: be_value_def)

lemma be_value_Cons: "be_value (b # bs) = unat b * 256 ^ length bs + be_value bs"
  using be_value_foldl [of "unat b" bs] by (simp add: be_value_def)

lemma unat_of_nat_byte: "unat (of_nat n :: byte) = n mod 256"
  by (simp add: unat_of_nat)

lemma be_value_bytes: "be_value (be_bytes n v) = v mod 256 ^ n"
proof (induction n)
  case (Suc n)
  have "v mod 256 ^ Suc n = v div 256 ^ n mod 256 * 256 ^ n + v mod 256 ^ n"
    using mod_mult2_eq [of v "256 ^ n" 256] by (simp add: mult.commute)
  then show ?case
    by (simp add: be_value_Cons unat_of_nat_byte Suc.IH)
qed (simp add: be_value_def)

lemma Uint32_put32 [simp]: "Uint32 (put32 v @ bs) = v"
proof -
  have "unat v < 256 ^ 4" using unsigned_less [of v] by simp
  then show ?thesis by (simp add: Uint32_def put32_def be_value_bytes)
qed

lemma Uint64_put64 [simp]: "Uint64 (put64 v @ bs) = v"
proof -
  have "unat v < 256 ^ 8" using unsigned_less [of v] by simp
  then show ?thesis by (simp add: Uint64_def put64_def be_value_bytes)
qed

lemma Uint_put_Nil [simp]: "Uint32 (put32 v) = v" "Uint64 (put64 w) = w"
  using Uint32_put32 [of v "[]"] Uint64_put64 [of w "[]"] by simp_all

text \<open>\<open>uint64\<close> sums that are guarded against overflow.\<close>

lemma unat_u32: "n < 2 ^ 32 \<Longrightarrow> unat (of_nat n :: u32) = n"
  by (simp add: unat_of_nat)

lemma of_nat_u32_eq: "n < 2 ^ 32 \<Longrightarrow> (of_nat n :: u32) = w \<longleftrightarrow> n = unat w"
  using unat_u32 [of n] by auto

lemma unat_u64: "n < 2 ^ 64 \<Longrightarrow> unat (of_nat n :: u64) = n"
  by (simp add: unat_of_nat)

lemma max_u64: "unat (- 1 :: u64) = 2 ^ 64 - 1"
  by (simp add: unsigned_minus_1_eq_mask mask_eq_exp_minus_1)

lemma guarded_add:
  fixes a b :: u64
  assumes "\<not> - 1 - a < b"
  shows "unat (a + b) = unat a + unat b"
proof -
  have a: "unat a < 2 ^ 64" using unsigned_less [of a] by simp
  have "unat b \<le> unat (- 1 - a)" using assms by (simp add: word_le_nat_alt [symmetric])
  also have "\<dots> = 2 ^ 64 - 1 - unat a"
    using max_u64 by (subst unat_sub) (simp_all only: word_order.extremum)
  finally show ?thesis
    using a by (intro unat_add_lem [THEN iffD1]) simp
qed

subsection \<open>Types of boxes\<close>

definition tag :: "string \<Rightarrow> u32" where
  "tag s = foldl (\<lambda>a c. push_bit 8 a + of_nat (of_char c)) 0 s"

definition boxStyp :: u32 where "boxStyp = tag ''styp''"

definition boxSidx :: u32 where "boxSidx = tag ''sidx''"

definition boxEmsg :: u32 where "boxEmsg = tag ''emsg''"

definition boxFree :: u32 where "boxFree = tag ''free''"

definition boxPrft :: u32 where "boxPrft = tag ''prft''"

definition boxMoov :: u32 where "boxMoov = tag ''moov''"

definition boxMoof :: u32 where "boxMoof = tag ''moof''"

definition boxMdat :: u32 where "boxMdat = tag ''mdat''"

definition boxMfhd :: u32 where "boxMfhd = tag ''mfhd''"

definition boxTraf :: u32 where "boxTraf = tag ''traf''"

definition boxTfhd :: u32 where "boxTfhd = tag ''tfhd''"

definition boxTfdt :: u32 where "boxTfdt = tag ''tfdt''"

definition boxTrun :: u32 where "boxTrun = tag ''trun''"

definition boxTrak :: u32 where "boxTrak = tag ''trak''"

definition boxTkhd :: u32 where "boxTkhd = tag ''tkhd''"

definition boxMdia :: u32 where "boxMdia = tag ''mdia''"

definition boxMdhd :: u32 where "boxMdhd = tag ''mdhd''"

definition boxHdlr :: u32 where "boxHdlr = tag ''hdlr''"

definition boxMvex :: u32 where "boxMvex = tag ''mvex''"

definition boxTrex :: u32 where "boxTrex = tag ''trex''"

definition boxMfra :: u32 where "boxMfra = tag ''mfra''"

definition handlerVideo :: u32 where "handlerVideo = tag ''vide''"

definition handlerAudio :: u32 where "handlerAudio = tag ''soun''"

lemma traf_tags:
  "boxTfhd \<noteq> boxTfdt" "boxTfhd \<noteq> boxTrun" "boxTfdt \<noteq> boxTrun" "boxMfhd \<noteq> boxTraf" "boxTfdt \<noteq> boxTfhd"
  "boxTrun \<noteq> boxTfhd" "boxTrun \<noteq> boxTfdt" "boxTraf \<noteq> boxMfhd"
  by code_simp+

subsection \<open>Reading boxes\<close>

text \<open>The type of the box at a position, the size of its header, the box, and the position behind it.\<close>

definition tryReadBox :: "byte list \<Rightarrow> nat \<Rightarrow> (u32 \<times> nat \<times> byte list \<times> nat) option" where
  "tryReadBox dat start =
     (if start > length dat \<or> length dat - start < 8 then None
      else let size32 = Uint32 (drop start dat);
               boxType = Uint32 (drop (start + 4) dat)
           in if size32 = 1 \<and> length dat - start < 16 then None
              else let size = (if size32 = 1 then unat (Uint64 (drop (start + 8) dat))
                               else if size32 = 0 then length dat - start else unat size32);
                       headerSize = (if size32 = 1 then 16 else 8)
                   in if size < headerSize \<or> size > 2 ^ 31 - 1 \<or> size > length dat - start then None
                      else Some (boxType, headerSize, take size (drop start dat), start + size))"

lemma tryReadBox_moves:
  "tryReadBox dat start = Some (t, h, box, pos) \<Longrightarrow> start < pos \<and> pos \<le> length dat"
  by (auto simp: tryReadBox_def Let_def split: if_splits)

text \<open>The loop that reads one box after the other until that fails.\<close>

function boxes :: "byte list \<Rightarrow> nat \<Rightarrow> (u32 \<times> nat \<times> byte list) list" where
  "boxes dat start =
     (case tryReadBox dat start of
        None \<Rightarrow> []
      | Some (t, h, box, pos) \<Rightarrow> (t, h, box) # boxes dat pos)"
  by auto
termination
  by (relation "measure (\<lambda>(dat, start). length dat - start)") (auto dest: tryReadBox_moves)

declare boxes.simps [simp del]

text \<open>The slice of the box found, with the size of its header.\<close>

function findBox :: "byte list \<Rightarrow> nat \<Rightarrow> u32 \<Rightarrow> (byte list \<times> nat) option" where
  "findBox dat start required =
     (if start < length dat
      then case tryReadBox dat start of
             None \<Rightarrow> None
           | Some (t, h, box, pos) \<Rightarrow>
               if t \<noteq> required then findBox dat pos required else Some (take (pos - start) (drop start dat), h)
      else None)"
  by auto
termination
  by (relation "measure (\<lambda>(dat, start, required). length dat - start)") (auto dest: tryReadBox_moves)

declare findBox.simps [simp del]

definition readUint32 :: "byte list \<Rightarrow> nat \<Rightarrow> (u32 \<times> nat) option" where
  "readUint32 dat position =
     (if length dat - position < 4 then None else Some (Uint32 (drop position dat), position + 4))"

subsection \<open>Writing boxes\<close>

definition writeHeader :: "u32 \<Rightarrow> u32 \<Rightarrow> byte list" where
  "writeHeader sz boxType = put32 sz @ put32 boxType"

definition writeTfdt :: "u64 \<Rightarrow> byte list" where
  "writeTfdt decodeTime = put32 20 @ put32 boxTfdt @ put32 0x01000000 @ put64 decodeTime"

definition writeMfhd :: "u32 \<Rightarrow> byte list" where
  "writeMfhd sequence = put32 16 @ put32 boxMfhd @ put32 0 @ put32 sequence"

definition writeMdatHeader :: "nat \<Rightarrow> nat \<Rightarrow> byte list" where
  "writeMdatHeader payloadLength headerSize =
     (if headerSize = 8 then writeHeader (of_nat (payloadLength + 8)) boxMdat
      else put32 1 @ put32 boxMdat @ put64 (of_nat (payloadLength + 16)))"

text \<open>A written box: its length, its type and its body.\<close>

definition mk_box :: "u32 \<Rightarrow> byte list \<Rightarrow> byte list" where
  "mk_box t body = put32 (of_nat (8 + length body)) @ put32 t @ body"

lemma length_mk_box [simp]: "length (mk_box t body) = 8 + length body"
  by (simp add: mk_box_def)

lemma small_boxes:
  "writeTfdt d = mk_box boxTfdt (put32 0x01000000 @ put64 d)"
  "writeMfhd s = mk_box boxMfhd (put32 0 @ put32 s)"
  "n = 8 + length body \<Longrightarrow> writeHeader (of_nat n) t @ body = mk_box t body"
  by (simp_all add: writeTfdt_def writeMfhd_def writeHeader_def mk_box_def)

lemma tryReadBox_mk_box:
  assumes "8 + length body < 2 ^ 31"
  shows "tryReadBox (pre @ mk_box t body @ rest) (length pre)
     = Some (t, 8, mk_box t body, length pre + length (mk_box t body))"
proof -
  define n :: u32 where "n = of_nat (8 + length body)"
  have n: "unat n = 8 + length body"
    unfolding n_def using assms by (intro unat_u32) simp
  have ne: "n \<noteq> 0" "n \<noteq> 1"
    by (rule notI, use n in \<open>simp only: unat_0 unat_1\<close>)+
  have u: "Uint32 (drop (length pre) (pre @ mk_box t body @ rest)) = n"
    "Uint32 (drop (length pre + 4) (pre @ mk_box t body @ rest)) = t"
    by (simp_all add: mk_box_def n_def)
  show ?thesis
    unfolding tryReadBox_def u Let_def using n ne assms by simp
qed

text \<open>The boxes of a sequence of written boxes.\<close>

lemma boxes_written:
  assumes "\<forall>(t, body) \<in> set bs. 8 + length body < 2 ^ 31"
  shows "boxes (pre @ concat (map (\<lambda>(t, body). mk_box t body) bs)) (length pre)
     = map (\<lambda>(t, body). (t, 8, mk_box t body)) bs"
  using assms
proof (induction bs arbitrary: pre)
  case Nil
  then show ?case by (subst boxes.simps) (simp add: tryReadBox_def)
next
  case (Cons b bs)
  obtain t body where b: "b = (t, body)" by (cases b)
  have "boxes ((pre @ mk_box t body) @ concat (map (\<lambda>(t, body). mk_box t body) bs)) (length (pre @ mk_box t body))
      = map (\<lambda>(t, body). (t, 8, mk_box t body)) bs"
    using Cons by (intro Cons.IH) simp
  moreover have "8 + length body < 2 ^ 31" using Cons.prems b by simp
  note tryReadBox_mk_box [OF this, of pre t "concat (map (\<lambda>(t, body). mk_box t body) bs)"]
  ultimately show ?case
    by (subst boxes.simps) (simp add: b)
qed

end
