(* ===== verification/Mp4Frag.thy ===== *)
theory Mp4Frag
  imports Mp4Box Float64
begin

text \<open>
  Movie fragments, after \<^verbatim>\<open>src/server/gstreamer/mp4box.go\<close>: what the source's \<open>moof\<close> boxes say about the samples
  of a track, the payload that follows in \<open>mdat\<close>, splitting a fragment between two samples, and writing
  several fragments as one. Sizes of buffers in memory are integers without wrap-around;
  \<open>uint64\<close> times and sizes are words.
\<close>

unbundle bit_operations_syntax

subsection \<open>Tracks, samples and fragments\<close>

record trexInfo =
  tx_descriptionIndex :: u32
  tx_duration :: u32
  tx_size :: u32
  tx_flags :: u32

record trackInfo =
  tk_id :: u32
  tk_timescale :: u32
  tk_trex :: trexInfo

record tfhdInfo =
  th_trackID :: u32
  th_sampleDescriptionIndex :: u32
  th_hasSampleDescriptionIndex :: bool
  th_defaultDuration :: u32
  th_defaultSize :: u32
  th_defaultFlags :: u32
  th_hasDefaultFlags :: bool

record mp4Sample =
  sm_duration :: u32
  sm_size :: u32
  sm_flags :: u32
  sm_compositionTimeOffsetRaw :: u32

record mp4Run =
  rn_sourceDataOffset :: int
  rn_hasSourceDataOffset :: bool
  rn_samples :: "mp4Sample list"
  rn_version :: u32
  rn_hasCompositionTimeOffsets :: bool
  rn_duration :: u64
  rn_dataSize :: u64
  rn_payloadOffset :: int
  rn_outputOffset :: int
  rn_startsWithSync :: bool
  rn_hasInferredDuration :: bool

record mp4Fragment =
  fr_trackID :: u32
  fr_timescale :: u32
  fr_decodeTime :: u64
  fr_duration :: u64
  fr_startsWithSync :: bool
  fr_sampleDescriptionIndex :: u32
  fr_tfhd :: "byte list"
  fr_runs :: "mp4Run list"
  fr_payloadStart :: int
  fr_payloadLen :: int
  fr_hasInferredDuration :: bool

definition no_trex :: trexInfo where
  "no_trex = \<lparr>tx_descriptionIndex = 0, tx_duration = 0, tx_size = 0, tx_flags = 0\<rparr>"

definition no_track :: trackInfo where
  "no_track = \<lparr>tk_id = 0, tk_timescale = 0, tk_trex = no_trex\<rparr>"

definition endTime :: "mp4Fragment \<Rightarrow> u64" where
  "endTime f = fr_decodeTime f + fr_duration f"

definition isSyncSample :: "u32 \<Rightarrow> bool" where
  "isSyncSample flags \<longleftrightarrow> flags AND 0x00010000 = 0 \<and> drop_bit 24 flags AND 3 \<noteq> 1"

subsection \<open>The initialization segment\<close>

definition full_box_u32 :: "byte list \<Rightarrow> nat \<Rightarrow> u32" where
  "full_box_u32 box header =
     (if length box \<le> header then 0
      else let v = box ! header;
               offset = (if v = 1 then Some (header + 20) else if v = 0 then Some (header + 12) else None)
           in case offset of
                None \<Rightarrow> 0
              | Some p \<Rightarrow> if length box \<ge> p + 4 then Uint32 (drop p box) else 0)"

definition readTkhdTrackID :: "byte list \<Rightarrow> nat \<Rightarrow> u32" where
  "readTkhdTrackID box header = full_box_u32 box header"

definition readMdhdTimescale :: "byte list \<Rightarrow> nat \<Rightarrow> u32" where
  "readMdhdTimescale box header = full_box_u32 box header"

definition readHandlerType :: "byte list \<Rightarrow> nat \<Rightarrow> u32" where
  "readHandlerType box header = (if length box \<ge> header + 8 + 4 then Uint32 (drop (header + 8) box) else 0)"

definition readTrex :: "byte list \<Rightarrow> nat \<Rightarrow> (u32 \<times> trexInfo) option" where
  "readTrex box header =
     (if length box < header + 24 then None
      else let trackID = Uint32 (drop (header + 4) box); descriptionIndex = Uint32 (drop (header + 8) box)
           in if trackID = 0 \<or> descriptionIndex = 0 then None
              else Some (trackID,
                \<lparr>tx_descriptionIndex = descriptionIndex, tx_duration = Uint32 (drop (header + 12) box),
                 tx_size = Uint32 (drop (header + 16) box), tx_flags = Uint32 (drop (header + 20) box)\<rparr>))"

fun findTrex :: "(u32 \<times> trexInfo) list \<Rightarrow> u32 \<Rightarrow> trexInfo" where
  "findTrex [] trackID = no_trex"
| "findTrex ((i, v) # es) trackID = (if i = trackID then v else findTrex es trackID)"

fun read_mdia :: "(u32 \<times> nat \<times> byte list) list \<Rightarrow> u32 \<times> u32 \<Rightarrow> u32 \<times> u32" where
  "read_mdia [] th = th"
| "read_mdia ((t, h, box) # bs) (timescale, handler) =
     read_mdia bs
       (if t = boxMdhd then (readMdhdTimescale box h, handler)
        else if t = boxHdlr then (timescale, readHandlerType box h)
        else (timescale, handler))"

fun read_trak :: "(u32 \<times> nat \<times> byte list) list \<Rightarrow> u32 \<times> u32 \<times> u32 \<Rightarrow> u32 \<times> u32 \<times> u32" where
  "read_trak [] r = r"
| "read_trak ((t, h, box) # bs) (trackID, th) =
     read_trak bs
       (if t = boxTkhd then (readTkhdTrackID box h, th)
        else if t \<noteq> boxMdia then (trackID, th)
        else (trackID, read_mdia (boxes box h) th))"

text \<open>The track's identifier, time scale and handler.\<close>

definition readTrack :: "byte list \<Rightarrow> nat \<Rightarrow> u32 \<times> u32 \<times> u32" where
  "readTrack trak trakHeader = read_trak (boxes trak trakHeader) (0, 0, 0)"

fun read_mvex :: "(u32 \<times> nat \<times> byte list) list \<Rightarrow> (u32 \<times> trexInfo) list \<Rightarrow> (u32 \<times> trexInfo) list res" where
  "read_mvex [] es = Inr es"
| "read_mvex ((t, h, box) # bs) es =
     (if t \<noteq> boxTrex then read_mvex bs es
      else case readTrex box h of None \<Rightarrow> Inl ''invalid trex'' | Some e \<Rightarrow> read_mvex bs (es @ [e]))"

text \<open>The tracks found so far: identifier and time scale of the video and of the audio track.\<close>

type_synonym found = "(u32 \<times> u32) \<times> (u32 \<times> u32) \<times> (u32 \<times> trexInfo) list"

fun read_moov :: "(u32 \<times> nat \<times> byte list) list \<Rightarrow> found \<Rightarrow> found res" where
  "read_moov [] r = Inr r"
| "read_moov ((t, h, box) # bs) (video, audio, es) =
     (if t = boxTrak
      then case readTrack box h of (trackID, timescale, handler) \<Rightarrow>
             if handler = handlerVideo
             then if fst video \<noteq> 0 then Inl ''multiple video tracks in mp4mux output''
                  else read_moov bs ((trackID, timescale), audio, es)
             else if handler = handlerAudio
             then if fst audio \<noteq> 0 then Inl ''multiple audio tracks in mp4mux output''
                  else read_moov bs (video, (trackID, timescale), es)
             else read_moov bs (video, audio, es)
      else if t \<noteq> boxMvex then read_moov bs (video, audio, es)
      else chain (read_mvex (boxes box h) es) (\<lambda>es. read_moov bs (video, audio, es)))"

definition parseInitTracks :: "byte list \<Rightarrow> (trackInfo \<times> trackInfo) res" where
  "parseInitTracks init =
     (case findBox init 0 boxMoov of
        None \<Rightarrow> Inl ''moov was not found''
      | Some (moov, moovHeader) \<Rightarrow>
          chain (read_moov (boxes moov moovHeader) ((0, 0), (0, 0), []))
            (\<lambda>((videoID, videoTimescale), (audioID, audioTimescale), es).
               if videoID = 0 \<or> videoTimescale = 0 then Inl ''video track was not found through hdlr=vide''
               else let video = \<lparr>tk_id = videoID, tk_timescale = videoTimescale, tk_trex = findTrex es videoID\<rparr>
                    in if audioID = 0 then Inr (video, no_track)
                       else if audioTimescale = 0 then Inl ''audio timescale is zero''
                       else Inr (video, \<lparr>tk_id = audioID, tk_timescale = audioTimescale, tk_trex = findTrex es audioID\<rparr>)))"

subsection \<open>Reading a fragment's boxes\<close>

text \<open>A field that is read if its flag is set, with its value otherwise.\<close>

definition opt_u32 :: "bool \<Rightarrow> byte list \<Rightarrow> nat \<Rightarrow> string \<Rightarrow> u32 \<Rightarrow> (u32 \<times> nat) res" where
  "opt_u32 present box cursor err v =
     (if \<not> present then Inr (v, cursor)
      else case readUint32 box cursor of None \<Rightarrow> Inl err | Some r \<Rightarrow> Inr r)"

definition parseTfhd :: "byte list \<Rightarrow> nat \<Rightarrow> tfhdInfo res" where
  "parseTfhd box headerSize =
     (if length box < headerSize + 8 then Inl ''tfhd is too small''
      else let versionFlags = Uint32 (drop headerSize box);
               flags = versionFlags AND 0x00ffffff;
               trackID = Uint32 (drop (headerSize + 4) box)
           in if drop_bit 24 versionFlags \<noteq> 0 then Inl ''unsupported tfhd version''
              else if flags AND NOT 0x03003b \<noteq> 0 then Inl ''unsupported tfhd flags''
              else if flags AND 0x000001 \<noteq> 0 then Inl ''tfhd.base-data-offset-present is not supported''
              else if flags AND 0x010000 \<noteq> 0 then Inl ''tfhd.duration-is-empty is not supported''
              else if trackID = 0 then Inl ''tfhd track_ID is zero''
              else let hasIndex = flags AND 0x000002 \<noteq> 0; hasFlags = flags AND 0x000020 \<noteq> 0
                   in chain (opt_u32 hasIndex box (headerSize + 8) ''invalid tfhd sample_description_index'' 0) (\<lambda>(idx, cursor).
                      if hasIndex \<and> idx = 0 then Inl ''invalid tfhd sample_description_index''
                      else
                      chain (opt_u32 (flags AND 0x000008 \<noteq> 0) box cursor ''invalid tfhd default_sample_duration'' 0) (\<lambda>(dur, cursor).
                      chain (opt_u32 (flags AND 0x000010 \<noteq> 0) box cursor ''invalid tfhd default_sample_size'' 0) (\<lambda>(sz, cursor).
                      chain (opt_u32 hasFlags box cursor ''invalid tfhd default_sample_flags'' 0) (\<lambda>(fl, cursor).
                      if cursor \<noteq> length box then Inl ''invalid tfhd body''
                      else Inr \<lparr>th_trackID = trackID, th_sampleDescriptionIndex = idx,
                             th_hasSampleDescriptionIndex = hasIndex, th_defaultDuration = dur,
                             th_defaultSize = sz, th_defaultFlags = fl, th_hasDefaultFlags = hasFlags\<rparr>)))))"

definition buildCanonicalTfhd :: "u32 \<Rightarrow> u32 \<Rightarrow> byte list" where
  "buildCanonicalTfhd trackID sampleDescriptionIndex =
     put32 20 @ put32 boxTfhd @ put32 (0x000002 OR 0x020000) @ put32 trackID @ put32 sampleDescriptionIndex"

definition readTfdt :: "byte list \<Rightarrow> nat \<Rightarrow> u64 option" where
  "readTfdt box headerSize =
     (if length box < headerSize + 8 then None
      else let v = box ! headerSize; offset = headerSize + 4
           in if v = 1 then if length box < offset + 8 then None else Some (Uint64 (drop offset box))
              else if v = 0 then if length box < offset + 4 then None else Some (ucast (Uint32 (drop offset box)))
              else None)"

text \<open>How the entries of a \<open>trun\<close> look: which fields they have and the values of those they have not.\<close>

record trun_form =
  tf_hasDuration :: bool
  tf_hasSize :: bool
  tf_hasFlags :: bool
  tf_hasOffsets :: bool
  tf_hasFirst :: bool
  tf_firstFlags :: u32
  tf_defaultDuration :: u32
  tf_defaultSize :: u32
  tf_defaultFlags :: u32

fun read_samples :: "trun_form \<Rightarrow> byte list \<Rightarrow> nat \<Rightarrow> bool \<Rightarrow> nat \<Rightarrow> u64 \<Rightarrow> u64 \<Rightarrow> mp4Sample list
    \<Rightarrow> (mp4Sample list \<times> nat \<times> u64 \<times> u64) res" where
  "read_samples fm box 0 i0 cursor duration dataSize samples = Inr (samples, cursor, duration, dataSize)"
| "read_samples fm box (Suc n) i0 cursor duration dataSize samples =
     chain (opt_u32 (tf_hasDuration fm) box cursor ''invalid trun sample_duration'' (tf_defaultDuration fm)) (\<lambda>(d, cursor).
     chain (opt_u32 (tf_hasSize fm) box cursor ''invalid trun sample_size'' (tf_defaultSize fm)) (\<lambda>(z, cursor).
     chain (opt_u32 (tf_hasFlags fm) box cursor ''invalid trun sample_flags''
         (if i0 \<and> tf_hasFirst fm then tf_firstFlags fm else tf_defaultFlags fm)) (\<lambda>(f, cursor).
     chain (opt_u32 (tf_hasOffsets fm) box cursor ''invalid trun composition_time_offset'' 0) (\<lambda>(c, cursor).
     if - 1 - duration < ucast d then Inl ''trun duration overflow''
     else if - 1 - dataSize < ucast z then Inl ''trun payload size overflow''
     else read_samples fm box n False cursor (duration + ucast d) (dataSize + ucast z)
            (samples @ [\<lparr>sm_duration = d, sm_size = z, sm_flags = f, sm_compositionTimeOffsetRaw = c\<rparr>])))))"

definition maxTrunSamples :: nat where
  "maxTrunSamples = 1000000"

definition normalizeTrun :: "byte list \<Rightarrow> nat \<Rightarrow> u32 \<Rightarrow> u32 \<Rightarrow> u32 \<Rightarrow> bool \<Rightarrow> mp4Run res" where
  "normalizeTrun box headerSize defaultDuration defaultSize defaultFlags defaultDurationIsHint =
     (if length box < headerSize + 8 then Inl ''trun is too small''
      else let versionFlags = Uint32 (drop headerSize box);
               version = drop_bit 24 versionFlags;
               flags = versionFlags AND 0x00ffffff;
               sampleCount = Uint32 (drop (headerSize + 4) box);
               hasOffset = flags AND 0x000001 \<noteq> 0;
               hasFirst = flags AND 0x000004 \<noteq> 0;
               hasDuration = flags AND 0x000100 \<noteq> 0;
               hasSize = flags AND 0x000200 \<noteq> 0;
               hasFlags = flags AND 0x000400 \<noteq> 0;
               hasOffsets = flags AND 0x000800 \<noteq> 0
           in if version > 1 then Inl ''unsupported trun version''
              else if flags AND NOT 0x000f05 \<noteq> 0 then Inl ''unsupported trun flags''
              else if sampleCount = 0 then Inl ''trun sample_count is zero''
              else chain (opt_u32 hasOffset box (headerSize + 8) ''invalid trun data_offset'' 0) (\<lambda>(dataOffset, cursor).
                if hasFirst \<and> hasFlags then Inl ''trun first_sample_flags and sample_flags are both present''
                else chain (opt_u32 hasFirst box cursor ''invalid trun first_sample_flags'' defaultFlags) (\<lambda>(firstFlags, cursor).
                  if \<not> hasDuration \<and> defaultDuration = 0 then Inl ''sample duration is absent''
                  else if \<not> hasSize \<and> defaultSize = 0 then Inl ''sample size is absent''
                  else if unat sampleCount > maxTrunSamples then Inl ''trun sample_count exceeds safety limit''
                  else let fields = of_bool hasDuration + of_bool hasSize + of_bool hasFlags + of_bool hasOffsets
                       in if cursor + unat sampleCount * fields * 4 \<noteq> length box then Inl ''invalid trun body''
                          else chain (read_samples
                              \<lparr>tf_hasDuration = hasDuration, tf_hasSize = hasSize, tf_hasFlags = hasFlags,
                               tf_hasOffsets = hasOffsets, tf_hasFirst = hasFirst, tf_firstFlags = firstFlags,
                               tf_defaultDuration = defaultDuration, tf_defaultSize = defaultSize,
                               tf_defaultFlags = defaultFlags\<rparr> box (unat sampleCount) True cursor 0 0 [])
                            (\<lambda>(samples, cursor, duration, dataSize).
                              if cursor \<noteq> length box \<or> duration = 0 \<or> dataSize = 0 then Inl ''invalid trun body''
                              else Inr \<lparr>rn_sourceDataOffset = sint dataOffset, rn_hasSourceDataOffset = hasOffset,
                                     rn_samples = samples, rn_version = version,
                                     rn_hasCompositionTimeOffsets = hasOffsets, rn_duration = duration,
                                     rn_dataSize = dataSize, rn_payloadOffset = 0, rn_outputOffset = 0,
                                     rn_startsWithSync = isSyncSample (sm_flags (hd samples)),
                                     rn_hasInferredDuration = (\<not> hasDuration \<and> defaultDurationIsHint)\<rparr>))))"

text \<open>The first pass over a \<open>traf\<close> finds its \<open>tfhd\<close> and \<open>tfdt\<close>, the second its runs.\<close>

fun traf_heads :: "(u32 \<times> nat \<times> byte list) list \<Rightarrow> tfhdInfo option \<Rightarrow> u64 option \<Rightarrow> (tfhdInfo option \<times> u64 option) res" where
  "traf_heads [] h d = Inr (h, d)"
| "traf_heads ((t, headerSize, box) # bs) h d =
     (if t = boxTfhd
      then if h \<noteq> None then Inl ''duplicate tfhd''
           else chain (parseTfhd box headerSize) (\<lambda>v. traf_heads bs (Some v) d)
      else if t = boxTfdt
      then if d \<noteq> None then Inl ''duplicate tfdt''
           else case readTfdt box headerSize of None \<Rightarrow> Inl ''invalid tfdt'' | Some v \<Rightarrow> traf_heads bs h (Some v)
      else if t = boxTrun then traf_heads bs h d
      else Inl ''unsupported box inside traf'')"

fun traf_runs :: "(u32 \<times> nat \<times> byte list) list \<Rightarrow> u32 \<Rightarrow> u32 \<Rightarrow> u32 \<Rightarrow> bool \<Rightarrow> u64 \<Rightarrow> bool \<Rightarrow> mp4Run list
    \<Rightarrow> (u64 \<times> bool \<times> mp4Run list) res" where
  "traf_runs [] dd ds df hint duration inferred runs = Inr (duration, inferred, runs)"
| "traf_runs ((t, headerSize, box) # bs) dd ds df hint duration inferred runs =
     (if t \<noteq> boxTrun then traf_runs bs dd ds df hint duration inferred runs
      else chain (normalizeTrun box headerSize dd ds df hint) (\<lambda>run.
        if - 1 - duration < rn_duration run then Inl ''fragment duration overflow''
        else traf_runs bs dd ds df hint (duration + rn_duration run) (inferred \<or> rn_hasInferredDuration run) (runs @ [run])))"

definition parseTraf :: "byte list \<Rightarrow> nat \<Rightarrow> trackInfo \<Rightarrow> trackInfo \<Rightarrow> u32 \<Rightarrow> u32 \<Rightarrow> mp4Fragment res" where
  "parseTraf traf trafHeader videoTrack audioTrack videoDurationHint audioDurationHint =
     chain (traf_heads (boxes traf trafHeader) None None) (\<lambda>(tfhd, tfdt).
       case (tfhd, tfdt) of
         (Some h, Some decodeTime) \<Rightarrow>
           chain (if th_trackID h = tk_id videoTrack then Inr (videoTrack, videoDurationHint)
                  else if tk_id audioTrack \<noteq> 0 \<and> th_trackID h = tk_id audioTrack then Inr (audioTrack, audioDurationHint)
                  else Inl ''unsupported track_ID'') (\<lambda>(track, durationHint).
             if tk_timescale track = 0 then Inl ''timescale is zero''
             else let trex = tk_trex track;
                      index = (if th_hasSampleDescriptionIndex h then th_sampleDescriptionIndex h else tx_descriptionIndex trex);
                      known = (if th_defaultDuration h = 0 then tx_duration trex else th_defaultDuration h);
                      defaultDuration = (if known = 0 then durationHint else known);
                      isHint = (known = 0 \<and> durationHint \<noteq> 0);
                      defaultSize = (if th_defaultSize h = 0 then tx_size trex else th_defaultSize h);
                      defaultFlags = (if th_hasDefaultFlags h then th_defaultFlags h else tx_flags trex)
                  in if index = 0 then Inl ''sample description index is absent''
                     else chain (traf_runs (boxes traf trafHeader) defaultDuration defaultSize defaultFlags isHint 0 False [])
                       (\<lambda>(duration, inferred, runs).
                          if runs = [] \<or> duration = 0 then Inl ''trun/duration was not found''
                          else Inr \<lparr>fr_trackID = th_trackID h, fr_timescale = tk_timescale track, fr_decodeTime = decodeTime,
                                 fr_duration = duration, fr_startsWithSync = rn_startsWithSync (hd runs),
                                 fr_sampleDescriptionIndex = index, fr_tfhd = buildCanonicalTfhd (th_trackID h) index,
                                 fr_runs = runs, fr_payloadStart = 0, fr_payloadLen = 0, fr_hasInferredDuration = inferred\<rparr>))
       | _ \<Rightarrow> Inl ''tfhd/tfdt was not found'')"

fun moof_trafs :: "(u32 \<times> nat \<times> byte list) list \<Rightarrow> trackInfo \<Rightarrow> trackInfo \<Rightarrow> u32 \<Rightarrow> u32 \<Rightarrow> mp4Fragment option \<Rightarrow> mp4Fragment res" where
  "moof_trafs [] v a vh ah dst = (case dst of None \<Rightarrow> Inl ''traf was not found'' | Some f \<Rightarrow> Inr f)"
| "moof_trafs ((t, headerSize, box) # bs) v a vh ah dst =
     (if t \<noteq> boxTraf then moof_trafs bs v a vh ah dst
      else if dst \<noteq> None then Inl ''source moof must contain one traf''
      else chain (parseTraf box headerSize v a vh ah) (\<lambda>f. moof_trafs bs v a vh ah (Some f)))"

definition parseSourceMoof :: "byte list \<Rightarrow> trackInfo \<Rightarrow> trackInfo \<Rightarrow> u32 \<Rightarrow> u32 \<Rightarrow> mp4Fragment res" where
  "parseSourceMoof moof videoTrack audioTrack videoDurationHint audioDurationHint =
     (case tryReadBox moof 0 of
        None \<Rightarrow> Inl ''buffer does not contain exactly one moof''
      | Some (t, moofHeader, moofBox, pos) \<Rightarrow>
          if t \<noteq> boxMoof \<or> pos \<noteq> length moof then Inl ''buffer does not contain exactly one moof''
          else moof_trafs (boxes moofBox moofHeader) videoTrack audioTrack videoDurationHint audioDurationHint None)"

subsection \<open>The payload\<close>

fun attach_runs :: "mp4Run list \<Rightarrow> int \<Rightarrow> int \<Rightarrow> (mp4Run list \<times> int) res" where
  "attach_runs [] payloadFromMoof expected = Inr ([], expected)"
| "attach_runs (run # runs) payloadFromMoof expected =
     (let offset = (if rn_hasSourceDataOffset run then wrap64 (rn_sourceDataOffset run - payloadFromMoof) else expected)
      in if offset \<noteq> expected then Inl ''non-contiguous source mdat''
         else if unat (rn_dataSize run) > 2 ^ 63 - 1 then Inl ''trun payload is too large''
         else chain (attach_runs runs payloadFromMoof (wrap64 (offset + int (unat (rn_dataSize run))))) (\<lambda>(runs', expected').
           Inr (run\<lparr>rn_payloadOffset := offset\<rparr> # runs', expected')))"

definition attachPayload :: "mp4Fragment \<Rightarrow> int \<Rightarrow> int \<Rightarrow> int \<Rightarrow> mp4Fragment res" where
  "attachPayload fragment payloadStart payloadLen payloadFromMoof =
     (if payloadStart < 0 \<or> payloadLen < 0 then Inl ''negative source mdat payload range''
      else chain (attach_runs (fr_runs fragment) payloadFromMoof 0) (\<lambda>(runs, expected).
        if expected \<noteq> payloadLen then Inl ''source mdat size mismatch''
        else Inr (fragment\<lparr>fr_runs := runs, fr_payloadStart := payloadStart, fr_payloadLen := payloadLen\<rparr>)))"

text \<open>The last duration of a sample that is not zero; the loops run backwards.\<close>

definition lastSampleDuration :: "mp4Fragment \<Rightarrow> u32" where
  "lastSampleDuration fragment =
     (case find (\<lambda>d. d \<noteq> 0) (map sm_duration (rev (concat (map rn_samples (fr_runs fragment))))) of
        None \<Rightarrow> 0 | Some d \<Rightarrow> d)"

definition firstPresentationTime :: "mp4Fragment \<Rightarrow> int res" where
  "firstPresentationTime fragment =
     (if fr_runs fragment = [] \<or> rn_samples (hd (fr_runs fragment)) = [] then Inl ''video fragment has no first sample''
      else let run = hd (fr_runs fragment); raw = sm_compositionTimeOffsetRaw (hd (rn_samples run));
               compositionOffset = (if rn_version run = 1 then sint raw else int (unat raw));
               result = int (unat (fr_decodeTime fragment))
           in if result > 2 ^ 63 - 1 then Inl ''video decode time exceeds int64''
              else if compositionOffset > 0 \<and> result > 2 ^ 63 - 1 - compositionOffset then Inl ''presentation time overflow''
              else if compositionOffset < 0 \<and> result < - (2 ^ 63) - compositionOffset then Inl ''presentation time underflow''
              else Inr (result + compositionOffset))"

subsection \<open>Splitting a fragment\<close>

fun sample_count :: "mp4Run list \<Rightarrow> nat \<Rightarrow> nat res" where
  "sample_count [] acc = (if acc = 0 then Inl ''fragment contains no samples'' else Inr acc)"
| "sample_count (run # runs) acc =
     (if rn_samples run = [] then Inl ''fragment trun has no parsed samples''
      else sample_count runs (acc + length (rn_samples run)))"

definition fragmentSampleCount :: "mp4Fragment \<Rightarrow> nat res" where
  "fragmentSampleCount fragment = sample_count (fr_runs fragment) 0"

fun sum_samples :: "mp4Sample list \<Rightarrow> u64 \<Rightarrow> u64 \<Rightarrow> (u64 \<times> u64) res" where
  "sum_samples [] duration dataSize = Inr (duration, dataSize)"
| "sum_samples (sample # samples) duration dataSize =
     (if - 1 - duration < ucast (sm_duration sample) then Inl ''derived trun duration overflow''
      else if - 1 - dataSize < ucast (sm_size sample) then Inl ''derived trun payload size overflow''
      else sum_samples samples (duration + ucast (sm_duration sample)) (dataSize + ucast (sm_size sample)))"

definition buildExplicitRun :: "mp4Run \<Rightarrow> mp4Sample list \<Rightarrow> mp4Run res" where
  "buildExplicitRun template samples =
     (if samples = [] then Inl ''cannot build trun without samples''
      else chain (sum_samples samples 0 0) (\<lambda>(duration, dataSize).
        if duration = 0 \<or> dataSize = 0 then Inl ''invalid derived trun''
        else Inr \<lparr>rn_sourceDataOffset = 0, rn_hasSourceDataOffset = False, rn_samples = samples,
               rn_version = rn_version template, rn_hasCompositionTimeOffsets = rn_hasCompositionTimeOffsets template,
               rn_duration = duration, rn_dataSize = dataSize, rn_payloadOffset = 0, rn_outputOffset = 0,
               rn_startsWithSync = isSyncSample (sm_flags (hd samples)), rn_hasInferredDuration = False\<rparr>))"

text \<open>One side of the split: its runs, bytes and duration.\<close>

type_synonym part = "mp4Run list \<times> u64 \<times> u64"

definition add_run :: "string \<Rightarrow> mp4Run \<Rightarrow> mp4Sample list \<Rightarrow> part \<Rightarrow> part res" where
  "add_run err template samples p =
     (case p of (runs, bytes, duration) \<Rightarrow>
        chain (buildExplicitRun template samples) (\<lambda>run.
          if unat bytes > 2 ^ 63 - 1 \<or> unat (rn_dataSize run) > 2 ^ 63 - 1 - unat bytes then Inl err
          else Inr (runs @ [run\<lparr>rn_payloadOffset := int (unat bytes)\<rparr>], bytes + rn_dataSize run, duration + rn_duration run)))"

fun split_runs :: "mp4Run list \<Rightarrow> nat \<Rightarrow> part \<Rightarrow> part \<Rightarrow> (nat \<times> part \<times> part) res" where
  "split_runs [] remaining left right = Inr (remaining, left, right)"
| "split_runs (run # runs) remaining left right =
     (if rn_samples run = [] then Inl ''cannot split a run without parsed samples''
      else let n = min remaining (length (rn_samples run))
           in chain (if n > 0 then add_run ''left audio payload offset overflow'' run (take n (rn_samples run)) left
                     else Inr left) (\<lambda>left.
              chain (if n < length (rn_samples run)
                     then add_run ''right audio payload offset overflow'' run (drop n (rn_samples run)) right
                     else Inr right) (\<lambda>right.
              split_runs runs (remaining - n) left right)))"

definition splitFragmentAtSample :: "mp4Fragment \<Rightarrow> nat \<Rightarrow> (mp4Fragment \<times> mp4Fragment) res" where
  "splitFragmentAtSample fragment splitSamples =
     chain (fragmentSampleCount fragment) (\<lambda>totalSamples.
       if splitSamples = 0 \<or> splitSamples \<ge> totalSamples then Inl ''split sample must be inside fragment''
       else chain (split_runs (fr_runs fragment) splitSamples ([], 0, 0) ([], 0, 0))
         (\<lambda>(remaining, (leftRuns, leftBytes, leftDuration), (rightRuns, rightBytes, rightDuration)).
           if remaining \<noteq> 0 \<or> leftRuns = [] \<or> rightRuns = [] then Inl ''failed to partition fragment runs''
           else if leftDuration + rightDuration \<noteq> fr_duration fragment then Inl ''split fragment duration mismatch''
           else if leftBytes + rightBytes \<noteq> of_int (fr_payloadLen fragment) then Inl ''split payload mismatch''
           else if leftBytes > of_int (fr_payloadLen fragment) then Inl ''left payload exceeds source payload''
           else if - 1 - fr_decodeTime fragment < leftDuration then Inl ''right fragment decode time overflow''
           else let splitByte = int (unat leftBytes)
                in Inr (\<lparr>fr_trackID = fr_trackID fragment, fr_timescale = fr_timescale fragment,
                      fr_decodeTime = fr_decodeTime fragment, fr_duration = leftDuration,
                      fr_startsWithSync = rn_startsWithSync (hd leftRuns),
                      fr_sampleDescriptionIndex = fr_sampleDescriptionIndex fragment, fr_tfhd = fr_tfhd fragment,
                      fr_runs = leftRuns, fr_payloadStart = fr_payloadStart fragment, fr_payloadLen = splitByte,
                      fr_hasInferredDuration = False\<rparr>,
                    \<lparr>fr_trackID = fr_trackID fragment, fr_timescale = fr_timescale fragment,
                      fr_decodeTime = fr_decodeTime fragment + leftDuration, fr_duration = rightDuration,
                      fr_startsWithSync = rn_startsWithSync (hd rightRuns),
                      fr_sampleDescriptionIndex = fr_sampleDescriptionIndex fragment, fr_tfhd = fr_tfhd fragment,
                      fr_runs = rightRuns, fr_payloadStart = fr_payloadStart fragment + splitByte,
                      fr_payloadLen = fr_payloadLen fragment - splitByte, fr_hasInferredDuration = False\<rparr>)))"

subsection \<open>Times\<close>

text \<open>The products are 128 bits wide, so they are compared exactly.\<close>

definition scaledGreaterOrEqual :: "u64 \<Rightarrow> u32 \<Rightarrow> u64 \<Rightarrow> u32 \<Rightarrow> bool" where
  "scaledGreaterOrEqual left leftScale right rightScale \<longleftrightarrow>
     (let l = unat left * unat leftScale; r = unat right * unat rightScale;
          leftHi = l div 2 ^ 64; leftLo = l mod 2 ^ 64; rightHi = r div 2 ^ 64; rightLo = r mod 2 ^ 64
      in if leftHi \<noteq> rightHi then leftHi > rightHi else leftLo \<ge> rightLo)"

text \<open>
  Floats are rationals that binary64 has. Rounding is half away from zero, conversion to \<open>uint64\<close> is
  exact below \<open>2 ^ 64\<close>.
\<close>

definition toUnits :: "rat \<Rightarrow> u32 \<Rightarrow> u64 res" where
  "toUnits seconds timescale =
     (let v = fl (seconds * of_nat (unat timescale))
      in if v < 0 \<or> v > 2 ^ 64 then Inl ''invalid timeline value'' else Inr (of_int \<lceil>v\<rceil>))"

definition timelineNanoseconds :: "u64 \<Rightarrow> u32 \<Rightarrow> u64 res" where
  "timelineNanoseconds v timescale =
     (if timescale = 0 then Inl ''timeline timescale is zero''
      else let seconds = v div ucast timescale; remainder = v mod ucast timescale
           in if seconds > (- 1) div 1000000000 then Inl ''timeline nanoseconds overflow''
              else let nanoseconds = seconds * 1000000000;
                       fraction = remainder * 1000000000 div ucast timescale
                   in if - 1 - nanoseconds < fraction then Inl ''timeline nanoseconds overflow''
                      else Inr (nanoseconds + fraction))"

definition addTfdtOffset :: "u64 \<Rightarrow> u32 \<Rightarrow> rat \<Rightarrow> u64 res" where
  "addTfdtOffset v timescale seconds =
     (if seconds \<le> 0 then Inr v
      else let units = fl (seconds * of_nat (unat timescale))
           in if units < 0 \<or> units > 2 ^ 64 then Inl ''invalid tfdt offset''
              else let offset = of_int \<lfloor>units + 1 / 2\<rfloor>
                   in if - 1 - v < offset then Inl ''tfdt offset overflow'' else Inr (v + offset))"

subsection \<open>Writing fragments\<close>

fun valid_rest :: "mp4Fragment \<Rightarrow> mp4Fragment list \<Rightarrow> u64 \<Rightarrow> unit res" where
  "valid_rest first [] expected = Inr ()"
| "valid_rest first (current # fs) expected =
     (if fr_trackID current \<noteq> fr_trackID first \<or> fr_timescale current \<noteq> fr_timescale first
         \<or> fr_decodeTime current \<noteq> expected
         \<or> fr_sampleDescriptionIndex current \<noteq> fr_sampleDescriptionIndex first \<or> fr_tfhd current \<noteq> fr_tfhd first
      then Inl ''track fragments cannot be merged into one traf''
      else valid_rest first fs (endTime current))"

definition validateTrack :: "mp4Fragment list \<Rightarrow> nat \<Rightarrow> unit res" where
  "validateTrack fragments cnt =
     (if cnt = 0 \<or> cnt > length fragments then Inl ''invalid fragment count''
      else valid_rest (hd fragments) (tl (take cnt fragments)) (endTime (hd fragments)))"

fun assignOffsets :: "mp4Fragment list \<Rightarrow> nat \<Rightarrow> int \<Rightarrow> mp4Fragment list \<times> int" where
  "assignOffsets [] cnt outputOffset = ([], outputOffset)"
| "assignOffsets (f # fs) cnt outputOffset =
     (if cnt = 0 then (f # fs, outputOffset)
      else let f' = f\<lparr>fr_runs := map (\<lambda>run. run\<lparr>rn_outputOffset := outputOffset + rn_payloadOffset run\<rparr>) (fr_runs f)\<rparr>;
               (fs', outputOffset') = assignOffsets fs (cnt - 1) (outputOffset + fr_payloadLen f)
           in (f' # fs', outputOffset'))"

definition entry_size :: "mp4Run \<Rightarrow> nat" where
  "entry_size run = (if rn_hasCompositionTimeOffsets run then 16 else 12)"

definition canonicalTrunSize :: "mp4Run \<Rightarrow> nat" where
  "canonicalTrunSize run = 20 + length (rn_samples run) * entry_size run"

definition getTrafSize :: "mp4Fragment list \<Rightarrow> nat \<Rightarrow> nat" where
  "getTrafSize fragments cnt =
     8 + 20 + 20 + sum_list (map canonicalTrunSize (concat (map fr_runs (take cnt fragments))))"

definition write_sample :: "bool \<Rightarrow> mp4Sample \<Rightarrow> byte list" where
  "write_sample offsets sample =
     put32 (sm_duration sample) @ put32 (sm_size sample) @ put32 (sm_flags sample)
     @ (if offsets then put32 (sm_compositionTimeOffsetRaw sample) else [])"

definition writeCanonicalTrun :: "mp4Run \<Rightarrow> int \<Rightarrow> byte list res" where
  "writeCanonicalTrun run dataOffset =
     (if rn_samples run = [] then Inl ''cannot write trun without samples''
      else if rn_version run > 1 then Inl ''unsupported trun version''
      else if canonicalTrunSize run > 2 ^ 32 - 1 then Inl ''canonical trun is too large''
      else let flags = 0x000001 OR 0x000100 OR 0x000200 OR 0x000400 OR
                 (if rn_hasCompositionTimeOffsets run then 0x000800 else 0)
           in Inr (put32 (of_nat (canonicalTrunSize run)) @ put32 boxTrun @ put32 (push_bit 24 (rn_version run) OR flags)
                @ put32 (of_nat (length (rn_samples run))) @ put32 (of_int dataOffset)
                @ concat (map (write_sample (rn_hasCompositionTimeOffsets run)) (rn_samples run))))"

fun write_runs :: "mp4Run list \<Rightarrow> nat \<Rightarrow> nat \<Rightarrow> byte list res" where
  "write_runs [] moofSize mdatHeaderSize = Inr []"
| "write_runs (run # runs) moofSize mdatHeaderSize =
     (let dataOffset = int moofSize + int mdatHeaderSize + rn_outputOffset run
      in if dataOffset < - (2 ^ 31) \<or> dataOffset > 2 ^ 31 - 1 then Inl ''trun.data_offset exceeds int32''
         else chain (writeCanonicalTrun run dataOffset) (\<lambda>bs.
              chain (write_runs runs moofSize mdatHeaderSize) (\<lambda>bs'. Inr (bs @ bs'))))"

definition writeTraf :: "mp4Fragment list \<Rightarrow> nat \<Rightarrow> nat \<Rightarrow> nat \<Rightarrow> rat \<Rightarrow> byte list res" where
  "writeTraf fragments cnt moofSize mdatHeaderSize tfdtOffsetSeconds =
     (let sz = getTrafSize fragments cnt; first = hd fragments
      in if sz > 2 ^ 32 - 1 then Inl ''combined traf is too large''
         else chain (addTfdtOffset (fr_decodeTime first) (fr_timescale first) tfdtOffsetSeconds) (\<lambda>decodeTime.
              chain (write_runs (concat (map fr_runs (take cnt fragments))) moofSize mdatHeaderSize) (\<lambda>bs.
              Inr (writeHeader (of_nat sz) boxTraf @ fr_tfhd first @ writeTfdt decodeTime @ bs))))"

fun appendFragmentPayloadRanges :: "byte list list \<Rightarrow> byte list \<Rightarrow> mp4Fragment list \<Rightarrow> byte list list res" where
  "appendFragmentPayloadRanges dst storage [] = Inr dst"
| "appendFragmentPayloadRanges dst storage (fragment # fs) =
     (if fr_payloadLen fragment = 0 then appendFragmentPayloadRanges dst storage fs
      else if fr_payloadStart fragment < 0 \<or> fr_payloadLen fragment < 0 then Inl ''negative fragment payload range''
      else let e = fr_payloadStart fragment + fr_payloadLen fragment
           in if e < fr_payloadStart fragment \<or> e > int (length storage) then Inl ''fragment payload range exceeds storage''
              else appendFragmentPayloadRanges
                (dst @ [take (nat (fr_payloadLen fragment)) (drop (nat (fr_payloadStart fragment)) storage)]) storage fs)"

definition collectPayloadRangesInto :: "byte list \<Rightarrow> mp4Fragment list \<Rightarrow> nat \<Rightarrow> mp4Fragment list \<Rightarrow> nat \<Rightarrow> byte list list res" where
  "collectPayloadRangesInto storage video videoCount audio audioCount =
     chain (appendFragmentPayloadRanges [] storage (take videoCount video)) (\<lambda>dst.
       appendFragmentPayloadRanges dst storage (take audioCount audio))"

definition removeFragments :: "mp4Fragment list \<Rightarrow> nat \<Rightarrow> mp4Fragment list" where
  "removeFragments fragments cnt = drop cnt fragments"

end
