(* ===== verification/Mp4Content.thy ===== *)
theory Mp4Content
  imports Mp4Frag
begin

text \<open>
  What a fragment means: its samples, each with its bytes. The lemmas show that parsing yields well-formed runs,
  that attaching a payload and splitting a fragment keep the samples and their bytes, and that written
  fragments are read back with data offsets that lead to the same bytes.
\<close>

unbundle bit_operations_syntax

subsection \<open>Samples and their bytes\<close>

definition sizes :: "mp4Sample list \<Rightarrow> nat" where
  "sizes ss = sum_list (map (\<lambda>s. unat (sm_size s)) ss)"

definition durations :: "mp4Sample list \<Rightarrow> nat" where
  "durations ss = sum_list (map (\<lambda>s. unat (sm_duration s)) ss)"

lemma sizes_simps [simp]:
  "sizes [] = 0" "sizes (s # ss) = unat (sm_size s) + sizes ss" "sizes (ss @ ss') = sizes ss + sizes ss'"
  "durations [] = 0" "durations (s # ss) = unat (sm_duration s) + durations ss"
  "durations (ss @ ss') = durations ss + durations ss'"
  by (simp_all add: sizes_def durations_def)

fun cut :: "mp4Sample list \<Rightarrow> byte list \<Rightarrow> (mp4Sample \<times> byte list) list" where
  "cut [] bs = []"
| "cut (s # ss) bs = (s, take (unat (sm_size s)) bs) # cut ss (drop (unat (sm_size s)) bs)"

lemma cut_append: "cut (ss @ ss') bs = cut ss bs @ cut ss' (drop (sizes ss) bs)"
  by (induction ss arbitrary: bs) (simp_all add: add.commute)

lemma cut_take: "sizes ss \<le> n \<Longrightarrow> cut ss (take n bs) = cut ss bs"
  by (induction ss arbitrary: n bs) (simp_all add: drop_take min_absorb1)

lemma cut_append_bytes: "sizes ss \<le> length bs \<Longrightarrow> cut ss (bs @ bs') = cut ss bs"
  by (metis append_eq_conv_conj cut_take)

text \<open>A well-formed run, and runs whose payloads follow one another from \<open>n\<close> to \<open>e\<close>.\<close>

definition run_ok :: "mp4Run \<Rightarrow> bool" where
  "run_ok run \<longleftrightarrow> rn_samples run \<noteq> [] \<and> length (rn_samples run) \<le> maxTrunSamples \<and> rn_version run \<le> 1
     \<and> unat (rn_duration run) = durations (rn_samples run) \<and> unat (rn_dataSize run) = sizes (rn_samples run)
     \<and> 0 < sizes (rn_samples run) \<and> rn_startsWithSync run = isSyncSample (sm_flags (hd (rn_samples run)))
     \<and> (rn_hasCompositionTimeOffsets run \<or> (\<forall>s \<in> set (rn_samples run). sm_compositionTimeOffsetRaw s = 0))"

fun laid :: "int \<Rightarrow> mp4Run list \<Rightarrow> int \<Rightarrow> bool" where
  "laid n [] e \<longleftrightarrow> n = e"
| "laid n (run # runs) e \<longleftrightarrow> rn_payloadOffset run = n \<and> laid (n + int (sizes (rn_samples run))) runs e"

definition run_samples :: "mp4Run list \<Rightarrow> mp4Sample list" where
  "run_samples runs = concat (map rn_samples runs)"

definition frag_samples :: "mp4Fragment \<Rightarrow> mp4Sample list" where
  "frag_samples f = run_samples (fr_runs f)"

definition frag_bytes :: "byte list \<Rightarrow> mp4Fragment \<Rightarrow> byte list" where
  "frag_bytes storage f = take (nat (fr_payloadLen f)) (drop (nat (fr_payloadStart f)) storage)"

definition frag_content :: "byte list \<Rightarrow> mp4Fragment \<Rightarrow> (mp4Sample \<times> byte list) list" where
  "frag_content storage f = cut (frag_samples f) (frag_bytes storage f)"

text \<open>A parsed fragment, and one with its payload in \<open>storage\<close>.\<close>

definition parsed_ok :: "mp4Fragment \<Rightarrow> bool" where
  "parsed_ok f \<longleftrightarrow> fr_runs f \<noteq> [] \<and> list_all run_ok (fr_runs f) \<and> unat (fr_duration f) = durations (frag_samples f)
     \<and> fr_trackID f \<noteq> 0 \<and> fr_sampleDescriptionIndex f \<noteq> 0 \<and> fr_timescale f \<noteq> 0
     \<and> fr_tfhd f = buildCanonicalTfhd (fr_trackID f) (fr_sampleDescriptionIndex f)
     \<and> fr_startsWithSync f = rn_startsWithSync (hd (fr_runs f))"

definition frag_ok :: "byte list \<Rightarrow> mp4Fragment \<Rightarrow> bool" where
  "frag_ok storage f \<longleftrightarrow> parsed_ok f \<and> laid 0 (fr_runs f) (fr_payloadLen f) \<and> 0 \<le> fr_payloadStart f
     \<and> fr_payloadStart f + fr_payloadLen f \<le> int (length storage)"

lemma run_samples_simps [simp]:
  "run_samples [] = []" "run_samples (run # runs) = rn_samples run @ run_samples runs"
  "run_samples (runs @ runs') = run_samples runs @ run_samples runs'"
  by (simp_all add: run_samples_def)

lemma laid_end: "laid n runs e \<Longrightarrow> e = n + int (sizes (run_samples runs))"
  by (induction n runs e rule: laid.induct) auto

lemma laid_append: "laid n (runs @ runs') e \<longleftrightarrow> laid n runs (n + int (sizes (run_samples runs)))
    \<and> laid (n + int (sizes (run_samples runs))) runs' e"
  by (induction runs arbitrary: n) (auto simp: add.assoc)

lemma frag_ok_len: "frag_ok storage f \<Longrightarrow> fr_payloadLen f = int (sizes (frag_samples f))"
  by (auto simp: frag_ok_def frag_samples_def dest: laid_end)

lemma frag_ok_range:
  assumes "frag_ok storage f"
  shows "0 \<le> fr_payloadStart f" "nat (fr_payloadStart f) + sizes (frag_samples f) \<le> length storage"
    "nat (fr_payloadLen f) = sizes (frag_samples f)"
proof -
  note len = frag_ok_len [OF assms]
  from assms have r: "0 \<le> fr_payloadStart f" "fr_payloadStart f + fr_payloadLen f \<le> int (length storage)"
    unfolding frag_ok_def by simp_all
  from r(1) show "0 \<le> fr_payloadStart f" .
  show "nat (fr_payloadLen f) = sizes (frag_samples f)" unfolding len by simp
  show "nat (fr_payloadStart f) + sizes (frag_samples f) \<le> length storage" using r unfolding len by linarith
qed

lemma length_frag_bytes: "frag_ok storage f \<Longrightarrow> length (frag_bytes storage f) = sizes (frag_samples f)"
  using frag_ok_range [of storage f] by (simp add: frag_bytes_def min_absorb1)

lemma frag_ok_grows: "frag_ok storage f \<Longrightarrow> frag_ok (storage @ bs) f"
  by (simp add: frag_ok_def)

lemma frag_content_grows:
  assumes "frag_ok storage f"
  shows "frag_content (storage @ bs) f = frag_content storage f"
proof -
  have "frag_bytes (storage @ bs) f = frag_bytes storage f"
    using frag_ok_range [OF assms] by (simp add: frag_bytes_def)
  then show ?thesis by (simp add: frag_content_def)
qed

subsection \<open>Parsed runs are well formed\<close>

lemma unat_ucast_u32 [simp]: "unat (ucast (w :: u32) :: u64) = unat w"
proof -
  have "unat w < 2 ^ 32" using unsigned_less [of w] by simp
  then show ?thesis by (simp add: unsigned_ucast_eq take_bit_nat_eq_self)
qed

lemma read_samples_Suc:
  assumes "read_samples fm box (Suc n) i0 cursor d z acc = Inr r"
  obtains dd zz f c c3 c4 where
    "opt_u32 (tf_hasOffsets fm) box c3 ''invalid trun composition_time_offset'' 0 = Inr (c, c4)"
    "\<not> - 1 - d < ucast dd" "\<not> - 1 - z < ucast zz"
    "read_samples fm box n False c4 (d + ucast dd) (z + ucast zz)
       (acc @ [\<lparr>sm_duration = dd, sm_size = zz, sm_flags = f, sm_compositionTimeOffsetRaw = c\<rparr>]) = Inr r"
  using assms unfolding read_samples.simps chain_Inr
  by (clarsimp simp only: prod.case split_paired_Ex chain_Inr) (metis Inl_Inr_False)

lemma read_samples_ok:
  assumes "read_samples fm box n i0 cursor d z acc = Inr (ss, cursor', d', z')"
  shows "\<exists>new. ss = acc @ new \<and> length new = n \<and> unat d' = unat d + durations new \<and> unat z' = unat z + sizes new
    \<and> (tf_hasOffsets fm \<or> (\<forall>s \<in> set new. sm_compositionTimeOffsetRaw s = 0))"
  using assms
proof (induction n arbitrary: i0 cursor d z acc)
  case (Suc n)
  from read_samples_Suc [OF Suc.prems] obtain dd zz f c c3 c4 where e:
    "opt_u32 (tf_hasOffsets fm) box c3 ''invalid trun composition_time_offset'' 0 = Inr (c, c4)"
    "\<not> - 1 - d < ucast dd" "\<not> - 1 - z < ucast zz"
    "read_samples fm box n False c4 (d + ucast dd) (z + ucast zz)
       (acc @ [\<lparr>sm_duration = dd, sm_size = zz, sm_flags = f, sm_compositionTimeOffsetRaw = c\<rparr>]) = Inr (ss, cursor', d', z')"
    by metis
  let ?s = "\<lparr>sm_duration = dd, sm_size = zz, sm_flags = f, sm_compositionTimeOffsetRaw = c\<rparr>"
  from Suc.IH [OF e(4)] obtain new where new: "ss = acc @ ?s # new" "length new = n"
    "unat d' = unat (d + ucast dd) + durations new" "unat z' = unat (z + ucast zz) + sizes new"
    "tf_hasOffsets fm \<or> (\<forall>s \<in> set new. sm_compositionTimeOffsetRaw s = 0)" by auto
  have "tf_hasOffsets fm \<or> c = 0" using e(1) by (cases "tf_hasOffsets fm") (simp_all add: opt_u32_def)
  with new show ?case
    by (intro exI [of _ "?s # new"]) (auto simp: guarded_add [OF e(2)] guarded_add [OF e(3)])
qed simp

lemma if_Inl_Inr: "(if b then Inl e else m) = Inr r \<longleftrightarrow> \<not> b \<and> m = Inr r"
  by simp

lemma normalizeTrun_parts:
  assumes "normalizeTrun box h dd ds df hint = Inr run"
  shows "\<exists>hd0 hz hf ho h1 f1 w c ss cursor d z off hoff ver inf.
    read_samples \<lparr>tf_hasDuration = hd0, tf_hasSize = hz, tf_hasFlags = hf, tf_hasOffsets = ho, tf_hasFirst = h1,
      tf_firstFlags = f1, tf_defaultDuration = dd, tf_defaultSize = ds, tf_defaultFlags = df\<rparr> box (unat (w :: u32)) True c 0 0 []
      = Inr (ss, cursor, d, z)
    \<and> w \<noteq> 0 \<and> \<not> maxTrunSamples < unat w \<and> \<not> (cursor \<noteq> length box \<or> d = 0 \<or> z = 0) \<and> \<not> 1 < ver
    \<and> \<lparr>rn_sourceDataOffset = off, rn_hasSourceDataOffset = hoff, rn_samples = ss, rn_version = ver,
       rn_hasCompositionTimeOffsets = ho, rn_duration = d, rn_dataSize = z, rn_payloadOffset = 0, rn_outputOffset = 0,
       rn_startsWithSync = isSyncSample (sm_flags (hd ss)), rn_hasInferredDuration = inf\<rparr> = run"
  using assms unfolding normalizeTrun_def Let_def chain_Inr if_Inl_Inr split_paired_Ex prod.case sum.inject
  by (elim exE conjE) (intro exI conjI, assumption+)

lemma normalizeTrun_ok:
  assumes "normalizeTrun box h dd ds df hint = Inr run"
  shows "run_ok run" and "rn_duration run \<noteq> 0"
proof -
  obtain hd0 hz hf ho h1 f1 w c ss cursor d z off hoff ver inf where p:
    "read_samples \<lparr>tf_hasDuration = hd0, tf_hasSize = hz, tf_hasFlags = hf, tf_hasOffsets = ho, tf_hasFirst = h1,
      tf_firstFlags = f1, tf_defaultDuration = dd, tf_defaultSize = ds, tf_defaultFlags = df\<rparr> box (unat (w :: u32)) True c 0 0 []
      = Inr (ss, cursor, d, z)"
    "w \<noteq> 0" "\<not> maxTrunSamples < unat w" "\<not> (cursor \<noteq> length box \<or> d = 0 \<or> z = 0)" "\<not> 1 < ver"
    "\<lparr>rn_sourceDataOffset = off, rn_hasSourceDataOffset = hoff, rn_samples = ss, rn_version = ver,
       rn_hasCompositionTimeOffsets = ho, rn_duration = d, rn_dataSize = z, rn_payloadOffset = 0, rn_outputOffset = 0,
       rn_startsWithSync = isSyncSample (sm_flags (hd ss)), rn_hasInferredDuration = inf\<rparr> = run"
    using normalizeTrun_parts [OF assms] by (elim exE conjE) rule
  from read_samples_ok [OF p(1)] have s: "length ss = unat w" "unat d = durations ss" "unat z = sizes ss"
    "ho \<or> (\<forall>s \<in> set ss. sm_compositionTimeOffsetRaw s = 0)" by auto
  have n: "unat w \<noteq> 0" "unat z \<noteq> 0" using p(2,4) by (simp_all add: unat_eq_zero)
  then have "ss \<noteq> []" "0 < sizes ss" using s(1,3) by auto
  with s p(3,5) show "run_ok run" by (simp add: run_ok_def p(6) [symmetric] not_less)
  show "rn_duration run \<noteq> 0" using p(4) by (simp add: p(6) [symmetric])
qed

lemma traf_runs_ok:
  assumes "traf_runs bs dd ds df hint d g0 runs = Inr (d', g0', runs')"
  shows "\<exists>new. runs' = runs @ new \<and> list_all run_ok new \<and> unat d' = unat d + durations (run_samples new)"
  using assms
proof (induction bs arbitrary: d g0 runs)
  case (Cons b bs)
  obtain t h box where b: "b = (t, h, box)" by (metis prod_cases3)
  show ?case
  proof (cases "t = boxTrun")
    case True
    with Cons.prems b obtain run where r: "normalizeTrun box h dd ds df hint = Inr run" "\<not> - 1 - d < rn_duration run"
      "traf_runs bs dd ds df hint (d + rn_duration run) (g0 \<or> rn_hasInferredDuration run) (runs @ [run]) = Inr (d', g0', runs')"
      by (auto simp: if_Inl_Inr)
    note ok = normalizeTrun_ok [OF r(1)]
    from Cons.IH [OF r(3)] obtain new where new: "runs' = runs @ run # new" "list_all run_ok new"
      "unat d' = unat (d + rn_duration run) + durations (run_samples new)" by auto
    have "unat (rn_duration run) = durations (rn_samples run)" using ok(1) by (simp add: run_ok_def)
    with new ok(1) show ?thesis
      by (intro exI [of _ "run # new"]) (simp add: guarded_add [OF r(2)])
  next
    case False
    with Cons.prems b have "traf_runs bs dd ds df hint d g0 runs = Inr (d', g0', runs')" by simp
    from Cons.IH [OF this] show ?thesis .
  qed
qed simp

lemma parseTfhd_track: "parseTfhd box h = Inr info \<Longrightarrow> th_trackID info \<noteq> 0"
  unfolding parseTfhd_def Let_def chain_Inr if_Inl_Inr split_paired_Ex prod.case sum.inject
  by (elim exE conjE) (erule subst, simp only: tfhdInfo.select_convs not_False_eq_True)

lemma traf_heads_track:
  "traf_heads bs h d = Inr (Some v, d') \<Longrightarrow> (\<forall>u. h = Some u \<longrightarrow> th_trackID u \<noteq> 0) \<Longrightarrow> th_trackID v \<noteq> 0"
proof (induction bs h d rule: traf_heads.induct)
  case (2 t headerSize box bs h d)
  then show ?case
    by (auto split: if_splits option.splits dest: parseTfhd_track)
qed simp

lemma parseTraf_parts:
  assumes "parseTraf traf th v a vh ah = Inr f"
  shows "\<exists>h dt track dd ds df isHint d g runs i.
    traf_heads (boxes traf th) None None = Inr (Some h, Some dt)
    \<and> (track = v \<and> th_trackID h = tk_id v \<or> track = a \<and> th_trackID h \<noteq> tk_id v \<and> tk_id a \<noteq> 0 \<and> th_trackID h = tk_id a)
    \<and> traf_runs (boxes traf th) dd ds df isHint 0 False [] = Inr (d, g, runs)
    \<and> tk_timescale track \<noteq> 0 \<and> i \<noteq> 0 \<and> \<not> (runs = [] \<or> d = 0)
    \<and> f = \<lparr>fr_trackID = th_trackID h, fr_timescale = tk_timescale track, fr_decodeTime = dt, fr_duration = d,
        fr_startsWithSync = rn_startsWithSync (hd runs), fr_sampleDescriptionIndex = i,
        fr_tfhd = buildCanonicalTfhd (th_trackID h) i, fr_runs = runs, fr_payloadStart = 0, fr_payloadLen = 0,
        fr_hasInferredDuration = g\<rparr>"
proof -
  from assms obtain h dt where h: "traf_heads (boxes traf th) None None = Inr (Some h, Some dt)"
    by (auto simp: parseTraf_def split: option.splits)
  have choice: "\<exists>track hint. (if th_trackID h = tk_id v then Inr (v, vh)
      else if tk_id a \<noteq> 0 \<and> th_trackID h = tk_id a then Inr (a, ah) else Inl ''unsupported track_ID'') = Inr (track, hint)"
    using assms by (auto simp: parseTraf_def h split: if_splits)
  then obtain track hint where t: "(if th_trackID h = tk_id v then Inr (v, vh)
      else if tk_id a \<noteq> 0 \<and> th_trackID h = tk_id a then Inr (a, ah) else Inl ''unsupported track_ID'') = Inr (track, hint)"
    by blast
  then have tr: "track = v \<and> th_trackID h = tk_id v \<or> track = a \<and> th_trackID h \<noteq> tk_id v \<and> tk_id a \<noteq> 0 \<and> th_trackID h = tk_id a"
    by (auto split: if_splits)
  note parts = assms [unfolded parseTraf_def h chain_simps prod.case option.case t Let_def chain_Inr if_Inl_Inr
    split_paired_Ex sum.inject]
  from parts h tr show ?thesis
    by (elim exE conjE) (intro exI conjI, assumption+, erule sym)
qed

text \<open>A fragment belongs to one of the two tracks.\<close>

definition track_of :: "mp4Fragment \<Rightarrow> trackInfo \<Rightarrow> trackInfo \<Rightarrow> bool" where
  "track_of f v a \<longleftrightarrow> (if fr_trackID f = tk_id v then fr_timescale f = tk_timescale v
     else tk_id a \<noteq> 0 \<and> fr_trackID f = tk_id a \<and> fr_timescale f = tk_timescale a)"

definition parsed_from :: "trackInfo \<Rightarrow> trackInfo \<Rightarrow> mp4Fragment \<Rightarrow> bool" where
  "parsed_from v a f \<longleftrightarrow> parsed_ok f \<and> track_of f v a \<and> fr_payloadLen f = 0"

lemma parseTraf_ok:
  assumes "parseTraf traf th v a vh ah = Inr f"
  shows "parsed_from v a f"
proof -
  obtain h dt track dd ds df isHint d g runs i where p:
    "traf_heads (boxes traf th) None None = Inr (Some h, Some dt)"
    "track = v \<and> th_trackID h = tk_id v \<or> track = a \<and> th_trackID h \<noteq> tk_id v \<and> tk_id a \<noteq> 0 \<and> th_trackID h = tk_id a"
    "traf_runs (boxes traf th) dd ds df isHint 0 False [] = Inr (d, g, runs)"
    "tk_timescale track \<noteq> 0" "i \<noteq> 0" "\<not> (runs = [] \<or> d = 0)"
    "f = \<lparr>fr_trackID = th_trackID h, fr_timescale = tk_timescale track, fr_decodeTime = dt, fr_duration = d,
        fr_startsWithSync = rn_startsWithSync (hd runs), fr_sampleDescriptionIndex = i,
        fr_tfhd = buildCanonicalTfhd (th_trackID h) i, fr_runs = runs, fr_payloadStart = 0, fr_payloadLen = 0,
        fr_hasInferredDuration = g\<rparr>" using parseTraf_parts [OF assms] by (elim exE conjE) rule
  have "th_trackID h \<noteq> 0" using traf_heads_track [OF p(1)] by simp
  moreover have "list_all run_ok runs" "unat d = durations (run_samples runs)"
    using traf_runs_ok [OF p(3)] by auto
  ultimately have "parsed_ok f" using p(4-6) by (simp add: parsed_ok_def frag_samples_def p(7))
  then show ?thesis using p(2) by (auto simp: parsed_from_def track_of_def p(7))
qed

lemma moof_trafs_ok:
  assumes "moof_trafs bs v a vh ah dst = Inr f"
    and "\<forall>g. dst = Some g \<longrightarrow> parsed_from v a g"
  shows "parsed_from v a f"
  using assms
proof (induction bs v a vh ah dst rule: moof_trafs.induct)
  case (1 v a vh ah dst)
  then show ?case by (auto split: option.splits)
next
  case (2 t h box bs v a vh ah dst)
  show ?case
  proof (cases "t = boxTraf")
    case True
    with 2(3) obtain g where g: "dst = None" "parseTraf box h v a vh ah = Inr g" "moof_trafs bs v a vh ah (Some g) = Inr f"
      by (auto split: if_splits)
    have "\<not> t \<noteq> boxTraf" "\<not> dst \<noteq> None" using True g(1) by simp_all
    from 2(2) [OF this g(2,3)] parseTraf_ok [OF g(2)] show ?thesis by blast
  next
    case False
    with 2 show ?thesis by simp
  qed
qed

lemma parseSourceMoof_ok:
  assumes "parseSourceMoof moof v a vh ah = Inr f"
  shows "parsed_from v a f"
proof -
  from assms obtain bs where "moof_trafs bs v a vh ah None = Inr f"
    by (auto simp: parseSourceMoof_def split: option.splits prod.splits if_splits)
  from moof_trafs_ok [OF this] show ?thesis by simp
qed

subsection \<open>Attaching the payload\<close>

lemma run_ok_offset [simp]: "run_ok (run\<lparr>rn_payloadOffset := n\<rparr>) = run_ok run" "run_ok (run\<lparr>rn_outputOffset := n\<rparr>) = run_ok run"
  by (simp_all add: run_ok_def)

lemma attach_runs_laid:
  assumes "attach_runs runs pfm n = Inr (runs', e)" and "list_all run_ok runs" and "0 \<le> n"
    and "n + int (sizes (run_samples runs)) < 2 ^ 63"
  shows "laid n runs' e \<and> run_samples runs' = run_samples runs \<and> list_all run_ok runs'
    \<and> map rn_startsWithSync runs' = map rn_startsWithSync runs"
  using assms
proof (induction runs arbitrary: n runs' e)
  case (Cons run runs)
  let ?z = "int (unat (rn_dataSize run))"
  from Cons.prems(1) obtain runs'' where r: "attach_runs runs pfm (wrap64 (n + ?z)) = Inr (runs'', e)"
    "runs' = run\<lparr>rn_payloadOffset := n\<rparr> # runs''"
    by (auto simp: Let_def split: if_splits)
  have z: "?z = int (sizes (rn_samples run))" using Cons.prems(2) by (simp add: run_ok_def)
  then have "wrap64 (n + ?z) = n + int (sizes (rn_samples run))"
    using Cons.prems(3,4) by (simp add: wrap64_id in64_def)
  with r(1) have "attach_runs runs pfm (n + int (sizes (rn_samples run))) = Inr (runs'', e)" by simp
  from Cons.IH [OF this] Cons.prems(2-4) r(2) show ?case by simp
qed simp

lemma attachPayload_ok:
  assumes "attachPayload f start len pfm = Inr f'" and "parsed_ok f" and "sizes (frag_samples f) < 2 ^ 63"
    and "start + len \<le> int (length storage)"
  shows "frag_ok storage f'" and "frag_samples f' = frag_samples f" and "fr_trackID f' = fr_trackID f"
    and "fr_payloadStart f' = start" and "fr_payloadLen f' = len" and "fr_timescale f' = fr_timescale f"
proof -
  from assms(1) obtain runs where r: "0 \<le> start" "attach_runs (fr_runs f) pfm 0 = Inr (runs, len)"
    "f' = f\<lparr>fr_runs := runs, fr_payloadStart := start, fr_payloadLen := len\<rparr>"
    by (auto simp: attachPayload_def split: if_splits)
  have l: "laid 0 runs len" "run_samples runs = run_samples (fr_runs f)" "list_all run_ok runs"
    "map rn_startsWithSync runs = map rn_startsWithSync (fr_runs f)"
    using attach_runs_laid [OF r(2)] assms(2,3) by (simp_all add: parsed_ok_def frag_samples_def)
  have "runs \<noteq> []" using l(4) assms(2) by (auto simp: parsed_ok_def)
  then have "rn_startsWithSync (hd runs) = rn_startsWithSync (hd (fr_runs f))"
    using l(4) assms(2) by (metis hd_map list.map_disc_iff)
  with l \<open>runs \<noteq> []\<close> assms(2,4) r(1) show "frag_ok storage f'"
    by (simp add: frag_ok_def parsed_ok_def r(3) frag_samples_def)
  show "frag_samples f' = frag_samples f" "fr_trackID f' = fr_trackID f" "fr_payloadStart f' = start" "fr_payloadLen f' = len"
    "fr_timescale f' = fr_timescale f" by (simp_all add: r(3) frag_samples_def l(2))
qed

subsection \<open>Splitting keeps the samples\<close>

lemma sum_samples_ok:
  "sum_samples ss d z = Inr (d', z') \<Longrightarrow> unat d' = unat d + durations ss \<and> unat z' = unat z + sizes ss"
proof (induction ss arbitrary: d z)
  case (Cons s ss)
  then have g: "\<not> - 1 - d < ucast (sm_duration s)" "\<not> - 1 - z < ucast (sm_size s)"
    by (auto split: if_splits)
  with Cons show ?case by (simp add: guarded_add [OF g(1)] guarded_add [OF g(2)])
qed simp

lemma buildExplicitRun_ok:
  assumes "buildExplicitRun t ss = Inr run" and "rn_version t \<le> 1" and "length ss \<le> maxTrunSamples"
    and "rn_hasCompositionTimeOffsets t \<or> (\<forall>s \<in> set ss. sm_compositionTimeOffsetRaw s = 0)"
  shows "run_ok run" and "rn_samples run = ss"
proof -
  from assms(1) obtain d z where p: "ss \<noteq> []" "sum_samples ss 0 0 = Inr (d, z)" "z \<noteq> 0"
    and run: "run = \<lparr>rn_sourceDataOffset = 0, rn_hasSourceDataOffset = False, rn_samples = ss,
               rn_version = rn_version t, rn_hasCompositionTimeOffsets = rn_hasCompositionTimeOffsets t,
               rn_duration = d, rn_dataSize = z, rn_payloadOffset = 0, rn_outputOffset = 0,
               rn_startsWithSync = isSyncSample (sm_flags (hd ss)), rn_hasInferredDuration = False\<rparr>"
    by (auto simp: buildExplicitRun_def split: if_splits)
  have s: "unat d = durations ss" "unat z = sizes ss" using sum_samples_ok [OF p(2)] by simp_all
  moreover have "unat z \<noteq> 0" using p(3) by (simp add: unat_eq_zero)
  ultimately show "run_ok run" using p(1) assms(2-4) by (simp add: run_ok_def run)
  show "rn_samples run = ss" by (simp add: run)
qed

text \<open>What one side of a split holds: well-formed runs laid out from 0, with its bytes and duration.\<close>

definition part_ok :: "part \<Rightarrow> mp4Sample list \<Rightarrow> bool" where
  "part_ok p ss \<longleftrightarrow> (case p of (runs, b, d) \<Rightarrow> list_all run_ok runs \<and> run_samples runs = ss \<and> laid 0 runs (int (sizes ss))
     \<and> unat b = sizes ss \<and> d = of_nat (durations ss))"

lemma add_run_ok:
  assumes "add_run err t ss p = Inr p'" and "part_ok p ss0" and "run_ok t" and "set ss \<subseteq> set (rn_samples t)"
    and "length ss \<le> length (rn_samples t)"
  shows "part_ok p' (ss0 @ ss)" and "fst p' \<noteq> []"
proof -
  obtain runs b d where p: "p = (runs, b, d)" by (metis prod_cases3)
  from assms(1) p obtain run where r: "buildExplicitRun t ss = Inr run" "unat b + unat (rn_dataSize run) < 2 ^ 63"
    "p' = (runs @ [run\<lparr>rn_payloadOffset := int (unat b)\<rparr>], b + rn_dataSize run, d + rn_duration run)"
    by (auto simp: add_run_def split: if_splits)
  have t: "rn_version t \<le> 1" "length ss \<le> maxTrunSamples"
    "rn_hasCompositionTimeOffsets t \<or> (\<forall>s \<in> set ss. sm_compositionTimeOffsetRaw s = 0)"
    using assms(3-5) unfolding run_ok_def by (simp, linarith, blast)
  note ok = buildExplicitRun_ok [OF r(1) t]
  have z: "unat (rn_dataSize run) = sizes ss" "unat (rn_duration run) = durations ss"
    using ok by (simp_all add: run_ok_def)
  have "unat (b + rn_dataSize run) = unat b + unat (rn_dataSize run)"
    using r(2) by (intro unat_add_lem [THEN iffD1]) simp
  moreover have "rn_duration run = of_nat (durations ss)" by (simp add: z(2) [symmetric])
  ultimately show "part_ok p' (ss0 @ ss)"
    using assms(2) ok z by (simp add: part_ok_def p r(3) laid_append)
  show "fst p' \<noteq> []" by (simp add: r(3))
qed

lemma split_runs_ok:
  assumes "split_runs runs n l r = Inr (n', l', r')" and "list_all run_ok runs" and "part_ok l sl" and "part_ok r sr"
    and "n = 0 \<or> sr = []"
  shows "n' = n - length (run_samples runs) \<and> part_ok l' (sl @ take n (run_samples runs))
    \<and> part_ok r' (sr @ drop n (run_samples runs))"
  using assms
proof (induction runs arbitrary: n l r sl sr)
  case (Cons run runs)
  let ?k = "min n (length (rn_samples run))"
  obtain l1 r1 where s:
    "(if ?k > 0 then add_run ''left audio payload offset overflow'' run (take ?k (rn_samples run)) l else Inr l) = Inr l1"
    "(if ?k < length (rn_samples run) then add_run ''right audio payload offset overflow'' run (drop ?k (rn_samples run)) r
      else Inr r) = Inr r1"
    "split_runs runs (n - ?k) l1 r1 = Inr (n', l', r')"
    using Cons.prems(1) unfolding split_runs.simps Let_def if_Inl_Inr chain_Inr by (elim exE conjE) rule
  have run: "run_ok run" and runs: "list_all run_ok runs" using Cons.prems(2) by simp_all
  have l1: "part_ok l1 (sl @ take n (rn_samples run))"
  proof (cases "?k > 0")
    case True
    with s(1) have a: "add_run ''left audio payload offset overflow'' run (take ?k (rn_samples run)) l = Inr l1"
      by (simp only: if_True)
    have "take ?k (rn_samples run) = take n (rn_samples run)" by (simp add: min_def)
    with add_run_ok(1) [OF a Cons.prems(3) run] show ?thesis by (simp add: set_take_subset)
  next
    case False
    with s(1) Cons.prems(3) show ?thesis using run by (auto simp: run_ok_def)
  qed
  have r1: "part_ok r1 (sr @ drop n (rn_samples run))"
  proof (cases "?k < length (rn_samples run)")
    case True
    with s(2) have a: "add_run ''right audio payload offset overflow'' run (drop ?k (rn_samples run)) r = Inr r1"
      by (simp only: if_True)
    have "drop ?k (rn_samples run) = drop n (rn_samples run)" using True by simp
    with add_run_ok(1) [OF a Cons.prems(4) run] show ?thesis by (simp add: set_drop_subset)
  next
    case False
    with s(2) Cons.prems(4) show ?thesis by simp
  qed
  have "n - ?k = 0 \<or> sr @ drop n (rn_samples run) = []" using Cons.prems(5) by auto
  from Cons.IH [OF s(3) runs l1 r1 this] show ?case by (auto simp: min_def)
qed simp

lemma frag_eta:
  "\<lparr>fr_trackID = fr_trackID f, fr_timescale = fr_timescale f, fr_decodeTime = t, fr_duration = d,
     fr_startsWithSync = y, fr_sampleDescriptionIndex = fr_sampleDescriptionIndex f, fr_tfhd = fr_tfhd f,
     fr_runs = rs, fr_payloadStart = s, fr_payloadLen = n, fr_hasInferredDuration = g\<rparr>
   = f\<lparr>fr_decodeTime := t, fr_duration := d, fr_startsWithSync := y, fr_runs := rs, fr_payloadStart := s,
       fr_payloadLen := n, fr_hasInferredDuration := g\<rparr>"
  by (cases f) simp

lemma splitFragment_parts:
  assumes "splitFragmentAtSample f n = Inr (l, r)"
  shows "\<exists>lr lb ld rr rb rd. split_runs (fr_runs f) n ([], 0, 0) ([], 0, 0) = Inr (0, (lr, lb, ld), (rr, rb, rd))
    \<and> lr \<noteq> [] \<and> rr \<noteq> [] \<and> ld + rd = fr_duration f \<and> lb + rb = of_int (fr_payloadLen f) \<and> lb \<le> of_int (fr_payloadLen f)
    \<and> \<not> - 1 - fr_decodeTime f < ld
    \<and> l = f\<lparr>fr_decodeTime := fr_decodeTime f, fr_duration := ld, fr_startsWithSync := rn_startsWithSync (hd lr), fr_runs := lr,
       fr_payloadStart := fr_payloadStart f, fr_payloadLen := int (unat lb), fr_hasInferredDuration := False\<rparr>
    \<and> r = f\<lparr>fr_decodeTime := fr_decodeTime f + ld, fr_duration := rd, fr_startsWithSync := rn_startsWithSync (hd rr),
       fr_runs := rr, fr_payloadStart := fr_payloadStart f + int (unat lb),
       fr_payloadLen := fr_payloadLen f - int (unat lb), fr_hasInferredDuration := False\<rparr>"
proof -
  obtain lr lb ld rr rb rd rem where p: "split_runs (fr_runs f) n ([], 0, 0) ([], 0, 0) = Inr (rem, (lr, lb, ld), (rr, rb, rd))"
    "\<not> (rem \<noteq> 0 \<or> lr = [] \<or> rr = [])" "\<not> ld + rd \<noteq> fr_duration f" "\<not> lb + rb \<noteq> of_int (fr_payloadLen f)"
    "\<not> of_int (fr_payloadLen f) < lb" "\<not> - 1 - fr_decodeTime f < ld"
    "f\<lparr>fr_decodeTime := fr_decodeTime f, fr_duration := ld, fr_startsWithSync := rn_startsWithSync (hd lr), fr_runs := lr,
       fr_payloadStart := fr_payloadStart f, fr_payloadLen := int (unat lb), fr_hasInferredDuration := False\<rparr> = l"
    "f\<lparr>fr_decodeTime := fr_decodeTime f + ld, fr_duration := rd, fr_startsWithSync := rn_startsWithSync (hd rr),
       fr_runs := rr, fr_payloadStart := fr_payloadStart f + int (unat lb),
       fr_payloadLen := fr_payloadLen f - int (unat lb), fr_hasInferredDuration := False\<rparr> = r"
    using assms unfolding splitFragmentAtSample_def Let_def chain_Inr if_Inl_Inr split_paired_Ex prod.case sum.inject
      prod.inject frag_eta by (elim exE conjE) rule
  from p(2) have e: "rem = 0" "lr \<noteq> []" "rr \<noteq> []" by simp_all
  from p(3-5) have q: "ld + rd = fr_duration f" "lb + rb = of_int (fr_payloadLen f)" "lb \<le> of_int (fr_payloadLen f)"
    by simp_all
  show ?thesis
    by (intro exI conjI) (rule p(1) [unfolded e(1)] e(2,3) q p(6) p(7) [symmetric] p(8) [symmetric])+
qed

lemma splitFragment_ok:
  assumes "splitFragmentAtSample f n = Inr (l, r)" and "frag_ok storage f"
  shows "frag_ok storage l" and "frag_ok storage r"
    and "frag_samples l = take n (frag_samples f)" and "frag_samples r = drop n (frag_samples f)"
    and "frag_content storage l @ frag_content storage r = frag_content storage f"
    and "fr_decodeTime l = fr_decodeTime f" and "fr_decodeTime r = endTime l" and "endTime r = endTime f"
    and "fr_trackID l = fr_trackID f" and "fr_trackID r = fr_trackID f"
proof -
  obtain lr lb ld rr rb rd where p: "split_runs (fr_runs f) n ([], 0, 0) ([], 0, 0) = Inr (0, (lr, lb, ld), (rr, rb, rd))"
    "lr \<noteq> []" "rr \<noteq> []" "ld + rd = fr_duration f"
    and l: "l = f\<lparr>fr_decodeTime := fr_decodeTime f, fr_duration := ld, fr_startsWithSync := rn_startsWithSync (hd lr), fr_runs := lr,
       fr_payloadStart := fr_payloadStart f, fr_payloadLen := int (unat lb), fr_hasInferredDuration := False\<rparr>"
    and r: "r = f\<lparr>fr_decodeTime := fr_decodeTime f + ld, fr_duration := rd, fr_startsWithSync := rn_startsWithSync (hd rr),
       fr_runs := rr, fr_payloadStart := fr_payloadStart f + int (unat lb),
       fr_payloadLen := fr_payloadLen f - int (unat lb), fr_hasInferredDuration := False\<rparr>"
    using splitFragment_parts [OF assms(1)] by (elim exE conjE) rule
  let ?ss = "frag_samples f"
  have f: "parsed_ok f" "list_all run_ok (fr_runs f)" using assms(2) by (simp_all add: frag_ok_def parsed_ok_def)
  have "part_ok ([], 0, 0) []" by (simp add: part_ok_def)
  from split_runs_ok [OF p(1) f(2) this this] have s: "part_ok (lr, lb, ld) (take n ?ss)" "part_ok (rr, rb, rd) (drop n ?ss)"
    by (simp_all add: frag_samples_def)
  have sz: "sizes (take n ?ss) + sizes (drop n ?ss) = sizes ?ss" "durations (take n ?ss) + durations (drop n ?ss) = durations ?ss"
    by (metis append_take_drop_id sizes_simps(3), metis append_take_drop_id sizes_simps(6))
  have "unat (fr_duration f) < 2 ^ 64" using unsigned_less [of "fr_duration f"] by simp
  then have "durations ?ss < 2 ^ 64" using f(1) by (simp add: parsed_ok_def)
  then have d: "unat ld = durations (take n ?ss)" "unat rd = durations (drop n ?ss)"
    using s sz(2) by (simp_all add: part_ok_def unat_u64)
  have lb: "int (unat lb) = int (sizes (take n ?ss))" using s(1) by (simp only: part_ok_def prod.case)
  show sl: "frag_samples l = take n ?ss" and sr: "frag_samples r = drop n ?ss"
    using s by (simp_all add: l r frag_samples_def part_ok_def)
  note rng = frag_ok_range [OF assms(2)] and len = frag_ok_len [OF assms(2)]
  show "frag_ok storage l"
    using s(1) p(2) f(1) d(1) sz(1) rng len sl unfolding l lb by (auto simp: frag_ok_def parsed_ok_def part_ok_def)
  have rl: "fr_payloadLen f - int (sizes (take n ?ss)) = int (sizes (drop n ?ss))"
    using sz(1) unfolding len by linarith
  show "frag_ok storage r"
    using s(2) p(3) f(1) d(2) sz(1) rng len sr unfolding r lb rl by (auto simp: frag_ok_def parsed_ok_def part_ok_def)
  have "frag_bytes storage l = take (sizes (take n ?ss)) (frag_bytes storage f)"
    using rng(3) sz(1) unfolding l lb by (simp add: frag_bytes_def min_absorb1)
  moreover have "frag_bytes storage r = drop (sizes (take n ?ss)) (frag_bytes storage f)"
    using rng(1,3) sz(1) [symmetric] unfolding r lb rl by (simp add: frag_bytes_def drop_take nat_add_distrib add.commute)
  ultimately show "frag_content storage l @ frag_content storage r = frag_content storage f"
    by (simp add: frag_content_def sl sr cut_take) (metis append_take_drop_id cut_append)
  show "fr_decodeTime l = fr_decodeTime f" "fr_decodeTime r = endTime l" "endTime r = endTime f"
    "fr_trackID l = fr_trackID f" "fr_trackID r = fr_trackID f"
    using p(4) by (simp_all add: l r endTime_def)
qed

end
