(* ===== verification/Mp4Write.thy ===== *)
theory Mp4Write
  imports Mp4Content
begin

text \<open>
  Written fragments are read back: a \<open>trun\<close> with its samples, a \<open>traf\<close> with the runs of several fragments, and the
  data offsets lead to the bytes of the samples.
\<close>

unbundle bit_operations_syntax

subsection \<open>Runs\<close>

lemma opt_u32_put: "opt_u32 True (pre @ put32 v @ rest) (length pre) err d = Inr (v, length pre + 4)"
  by (simp add: opt_u32_def readUint32_def)

lemma opt_u32_absent: "opt_u32 False box cursor err d = Inr (d, cursor)"
  by (simp add: opt_u32_def)

lemma guard_ok:
  fixes a b :: u64
  assumes "unat a + unat b < 2 ^ 64"
  shows "\<not> - 1 - a < b"
proof -
  have "unat (- 1 - a) = 2 ^ 64 - 1 - unat a"
    using max_u64 by (subst unat_sub) (simp_all only: word_order.extremum)
  then show ?thesis using assms by (simp add: word_less_nat_alt)
qed

lemma u64_less: "unat (w :: u64) < 2 ^ 64"
  using unsigned_less [of w] by simp

lemma u64_of_unat: "of_nat (unat (w :: u64)) = w"
  by simp

lemma of_nat_ucast: "of_nat (unat (w :: u32)) = (ucast w :: u64)"
proof -
  have "unat w < 2 ^ 32" using unsigned_less [of w] by simp
  then have "unat w < 2 ^ 64" by simp
  then show ?thesis by (intro word_unat_eq_iff [THEN iffD2]) (simp add: unat_u64)
qed

lemma read_written:
  assumes "tf_hasDuration fm" and "tf_hasSize fm" and "tf_hasFlags fm" and "tf_hasOffsets fm = cto"
    and "cto \<or> (\<forall>s \<in> set ss. sm_compositionTimeOffsetRaw s = 0)"
    and "unat d + durations ss < 2 ^ 64" and "unat z + sizes ss < 2 ^ 64"
  shows "read_samples fm (pre @ concat (map (write_sample cto) ss)) (length ss) i0 (length pre) d z acc
    = Inr (acc @ ss, length (pre @ concat (map (write_sample cto) ss)), d + of_nat (durations ss), z + of_nat (sizes ss))"
  using assms(5-7)
proof (induction ss arbitrary: pre d z acc i0)
  case (Cons s ss)
  let ?rest = "concat (map (write_sample cto) ss)"
  have g: "\<not> - 1 - d < ucast (sm_duration s)" "\<not> - 1 - z < ucast (sm_size s)"
    using Cons.prems by (intro guard_ok; simp)+
  have u: "unat (d + ucast (sm_duration s)) = unat d + unat (sm_duration s)"
    "unat (z + ucast (sm_size s)) = unat z + unat (sm_size s)"
    using guarded_add [OF g(1)] guarded_add [OF g(2)] by simp_all
  let ?p1 = "pre @ put32 (sm_duration s)" and ?p2 = "pre @ put32 (sm_duration s) @ put32 (sm_size s)"
    and ?p3 = "pre @ put32 (sm_duration s) @ put32 (sm_size s) @ put32 (sm_flags s)"
  let ?box = "pre @ concat (map (write_sample cto) (s # ss))"
  let ?c = "if cto then put32 (sm_compositionTimeOffsetRaw s) else []"
  have o: "opt_u32 True ?box (length pre) e v = Inr (sm_duration s, length ?p1)"
    "opt_u32 True ?box (length ?p1) e v = Inr (sm_size s, length ?p2)"
    "opt_u32 True ?box (length ?p2) e v = Inr (sm_flags s, length ?p3)" for e v
    using opt_u32_put [of pre "sm_duration s" "put32 (sm_size s) @ put32 (sm_flags s) @ ?c @ ?rest" e v]
      opt_u32_put [of ?p1 "sm_size s" "put32 (sm_flags s) @ ?c @ ?rest" e v]
      opt_u32_put [of ?p2 "sm_flags s" "?c @ ?rest" e v]
    by (simp_all add: write_sample_def)
  have c: "opt_u32 cto ?box (length ?p3) e 0 = Inr (sm_compositionTimeOffsetRaw s, length (?p3 @ ?c))" for e
  proof (cases cto)
    case True
    with opt_u32_put [of ?p3 "sm_compositionTimeOffsetRaw s" ?rest e 0] show ?thesis
      by (simp add: write_sample_def)
  next
    case False
    with Cons.prems(1) show ?thesis by (simp add: opt_u32_absent)
  qed
  have s: "\<lparr>sm_duration = sm_duration s, sm_size = sm_size s, sm_flags = sm_flags s,
      sm_compositionTimeOffsetRaw = sm_compositionTimeOffsetRaw s\<rparr> = s" by simp
  have ih: "read_samples fm ((?p3 @ ?c) @ ?rest) (length ss) False (length (?p3 @ ?c)) (d + ucast (sm_duration s))
      (z + ucast (sm_size s)) (acc @ [s]) = Inr ((acc @ [s]) @ ss, length ((?p3 @ ?c) @ ?rest),
      d + ucast (sm_duration s) + of_nat (durations ss), z + ucast (sm_size s) + of_nat (sizes ss))"
    using Cons.prems u by (intro Cons.IH) auto
  have box: "(?p3 @ ?c) @ ?rest = ?box" by (simp add: write_sample_def)
  have e: "(acc @ [s]) @ ss = acc @ s # ss"
    "d + ucast (sm_duration s) + of_nat (durations ss) = d + of_nat (durations (s # ss))"
    "z + ucast (sm_size s) + of_nat (sizes ss) = z + of_nat (sizes (s # ss))"
    by (simp_all add: of_nat_ucast add.assoc)
  have fm: "tf_hasDuration fm = True" "tf_hasSize fm = True" "tf_hasFlags fm = True" using assms(1-3) by simp_all
  from ih [unfolded box e] show ?case
    unfolding list.size(4) add_Suc_right add_0_right read_samples.simps fm assms(4) o c chain_simps prod.case s
    using g by (simp only: if_False)
qed simp

definition trun_flags :: "u32 \<Rightarrow> bool \<Rightarrow> u32" where
  "trun_flags v cto = push_bit 24 v OR (0x000001 OR 0x000100 OR 0x000200 OR 0x000400 OR (if cto then 0x000800 else 0))"

lemma trun_flags_fields:
  assumes "v \<le> 1"
  shows "drop_bit 24 (trun_flags v cto) = v"
    and "(trun_flags v cto AND 0x00ffffff) AND NOT 0x000f05 = 0"
    and "((trun_flags v cto AND 0x00ffffff) AND 0x000001 \<noteq> 0) = True"
    and "((trun_flags v cto AND 0x00ffffff) AND 0x000004 \<noteq> 0) = False"
    and "((trun_flags v cto AND 0x00ffffff) AND 0x000100 \<noteq> 0) = True"
    and "((trun_flags v cto AND 0x00ffffff) AND 0x000200 \<noteq> 0) = True"
    and "((trun_flags v cto AND 0x00ffffff) AND 0x000400 \<noteq> 0) = True"
    and "((trun_flags v cto AND 0x00ffffff) AND 0x000800 \<noteq> 0) = cto"
proof -
  have "unat v \<le> unat (1 :: u32)" using assms by (simp only: word_le_nat_alt)
  then have "unat v = unat (0 :: u32) \<or> unat v = unat (1 :: u32)" by auto
  then have "v = 0 \<or> v = 1" unfolding word_unat_eq_iff .
  moreover have "P v cto" if "P 0 True" "P 0 False" "P 1 True" "P 1 False" for P
    using calculation that by (cases cto) auto
  note ground = this
  show "drop_bit 24 (trun_flags v cto) = v"
    "(trun_flags v cto AND 0x00ffffff) AND NOT 0x000f05 = 0"
    "((trun_flags v cto AND 0x00ffffff) AND 0x000001 \<noteq> 0) = True"
    "((trun_flags v cto AND 0x00ffffff) AND 0x000004 \<noteq> 0) = False"
    "((trun_flags v cto AND 0x00ffffff) AND 0x000100 \<noteq> 0) = True"
    "((trun_flags v cto AND 0x00ffffff) AND 0x000200 \<noteq> 0) = True"
    "((trun_flags v cto AND 0x00ffffff) AND 0x000400 \<noteq> 0) = True"
    "((trun_flags v cto AND 0x00ffffff) AND 0x000800 \<noteq> 0) = cto"
    by (rule ground; code_simp)+
qed

lemma sint_of_int32: "- (2 ^ 31) \<le> x \<Longrightarrow> x < 2 ^ 31 \<Longrightarrow> sint (of_int x :: u32) = x"
  by (simp add: signed_of_int signed_take_bit_int_eq_self)

lemma length_write_sample: "length (write_sample cto s) = (if cto then 16 else 12)"
  by (simp add: write_sample_def)

lemma length_written: "length (concat (map (write_sample cto) ss)) = length ss * (if cto then 16 else 12)"
  by (induction ss) (simp_all add: length_write_sample)

text \<open>The run that is read back.\<close>

definition read_back :: "mp4Run \<Rightarrow> int \<Rightarrow> mp4Run" where
  "read_back run off = run\<lparr>rn_sourceDataOffset := off, rn_hasSourceDataOffset := True, rn_payloadOffset := 0,
     rn_outputOffset := 0, rn_hasInferredDuration := False\<rparr>"

lemma read_back_eta:
  assumes "run_ok run"
  shows "\<lparr>rn_sourceDataOffset = off, rn_hasSourceDataOffset = True, rn_samples = rn_samples run, rn_version = rn_version run,
     rn_hasCompositionTimeOffsets = rn_hasCompositionTimeOffsets run, rn_duration = of_nat (durations (rn_samples run)),
     rn_dataSize = of_nat (sizes (rn_samples run)), rn_payloadOffset = 0, rn_outputOffset = 0,
     rn_startsWithSync = isSyncSample (sm_flags (hd (rn_samples run))), rn_hasInferredDuration = False\<rparr> = read_back run off"
proof -
  have "of_nat (durations (rn_samples run)) = rn_duration run" "of_nat (sizes (rn_samples run)) = rn_dataSize run"
    "isSyncSample (sm_flags (hd (rn_samples run))) = rn_startsWithSync run"
    using assms unfolding run_ok_def by (metis u64_of_unat, metis u64_of_unat, metis)
  then show ?thesis by (cases run) (simp add: read_back_def)
qed

lemma writeCanonicalTrun_bytes:
  assumes "writeCanonicalTrun run off = Inr bs"
  shows "bs = put32 (of_nat (canonicalTrunSize run)) @ put32 boxTrun
      @ put32 (trun_flags (rn_version run) (rn_hasCompositionTimeOffsets run))
      @ put32 (of_nat (length (rn_samples run))) @ put32 (of_int off)
      @ concat (map (write_sample (rn_hasCompositionTimeOffsets run)) (rn_samples run))"
  using assms unfolding writeCanonicalTrun_def Let_def if_Inl_Inr sum.inject trun_flags_def
  by (elim conjE) (rule sym)

lemma writeCanonicalTrun_box:
  assumes "writeCanonicalTrun run off = Inr bs"
  shows "\<exists>body. bs = mk_box boxTrun body \<and> 8 + length body = canonicalTrunSize run"
proof -
  let ?body = "put32 (trun_flags (rn_version run) (rn_hasCompositionTimeOffsets run))
      @ put32 (of_nat (length (rn_samples run))) @ put32 (of_int off)
      @ concat (map (write_sample (rn_hasCompositionTimeOffsets run)) (rn_samples run))"
  have n: "8 + length ?body = canonicalTrunSize run"
    by (simp add: length_written canonicalTrunSize_def entry_size_def)
  show ?thesis
    by (intro exI [of _ ?body] conjI n) (simp add: writeCanonicalTrun_bytes [OF assms] mk_box_def n [symmetric])
qed

lemma trun_roundtrip:
  assumes "writeCanonicalTrun run off = Inr bs" and ok: "run_ok run" and "0 < durations (rn_samples run)"
    and "- (2 ^ 31) \<le> off" and "off < 2 ^ 31"
  shows "normalizeTrun bs 8 dd ds df hint = Inr (read_back run off)"
proof -
  let ?cto = "rn_hasCompositionTimeOffsets run" and ?ss = "rn_samples run"
  let ?vf = "trun_flags (rn_version run) ?cto"
  let ?pre = "put32 (of_nat (canonicalTrunSize run)) @ put32 boxTrun @ put32 ?vf @ put32 (of_nat (length ?ss)) @ put32 (of_int off)"
  have bs: "bs = ?pre @ concat (map (write_sample ?cto) ?ss)"
    using writeCanonicalTrun_bytes [OF assms(1)] by simp
  have v: "rn_version run \<le> 1" and ss: "?ss \<noteq> []" and len: "length ?ss \<le> maxTrunSamples" using ok by (simp_all add: run_ok_def)
  note fl = trun_flags_fields [OF v, of ?cto]
  have cnt: "unat (of_nat (length ?ss) :: u32) = length ?ss"
    using len by (intro unat_u32) (simp add: maxTrunSamples_def)
  have cnt0: "(of_nat (length ?ss) :: u32) \<noteq> 0"
    using cnt ss by (metis length_0_conv unat_0)
  have u: "Uint32 (drop 8 bs) = ?vf" "Uint32 (drop (8 + 4) bs) = of_nat (length ?ss)"
    by (simp_all add: bs)
  have o: "opt_u32 True bs (8 + 8) e 0 = Inr (of_int off, 20)" for e
    using opt_u32_put [of "put32 (of_nat (canonicalTrunSize run)) @ put32 boxTrun @ put32 ?vf @ put32 (of_nat (length ?ss))"
        "of_int off" "concat (map (write_sample ?cto) ?ss)" e 0] by (simp add: bs)
  have n: "length bs = 20 + length ?ss * (if ?cto then 16 else 12)" by (simp add: bs length_written)
  have d: "durations ?ss < 2 ^ 64" "sizes ?ss < 2 ^ 64"
    using ok u64_less [of "rn_duration run"] u64_less [of "rn_dataSize run"] by (simp_all add: run_ok_def)
  have nz: "(of_nat (durations ?ss) :: u64) \<noteq> 0" "(of_nat (sizes ?ss) :: u64) \<noteq> 0"
    using d assms(3) ok unat_u64 [of "durations ?ss"] unat_u64 [of "sizes ?ss"]
    by (auto simp: run_ok_def simp flip: unat_eq_zero)
  let ?fm = "\<lparr>tf_hasDuration = True, tf_hasSize = True, tf_hasFlags = True, tf_hasOffsets = ?cto, tf_hasFirst = False,
    tf_firstFlags = df, tf_defaultDuration = dd, tf_defaultSize = ds, tf_defaultFlags = df\<rparr>"
  have r: "read_samples ?fm bs (length ?ss) True 20 0 0 []
      = Inr (?ss, length bs, of_nat (durations ?ss), of_nat (sizes ?ss))"
    using read_written [of ?fm ?cto ?ss 0 0 ?pre True "[]"] ok d by (simp add: bs run_ok_def)
  have b: "8 + 8 \<le> length bs" "20 + length ?ss * (of_bool True + of_bool True + of_bool True + of_bool ?cto) * 4 = length bs"
    by (simp_all add: n)
  show ?thesis
    unfolding normalizeTrun_def u Let_def fl o cnt opt_u32_absent chain_simps prod.case r
    using v b len cnt0 nz by (simp add: o cnt opt_u32_absent r sint_of_int32 [OF assms(4,5)] read_back_eta [OF ok])
qed

subsection \<open>Track fragments\<close>

lemma write_runs_roundtrip:
  assumes "write_runs runs ms hs = Inr bs" and "list_all run_ok runs" and "list_all (\<lambda>run. 0 < durations (rn_samples run)) runs"
  shows "\<exists>bodies. bs = concat (map (mk_box boxTrun) bodies)
    \<and> sum_list (map (\<lambda>b. 8 + length b) bodies) = sum_list (map canonicalTrunSize runs)
    \<and> (\<forall>dd ds df hint d g rs. unat d + durations (run_samples runs) < 2 ^ 64 \<longrightarrow>
        traf_runs (map (\<lambda>b. (boxTrun, 8, mk_box boxTrun b)) bodies) dd ds df hint d g rs
        = Inr (d + of_nat (durations (run_samples runs)), g,
            rs @ map (\<lambda>run. read_back run (int ms + int hs + rn_outputOffset run)) runs))"
  using assms
proof (induction runs arbitrary: bs)
  case Nil
  then show ?case by (intro exI [of _ "[]"]) simp
next
  case (Cons run runs)
  let ?off = "int ms + int hs + rn_outputOffset run"
  from Cons.prems(1) obtain b1 b2 where w: "- (2 ^ 31) \<le> ?off" "?off < 2 ^ 31" "writeCanonicalTrun run ?off = Inr b1"
    "write_runs runs ms hs = Inr b2" "bs = b1 @ b2"
    by (auto simp: Let_def split: if_splits)
  have ok: "run_ok run" "0 < durations (rn_samples run)" using Cons.prems(2,3) by simp_all
  then have dur: "unat (rn_duration run) = durations (rn_samples run)" by (simp add: run_ok_def)
  from writeCanonicalTrun_box [OF w(3)] obtain body where body: "b1 = mk_box boxTrun body" "8 + length body = canonicalTrunSize run"
    by blast
  from Cons.IH [OF w(4)] Cons.prems(2,3) obtain bodies where b: "b2 = concat (map (mk_box boxTrun) bodies)"
    "sum_list (map (\<lambda>b. 8 + length b) bodies) = sum_list (map canonicalTrunSize runs)"
    "\<And>dd ds df hint d g rs. unat d + durations (run_samples runs) < 2 ^ 64 \<Longrightarrow>
      traf_runs (map (\<lambda>b. (boxTrun, 8, mk_box boxTrun b)) bodies) dd ds df hint d g rs
        = Inr (d + of_nat (durations (run_samples runs)), g,
            rs @ map (\<lambda>run. read_back run (int ms + int hs + rn_outputOffset run)) runs)" by auto
  have rb: "rn_duration (read_back run ?off) = rn_duration run" "rn_hasInferredDuration (read_back run ?off) = False"
    by (simp_all add: read_back_def)
  have step: "traf_runs (map (\<lambda>b. (boxTrun, 8, mk_box boxTrun b)) (body # bodies)) dd ds df hint d g rs
      = Inr (d + of_nat (durations (run_samples (run # runs))), g,
          rs @ map (\<lambda>run. read_back run (int ms + int hs + rn_outputOffset run)) (run # runs))"
    if d: "unat d + durations (run_samples (run # runs)) < 2 ^ 64" for dd ds df hint d g rs
  proof -
    have g: "\<not> - 1 - d < rn_duration run" using d dur by (intro guard_ok) simp
    have d': "rn_duration run = of_nat (durations (rn_samples run))" by (simp add: dur [symmetric])
    have lim: "unat (d + rn_duration run) + durations (run_samples runs) < 2 ^ 64"
      using d by (simp add: guarded_add [OF g] dur)
    have n: "normalizeTrun (mk_box boxTrun body) 8 dd ds df hint = Inr (read_back run ?off)"
      using trun_roundtrip [OF w(3) ok w(1,2)] body(1) by simp
    show ?thesis
      using g b(3) [OF lim, of dd ds df hint g "rs @ [read_back run ?off]"]
      by (simp add: n rb) (simp add: d' add.assoc)
  qed
  show ?case
    by (intro exI [of _ "body # bodies"] conjI allI impI step) (use b(1,2) body w(5) in simp_all)
qed

lemma tfhd_box: "buildCanonicalTfhd t i = mk_box boxTfhd (put32 0x020002 @ put32 t @ put32 i)"
proof -
  have "(0x000002 OR 0x020000 :: u32) = 0x020002" by code_simp
  then show ?thesis by (simp add: buildCanonicalTfhd_def mk_box_def)
qed

lemma tfhd_roundtrip:
  assumes "t \<noteq> 0" and "i \<noteq> 0"
  shows "parseTfhd (buildCanonicalTfhd t i) 8 = Inr \<lparr>th_trackID = t, th_sampleDescriptionIndex = i,
    th_hasSampleDescriptionIndex = True, th_defaultDuration = 0, th_defaultSize = 0, th_defaultFlags = 0,
    th_hasDefaultFlags = False\<rparr>"
proof -
  let ?b = "buildCanonicalTfhd t i"
  have l: "length ?b = 20" by (simp add: tfhd_box)
  have u: "Uint32 (drop 8 ?b) = 0x020002" "Uint32 (drop (8 + 4) ?b) = t"
    by (simp_all add: tfhd_box mk_box_def)
  have o: "opt_u32 True ?b (8 + 8) e 0 = Inr (i, 20)" for e
    using opt_u32_put [of "put32 20 @ put32 boxTfhd @ put32 0x020002 @ put32 t" i "[]" e 0]
    by (simp add: tfhd_box mk_box_def)
  have f: "drop_bit 24 (0x020002 :: u32) = 0" "((0x020002 :: u32) AND 0x00ffffff) AND NOT 0x03003b = 0"
    "((0x020002 :: u32) AND 0x00ffffff) AND 0x000001 = 0" "((0x020002 :: u32) AND 0x00ffffff) AND 0x010000 = 0"
    "(((0x020002 :: u32) AND 0x00ffffff) AND 0x000002 \<noteq> 0) = True" "(((0x020002 :: u32) AND 0x00ffffff) AND 0x000020 \<noteq> 0) = False"
    "(((0x020002 :: u32) AND 0x00ffffff) AND 0x000008 \<noteq> 0) = False" "(((0x020002 :: u32) AND 0x00ffffff) AND 0x000010 \<noteq> 0) = False"
    by code_simp+
  show ?thesis
    unfolding parseTfhd_def u Let_def f o opt_u32_absent chain_simps prod.case using assms by (simp add: l)
qed

lemma be_bytes_4: "be_bytes 4 v = [of_nat (v div 256 ^ 3), of_nat (v div 256 ^ 2), of_nat (v div 256), of_nat v]"
proof -
  have four: "4 = Suc (Suc (Suc (Suc 0)))" by simp
  show ?thesis unfolding four be_bytes.simps by (simp add: power3_eq_cube power2_eq_square)
qed

lemma tfdt_roundtrip: "readTfdt (writeTfdt d) 8 = Some d"
proof -
  have "put32 0x01000000 = [1, 0, 0, 0]" by (simp add: put32_def be_bytes_4)
  then show ?thesis by (simp add: readTfdt_def writeTfdt_def nth_append)
qed

text \<open>The one fragment that several fragments of a track are written as.\<close>

definition joined :: "mp4Fragment list \<Rightarrow> nat \<Rightarrow> nat \<Rightarrow> u64 \<Rightarrow> mp4Fragment" where
  "joined fs ms hs dt =
     \<lparr>fr_trackID = fr_trackID (hd fs), fr_timescale = fr_timescale (hd fs), fr_decodeTime = dt,
      fr_duration = of_nat (durations (concat (map frag_samples fs))), fr_startsWithSync = fr_startsWithSync (hd fs),
      fr_sampleDescriptionIndex = fr_sampleDescriptionIndex (hd fs), fr_tfhd = fr_tfhd (hd fs),
      fr_runs = map (\<lambda>run. read_back run (int ms + int hs + rn_outputOffset run)) (concat (map fr_runs fs)),
      fr_payloadStart = 0, fr_payloadLen = 0, fr_hasInferredDuration = False\<rparr>"

lemma traf_heads_truns: "traf_heads (map (\<lambda>b. (boxTrun, 8, mk_box boxTrun b)) bodies) h d = Inr (h, d)"
  by (induction bodies) (simp_all add: traf_tags)

lemma run_samples_concat: "run_samples (concat (map fr_runs fs)) = concat (map frag_samples fs)"
  by (induction fs) (simp_all add: frag_samples_def)

text \<open>The boxes of a written \<open>traf\<close>.\<close>

lemma writeTraf_boxes:
  assumes "writeTraf fs n ms hs off = Inr bs" and "parsed_ok (hd fs)" and "getTrafSize fs n < 2 ^ 31"
    and "list_all run_ok (concat (map fr_runs (take n fs)))"
    and "list_all (\<lambda>run. 0 < durations (rn_samples run)) (concat (map fr_runs (take n fs)))"
    and "durations (concat (map frag_samples (take n fs))) < 2 ^ 64"
  shows "\<exists>dt bodies body. addTfdtOffset (fr_decodeTime (hd fs)) (fr_timescale (hd fs)) off = Inr dt
    \<and> bs = mk_box boxTraf body \<and> length bs = getTrafSize fs n
    \<and> boxes bs 8 = (boxTfhd, 8, fr_tfhd (hd fs)) # (boxTfdt, 8, writeTfdt dt)
        # map (\<lambda>b. (boxTrun, 8, mk_box boxTrun b)) bodies
    \<and> (\<forall>dd ds df hint. traf_runs (map (\<lambda>b. (boxTrun, 8, mk_box boxTrun b)) bodies) dd ds df hint 0 False []
        = Inr (of_nat (durations (concat (map frag_samples (take n fs)))), False,
            map (\<lambda>run. read_back run (int ms + int hs + rn_outputOffset run)) (concat (map fr_runs (take n fs)))))"
proof -
  let ?runs = "concat (map fr_runs (take n fs))" and ?f = "hd fs"
  from assms(1) obtain dt rb where w: "addTfdtOffset (fr_decodeTime ?f) (fr_timescale ?f) off = Inr dt"
    "write_runs ?runs ms hs = Inr rb"
    "bs = writeHeader (of_nat (getTrafSize fs n)) boxTraf @ fr_tfhd ?f @ writeTfdt dt @ rb"
    by (auto simp: writeTraf_def Let_def split: if_splits)
  have d: "unat (0 :: u64) + durations (run_samples ?runs) < 2 ^ 64"
    using assms(6) by (simp add: run_samples_concat)
  obtain bodies where b: "rb = concat (map (mk_box boxTrun) bodies)"
    "sum_list (map (\<lambda>b. 8 + length b) bodies) = sum_list (map canonicalTrunSize ?runs)"
    and t: "\<forall>dd ds df hint d g rs. unat d + durations (run_samples ?runs) < 2 ^ 64 \<longrightarrow>
        traf_runs (map (\<lambda>b. (boxTrun, 8, mk_box boxTrun b)) bodies) dd ds df hint d g rs
        = Inr (d + of_nat (durations (run_samples ?runs)), g,
            rs @ map (\<lambda>run. read_back run (int ms + int hs + rn_outputOffset run)) ?runs)"
    using write_runs_roundtrip [OF w(2) assms(4,5)] by (elim exE conjE) rule
  have t0: "traf_runs (map (\<lambda>b. (boxTrun, 8, mk_box boxTrun b)) bodies) dd ds df hint 0 False []
      = Inr (of_nat (durations (concat (map frag_samples (take n fs)))), False,
          map (\<lambda>run. read_back run (int ms + int hs + rn_outputOffset run)) ?runs)" for dd ds df hint
    using t [rule_format, OF d, of dd ds df hint False "[]"] by (simp add: run_samples_concat)
  let ?tfhd = "put32 0x020002 @ put32 (fr_trackID ?f) @ put32 (fr_sampleDescriptionIndex ?f)"
  let ?bs = "(boxTfhd, ?tfhd) # (boxTfdt, put32 0x01000000 @ put64 dt) # map (Pair boxTrun) bodies"
  have tfhd: "fr_tfhd ?f = mk_box boxTfhd ?tfhd" using assms(2) by (simp add: parsed_ok_def tfhd_box)
  have body: "concat (map (\<lambda>(t, body). mk_box t body) ?bs) = fr_tfhd ?f @ writeTfdt dt @ rb"
    by (simp add: tfhd small_boxes b(1) comp_def)
  have len: "length rb = sum_list (map canonicalTrunSize ?runs)"
    unfolding b(1) b(2) [symmetric] by (simp add: length_concat comp_def)
  have sz: "getTrafSize fs n = 8 + length (fr_tfhd ?f @ writeTfdt dt @ rb)"
    by (simp add: getTrafSize_def len tfhd writeTfdt_def)
  have bs: "bs = mk_box boxTraf (fr_tfhd ?f @ writeTfdt dt @ rb)"
    unfolding w(3) sz by (rule small_boxes(3)) simp
  have "\<forall>(t, body) \<in> set ?bs. 8 + length body < 2 ^ 31"
  proof -
    have "8 + length b \<le> sum_list (map (\<lambda>b. 8 + length b) bodies)" if "b \<in> set bodies" for b
      using that by (intro member_le_sum_list) simp_all
    then have "8 + length b < 2 ^ 31" if "b \<in> set bodies" for b
      using that assms(3) b(2) by (fastforce simp: getTrafSize_def)
    then show ?thesis by auto
  qed
  note bw = boxes_written [OF this, of "put32 (of_nat (8 + length (fr_tfhd ?f @ writeTfdt dt @ rb))) @ put32 boxTraf"]
  have lh: "length (put32 (of_nat (8 + length (fr_tfhd ?f @ writeTfdt dt @ rb))) @ put32 boxTraf) = 8" by simp
  have hd: "(put32 (of_nat (8 + length (fr_tfhd ?f @ writeTfdt dt @ rb))) @ put32 boxTraf) @ fr_tfhd ?f @ writeTfdt dt @ rb = bs"
    unfolding bs mk_box_def by (simp only: append.assoc)
  have "boxes bs 8 = map (\<lambda>(t, body). (t, 8, mk_box t body)) ?bs"
    using bw unfolding body lh hd .
  then have "boxes bs 8 = (boxTfhd, 8, fr_tfhd ?f) # (boxTfdt, 8, writeTfdt dt)
      # map (\<lambda>b. (boxTrun, 8, mk_box boxTrun b)) bodies"
    by (simp add: tfhd small_boxes comp_def)
  with w(1) bs sz show ?thesis
    by (intro exI [of _ dt] exI [of _ bodies] exI conjI allI t0) simp_all
qed

lemma traf_roundtrip:
  assumes "writeTraf fs n ms hs off = Inr bs" and "parsed_ok (hd fs)" and "getTrafSize fs n < 2 ^ 31"
    and "list_all run_ok (concat (map fr_runs (take n fs)))"
    and "list_all (\<lambda>run. 0 < durations (rn_samples run)) (concat (map fr_runs (take n fs)))"
    and "durations (concat (map frag_samples (take n fs))) < 2 ^ 64"
    and "0 < n" and "fs \<noteq> []" and "track_of (hd fs) v a"
  shows "\<exists>dt body. addTfdtOffset (fr_decodeTime (hd fs)) (fr_timescale (hd fs)) off = Inr dt
    \<and> bs = mk_box boxTraf body \<and> length bs = getTrafSize fs n
    \<and> parseTraf bs 8 v a vh ah = Inr (joined (take n fs) ms hs dt)"
proof -
  let ?f = "hd fs" and ?runs = "concat (map fr_runs (take n fs))"
  let ?ss = "concat (map frag_samples (take n fs))"
  obtain dt bodies body where w: "addTfdtOffset (fr_decodeTime ?f) (fr_timescale ?f) off = Inr dt"
    "bs = mk_box boxTraf body" "length bs = getTrafSize fs n"
    "boxes bs 8 = (boxTfhd, 8, fr_tfhd ?f) # (boxTfdt, 8, writeTfdt dt)
        # map (\<lambda>b. (boxTrun, 8, mk_box boxTrun b)) bodies"
    and t: "\<forall>dd ds df hint. traf_runs (map (\<lambda>b. (boxTrun, 8, mk_box boxTrun b)) bodies) dd ds df hint 0 False []
        = Inr (of_nat (durations ?ss), False, map (\<lambda>run. read_back run (int ms + int hs + rn_outputOffset run)) ?runs)"
    using writeTraf_boxes [OF assms(1-6)] by (elim exE conjE) rule
  have f: "fr_trackID ?f \<noteq> 0" "fr_sampleDescriptionIndex ?f \<noteq> 0" "fr_timescale ?f \<noteq> 0" "fr_runs ?f \<noteq> []"
    "fr_tfhd ?f = buildCanonicalTfhd (fr_trackID ?f) (fr_sampleDescriptionIndex ?f)"
    "fr_startsWithSync ?f = rn_startsWithSync (hd (fr_runs ?f))"
    using assms(2) by (simp_all add: parsed_ok_def)
  have tk: "hd (take n fs) = ?f" and ne: "take n fs \<noteq> []" using assms(7,8) by (simp_all add: hd_take)
  obtain fs' where fs': "take n fs = ?f # fs'" using ne tk by (metis list.collapse)
  have runs: "?runs \<noteq> []" "hd ?runs = hd (fr_runs ?f)" using f(4) by (simp_all add: fs')
  have "0 < durations (rn_samples (hd ?runs))" using assms(5) runs by (cases ?runs) simp_all
  then have "0 < durations (run_samples ?runs)" using runs(1) by (cases ?runs) simp_all
  then have "0 < durations ?ss" by (simp add: run_samples_concat)
  then have nz: "(of_nat (durations ?ss) :: u64) \<noteq> 0"
    using unat_u64 [OF assms(6)] by (metis less_irrefl unat_0)
  have heads: "traf_heads (boxes bs 8) None None = Inr (Some \<lparr>th_trackID = fr_trackID ?f,
      th_sampleDescriptionIndex = fr_sampleDescriptionIndex ?f, th_hasSampleDescriptionIndex = True, th_defaultDuration = 0,
      th_defaultSize = 0, th_defaultFlags = 0, th_hasDefaultFlags = False\<rparr>, Some dt)"
    by (simp add: w(4) f(5) tfhd_roundtrip [OF f(1,2)] tfdt_roundtrip traf_heads_truns traf_tags)
  have tr: "traf_runs (boxes bs 8) dd ds df hint 0 False []
      = Inr (of_nat (durations ?ss), False, map (\<lambda>run. read_back run (int ms + int hs + rn_outputOffset run)) ?runs)" for dd ds df hint
    using t by (simp add: w(4) traf_tags)
  have sync: "rn_startsWithSync (hd (map (\<lambda>run. read_back run (int ms + int hs + rn_outputOffset run)) ?runs)) = fr_startsWithSync ?f"
    using runs f(6) by (simp add: hd_map read_back_def)
  have "parseTraf bs 8 v a vh ah = Inr (joined (take n fs) ms hs dt)"
    using assms(9) f(1-3) nz runs(1) sync
    by (simp add: parseTraf_def heads tr track_of_def Let_def joined_def tk f(5) del: map_concat split: if_splits)
  with w(1-3) show ?thesis by blast
qed

end
