(* ===== verification/Mp4Reader.thy ===== *)
theory Mp4Reader
  imports Mp4Write
begin

text \<open>
  The reader of \<^verbatim>\<open>src/server/gstreamer/mp4box.go\<close>: the multiplexer's output comes in chunks, the reader splits it
  into top-level boxes, queues the fragments of the two tracks and emits a segment as soon as one can be cut. A call
  that fails has an error and no state: after one the runner gives up and resets the reader before it uses it again, and looks at it
  only to choose between two messages. The calls of
  \<open>onInit\<close> and \<open>onSegment\<close> are recorded in the state; buffers are lists, without their capacity.
\<close>

unbundle bit_operations_syntax

subsection \<open>The state\<close>

datatype boxTarget = boxTargetNone | boxTargetInit | boxTargetMoof | boxTargetPayload | boxTargetStyp | boxTargetPrefix

record Segment =
  sg_Header :: "byte list"
  sg_Payloads :: "byte list list"
  sg_StartNS :: u64
  sg_EndNS :: u64
  sg_StartSeconds :: rat
  sg_EndSeconds :: rat

text \<open>
  \<open>rd_boxHeader\<close> holds the first \<open>boxHeaderLength\<close> bytes of the array \<open>boxHeader\<close>; the code never reads beyond them.
\<close>

record mp4BoxReader =
  rd_segmentSeconds :: rat
  rd_segmentDiff :: int
  rd_cueMode :: bool
  rd_init :: "byte list"
  rd_sourceMoof :: "byte list"
  rd_sourceStyp :: "byte list"
  rd_deferred :: "byte list"
  rd_video :: "mp4Fragment list"
  rd_audio :: "mp4Fragment list"
  rd_sourcePayload :: "byte list"
  rd_segmentPayloads :: "byte list list"
  rd_prefix :: "byte list"
  rd_prefixActive :: bool
  rd_pending :: "mp4Fragment option"
  rd_styp :: "byte list"
  rd_boxHeader :: "byte list"
  rd_boxHeaderRequired :: nat
  rd_currentBoxType :: u32
  rd_currentBoxRemaining :: u64
  rd_currentTarget :: boxTarget
  rd_initDone :: bool
  rd_moovCompleted :: bool
  rd_sourceMfraDone :: bool
  rd_sourceFinalMoovDone :: bool
  rd_sourcePayloadFromMoof :: int
  rd_currentPayloadStart :: int
  rd_videoTrack :: trackInfo
  rd_audioTrack :: trackInfo
  rd_videoSampleDurationHint :: u32
  rd_videoSampleDurationHintTimescale :: u32
  rd_audioSampleDurationHint :: u32
  rd_audioSampleDurationHintTimescale :: u32
  rd_tfdtOffsetSeconds :: rat
  rd_sequence :: u32
  rd_lastVideoEndTime :: u64
  rd_completedVideoSegments :: nat
  rd_hasTargetSegment :: bool
  rd_targetSegmentStartNS :: u64
  rd_targetSegmentEndNS :: u64
  rd_targetToleranceNS :: u64
  rd_inits :: "byte list list"
  rd_segments :: "Segment list"

text \<open>A new reader and its reset for another position; \<open>None\<close> is a float that is not finite.\<close>

definition Mp4BoxReader :: "rat option \<Rightarrow> int \<Rightarrow> bool \<Rightarrow> mp4BoxReader" where
  "Mp4BoxReader segmentSeconds segmentDiff cueMode =
     \<lparr>rd_segmentSeconds = (case segmentSeconds of None \<Rightarrow> 6 | Some s \<Rightarrow> if s \<le> 0 then 6 else s),
      rd_segmentDiff = max segmentDiff 0, rd_cueMode = cueMode,
      rd_init = [], rd_sourceMoof = [], rd_sourceStyp = [], rd_deferred = [], rd_video = [], rd_audio = [],
      rd_sourcePayload = [], rd_segmentPayloads = [], rd_prefix = [], rd_prefixActive = False, rd_pending = None,
      rd_styp = [], rd_boxHeader = [], rd_boxHeaderRequired = 8, rd_currentBoxType = 0, rd_currentBoxRemaining = 0,
      rd_currentTarget = boxTargetNone, rd_initDone = False, rd_moovCompleted = False, rd_sourceMfraDone = False,
      rd_sourceFinalMoovDone = False, rd_sourcePayloadFromMoof = 0, rd_currentPayloadStart = 0,
      rd_videoTrack = no_track, rd_audioTrack = no_track,
      rd_videoSampleDurationHint = 0, rd_videoSampleDurationHintTimescale = 0,
      rd_audioSampleDurationHint = 0, rd_audioSampleDurationHintTimescale = 0,
      rd_tfdtOffsetSeconds = 0, rd_sequence = 1, rd_lastVideoEndTime = 0, rd_completedVideoSegments = 0,
      rd_hasTargetSegment = False, rd_targetSegmentStartNS = 0, rd_targetSegmentEndNS = 0, rd_targetToleranceNS = 0,
      rd_inits = [], rd_segments = []\<rparr>"

definition resetPrefix :: "mp4BoxReader \<Rightarrow> mp4BoxReader" where
  "resetPrefix r = r\<lparr>rd_prefix := [], rd_prefixActive := False\<rparr>"

definition clearSource :: "mp4BoxReader \<Rightarrow> mp4BoxReader" where
  "clearSource r = r\<lparr>rd_pending := None, rd_sourcePayload := [], rd_sourcePayloadFromMoof := 0,
     rd_currentPayloadStart := 0, rd_sourceMoof := []\<rparr>"

definition clearFragments :: "mp4BoxReader \<Rightarrow> mp4BoxReader" where
  "clearFragments r = r\<lparr>rd_video := [], rd_audio := []\<rparr>"

definition resetBoxState :: "mp4BoxReader \<Rightarrow> mp4BoxReader" where
  "resetBoxState r = r\<lparr>rd_boxHeader := [], rd_boxHeaderRequired := 8, rd_currentBoxType := 0,
     rd_currentBoxRemaining := 0, rd_currentTarget := boxTargetNone\<rparr>"

definition SeekReset :: "mp4BoxReader \<Rightarrow> rat option \<Rightarrow> mp4BoxReader" where
  "SeekReset r seconds =
     resetBoxState (resetPrefix (clearFragments (clearSource (r\<lparr>
       rd_initDone := False, rd_moovCompleted := False, rd_sourceMfraDone := False, rd_sourceFinalMoovDone := False,
       rd_videoTrack := no_track, rd_audioTrack := no_track, rd_sequence := 1, rd_styp := [],
       rd_videoSampleDurationHint := 0, rd_videoSampleDurationHintTimescale := 0,
       rd_audioSampleDurationHint := 0, rd_audioSampleDurationHintTimescale := 0,
       rd_lastVideoEndTime := 0, rd_completedVideoSegments := 0,
       rd_hasTargetSegment := False, rd_targetSegmentStartNS := 0, rd_targetSegmentEndNS := 0, rd_targetToleranceNS := 0,
       rd_tfdtOffsetSeconds := (case seconds of None \<Rightarrow> 0 | Some s \<Rightarrow> if s > 0 then s else 0),
       rd_init := [], rd_sourceMoof := [], rd_sourceStyp := [], rd_deferred := [], rd_segmentPayloads := []\<rparr>))))"

definition SetTimelineOffsetNS :: "mp4BoxReader \<Rightarrow> u64 \<Rightarrow> mp4BoxReader" where
  "SetTimelineOffsetNS r offsetNS =
     (if offsetNS = - 1 then r\<lparr>rd_tfdtOffsetSeconds := 0\<rparr>
      else r\<lparr>rd_tfdtOffsetSeconds := fl (fl (of_nat (unat offsetNS)) / 1000000000)\<rparr>)"

definition SetTargetSegment :: "mp4BoxReader \<Rightarrow> u64 \<Rightarrow> u64 \<Rightarrow> u64 \<Rightarrow> mp4BoxReader res" where
  "SetTargetSegment r startNS endNS toleranceNS =
     (if \<not> rd_cueMode r then Inr r
      else if endNS \<le> startNS then Inl ''invalid cue segment range''
      else Inr (r\<lparr>rd_targetSegmentStartNS := startNS, rd_targetSegmentEndNS := endNS,
        rd_targetToleranceNS := max toleranceNS 1, rd_hasTargetSegment := True\<rparr>))"

subsection \<open>Choosing where a segment ends\<close>

text \<open>
  The loop of \<open>selectVideoCount\<close> over the queue, at index \<open>i\<close>: a segment ends before a fragment that starts with a
  sync sample.
\<close>

fun select_video :: "u64 \<Rightarrow> bool \<Rightarrow> mp4Fragment list \<Rightarrow> nat \<Rightarrow> u64 \<Rightarrow> nat \<Rightarrow> nat" where
  "select_video target takeFirstSyncBoundary (f # g # fs) i duration selectedCount =
     (let duration' = duration + fr_duration f
      in if \<not> takeFirstSyncBoundary
         then if duration' \<ge> target \<and> fr_startsWithSync g then i + 1
              else select_video target takeFirstSyncBoundary (g # fs) (i + 1) duration' selectedCount
         else if duration' \<le> target
         then if fr_startsWithSync g
              then if duration' = target then i + 1
                   else select_video target takeFirstSyncBoundary (g # fs) (i + 1) duration' (i + 1)
              else select_video target takeFirstSyncBoundary (g # fs) (i + 1) duration' selectedCount
         else if selectedCount > 0 then selectedCount
         else if fr_startsWithSync g then i + 1
         else select_video target takeFirstSyncBoundary (g # fs) (i + 1) duration' selectedCount)"
| "select_video target takeFirstSyncBoundary fs i duration selectedCount = 0"

text \<open>The loop of \<open>selectCueVideoCount\<close> over the queue behind its first fragment.\<close>

fun select_cue :: "u32 \<Rightarrow> u64 \<Rightarrow> u64 \<Rightarrow> int \<Rightarrow> mp4Fragment list \<Rightarrow> nat \<Rightarrow> nat res" where
  "select_cue timescale targetDuration tolerance firstPresentation [] i = Inr 0"
| "select_cue timescale targetDuration tolerance firstPresentation (boundary # fs) i =
     (if \<not> fr_startsWithSync boundary then select_cue timescale targetDuration tolerance firstPresentation fs (i + 1)
      else chain (firstPresentationTime boundary) (\<lambda>boundaryPresentation.
        if boundaryPresentation \<le> firstPresentation then Inl ''cue presentation timeline is not increasing''
        else chain (timelineNanoseconds (of_int (boundaryPresentation - firstPresentation)) timescale) (\<lambda>durationNS.
          if durationNS < targetDuration \<and> targetDuration - durationNS > tolerance
          then select_cue timescale targetDuration tolerance firstPresentation fs (i + 1)
          else Inr i)))"

definition selectCueVideoCount :: "mp4BoxReader \<Rightarrow> nat res" where
  "selectCueVideoCount r =
     (if \<not> rd_hasTargetSegment r \<or> length (rd_video r) < 2 then Inr 0
      else chain (firstPresentationTime (hd (rd_video r))) (\<lambda>firstPresentation.
        select_cue (tk_timescale (rd_videoTrack r)) (rd_targetSegmentEndNS r - rd_targetSegmentStartNS r)
          (rd_targetToleranceNS r) firstPresentation (tl (rd_video r)) 1))"

text \<open>Whether the segments so far are late by more than the allowed difference.\<close>

definition take_first_sync :: "mp4BoxReader \<Rightarrow> bool" where
  "take_first_sync r \<longleftrightarrow> rd_completedVideoSegments r > 0 \<and> rd_segmentDiff r > 0
     \<and> (let scale = ucast (tk_timescale (rd_videoTrack r)) :: u64;
            expectedEnd = of_nat (rd_completedVideoSegments r) * of_int \<lfloor>rd_segmentSeconds r\<rfloor> * scale;
            diff = of_int \<lfloor>fl (rd_segmentSeconds r + fl (of_int (rd_segmentDiff r)))\<rfloor> * scale
        in rd_lastVideoEndTime r > expectedEnd \<and> rd_lastVideoEndTime r - expectedEnd \<ge> diff)"

definition selectVideoCount :: "mp4BoxReader \<Rightarrow> nat res" where
  "selectVideoCount r =
     (if rd_video r = [] then Inr 0
      else if \<not> fr_startsWithSync (hd (rd_video r)) then Inl ''video segment starts with a non-sync sample''
      else if rd_cueMode r then selectCueVideoCount r
      else chain (toUnits (rd_segmentSeconds r) (tk_timescale (rd_videoTrack r))) (\<lambda>target.
        Inr (select_video target (take_first_sync r) (rd_video r) 0 0 0)))"

text \<open>
  The nested loop of \<open>findAudioSplitSampleCount\<close>: the number of samples counted, whether the end of the video is
  reached, and the time reached.
\<close>

fun audio_samples :: "u32 \<Rightarrow> u32 \<Rightarrow> u64 \<Rightarrow> mp4Sample list \<Rightarrow> u64 \<Rightarrow> nat \<Rightarrow> (nat \<times> bool \<times> u64) res" where
  "audio_samples videoScale scale videoEnd [] audioEnd sampleCount = Inr (sampleCount, False, audioEnd)"
| "audio_samples videoScale scale videoEnd (sample # samples) audioEnd sampleCount =
     (if - 1 - audioEnd < ucast (sm_duration sample) then Inl ''audio sample timeline overflow''
      else let audioEnd' = audioEnd + ucast (sm_duration sample)
           in if scaledGreaterOrEqual audioEnd' videoScale videoEnd scale then Inr (sampleCount + 1, True, audioEnd')
              else audio_samples videoScale scale videoEnd samples audioEnd' (sampleCount + 1))"

fun audio_runs :: "u32 \<Rightarrow> u32 \<Rightarrow> u64 \<Rightarrow> mp4Run list \<Rightarrow> u64 \<Rightarrow> nat \<Rightarrow> (nat \<times> bool \<times> u64) res" where
  "audio_runs videoScale scale videoEnd [] audioEnd sampleCount = Inr (sampleCount, False, audioEnd)"
| "audio_runs videoScale scale videoEnd (run # runs) audioEnd sampleCount =
     (if rn_samples run = [] then Inl ''audio trun has no parsed samples''
      else chain (audio_samples videoScale scale videoEnd (rn_samples run) audioEnd sampleCount) (\<lambda>(n, reached, audioEnd').
        if reached then Inr (n, True, audioEnd') else audio_runs videoScale scale videoEnd runs audioEnd' n))"

definition findAudioSplitSampleCount :: "u32 \<Rightarrow> mp4Fragment \<Rightarrow> u64 \<Rightarrow> (nat \<times> bool) res" where
  "findAudioSplitSampleCount videoScale fragment videoEnd =
     (if fr_timescale fragment = 0 \<or> videoScale = 0 then Inl ''audio/video timescale is zero''
      else chain (audio_runs videoScale (fr_timescale fragment) videoEnd (fr_runs fragment) (fr_decodeTime fragment) 0)
        (\<lambda>(sampleCount, reached, audioEnd).
          if reached then Inr (sampleCount, True)
          else if audioEnd \<noteq> endTime fragment then Inl ''audio sample durations do not match fragment duration''
          else Inr (sampleCount, False)))"

text \<open>The count of audio fragments that reach the end of the video, and the queue with the last of them split there.\<close>

fun select_audio :: "u32 \<Rightarrow> u64 \<Rightarrow> mp4Fragment list \<Rightarrow> (nat \<times> mp4Fragment list) res" where
  "select_audio videoScale videoEnd [] = Inr (0, [])"
| "select_audio videoScale videoEnd (f # fs) =
     chain (findAudioSplitSampleCount videoScale f videoEnd) (\<lambda>(splitSamples, reached).
       if \<not> reached
       then chain (select_audio videoScale videoEnd fs) (\<lambda>(n, fs'). Inr (if n = 0 then 0 else n + 1, f # fs'))
       else chain (fragmentSampleCount f) (\<lambda>totalSamples.
         if splitSamples = 0 \<or> splitSamples > totalSamples then Inl ''invalid audio split sample count''
         else if splitSamples < totalSamples
         then chain (splitFragmentAtSample f splitSamples) (\<lambda>(left, right). Inr (1, left # right # fs))
         else Inr (1, f # fs)))"

definition selectAudioCount :: "mp4BoxReader \<Rightarrow> u64 \<Rightarrow> (nat \<times> mp4BoxReader) res" where
  "selectAudioCount r videoEnd =
     chain (select_audio (tk_timescale (rd_videoTrack r)) videoEnd (rd_audio r)) (\<lambda>(n, audio).
       Inr (n, r\<lparr>rd_audio := audio\<rparr>))"

subsection \<open>Building a segment\<close>

definition check_track :: "mp4Fragment list \<Rightarrow> nat \<Rightarrow> unit res" where
  "check_track fragments cnt = (if cnt > 0 then validateTrack fragments cnt else Inr ())"

definition traf_size :: "mp4Fragment list \<Rightarrow> nat \<Rightarrow> nat" where
  "traf_size fragments cnt = (if cnt > 0 then getTrafSize fragments cnt else 0)"

definition traf_bytes :: "mp4Fragment list \<Rightarrow> nat \<Rightarrow> nat \<Rightarrow> nat \<Rightarrow> rat \<Rightarrow> byte list res" where
  "traf_bytes fragments cnt moofSize mdatHeaderSize tfdtOffsetSeconds =
     (if cnt > 0 then writeTraf fragments cnt moofSize mdatHeaderSize tfdtOffsetSeconds else Inr [])"

text \<open>
  The time range of a segment with the offset of the timeline. A float that is out of range has no specified
  value as a \<open>uint64\<close>; it is taken modulo \<open>2 ^ 64\<close>.
\<close>

definition segment_times :: "rat \<Rightarrow> mp4Fragment \<Rightarrow> mp4Fragment \<Rightarrow> (u64 \<times> u64) res" where
  "segment_times tfdtOffsetSeconds first lst =
     (if fr_timescale first = 0 then Inl ''segment first track has zero timescale''
      else if fr_timescale lst = 0 then Inl ''segment last track has zero timescale''
      else chain (timelineNanoseconds (fr_decodeTime first) (fr_timescale first)) (\<lambda>startNS.
        chain (timelineNanoseconds (endTime lst) (fr_timescale lst)) (\<lambda>endNS.
        let offsetNS = (if tfdtOffsetSeconds > 0 then of_int \<lfloor>fl (tfdtOffsetSeconds * 1000000000) + 1 / 2\<rfloor> else 0)
        in if - 1 - startNS < offsetNS \<or> - 1 - endNS < offsetNS then Inl ''segment timeline offset overflow''
           else Inr (startNS + offsetNS, endNS + offsetNS))))"

definition mdat_header_size :: "int \<Rightarrow> nat" where
  "mdat_header_size payloadLength = (if payloadLength + 8 > 2 ^ 32 - 1 then 16 else 8)"

text \<open>The bytes of the segment in front of its payload.\<close>

definition segment_header :: "mp4BoxReader \<Rightarrow> nat \<Rightarrow> byte list \<Rightarrow> byte list \<Rightarrow> int \<Rightarrow> byte list" where
  "segment_header r moofSize videoTraf audioTraf payloadLength =
     rd_styp r @ (if rd_prefixActive r \<and> rd_prefix r \<noteq> [] then rd_prefix r else [])
     @ writeHeader (of_nat moofSize) boxMoof @ writeMfhd (rd_sequence r) @ videoTraf @ audioTraf
     @ writeMdatHeader (nat payloadLength) (mdat_header_size payloadLength)"

definition seconds_of :: "u64 \<Rightarrow> rat" where
  "seconds_of ns = fl (fl (of_nat (unat ns)) / 1000000000)"

text \<open>The state after the segment has been passed on.\<close>

definition emitSegment :: "mp4BoxReader \<Rightarrow> Segment \<Rightarrow> nat \<Rightarrow> nat \<Rightarrow> u64 \<Rightarrow> mp4BoxReader" where
  "emitSegment r segment videoCount audioCount lastEnd =
     resetPrefix (r\<lparr>rd_sequence := rd_sequence r + 1, rd_segmentPayloads := sg_Payloads segment,
       rd_segments := rd_segments r @ [segment],
       rd_hasTargetSegment := (rd_hasTargetSegment r \<and> \<not> rd_cueMode r),
       rd_lastVideoEndTime := (if videoCount > 0 then lastEnd else rd_lastVideoEndTime r),
       rd_completedVideoSegments := (if videoCount > 0 then rd_completedVideoSegments r + 1 else rd_completedVideoSegments r),
       rd_video := removeFragments (rd_video r) videoCount, rd_audio := removeFragments (rd_audio r) audioCount\<rparr>)"

definition buildSegment :: "mp4BoxReader \<Rightarrow> nat \<Rightarrow> nat \<Rightarrow> bool \<Rightarrow> mp4BoxReader res" where
  "buildSegment r videoCount audioCount allowSingleTrack =
     (if videoCount > length (rd_video r) then Inl ''invalid video fragment count''
      else if audioCount > length (rd_audio r) then Inl ''invalid audio fragment count''
      else if videoCount = 0 \<and> audioCount = 0 then Inl ''segment contains no fragments''
      else if audioCount > 0 \<and> tk_id (rd_audioTrack r) = 0
      then Inl ''video-only source unexpectedly contains audio fragments''
      else if \<not> allowSingleTrack \<and> videoCount = 0 then Inl ''regular segment must contain video''
      else if \<not> allowSingleTrack \<and> tk_id (rd_audioTrack r) \<noteq> 0 \<and> audioCount = 0
      then Inl ''regular segment must contain audio for an audio/video source''
      else chain (check_track (rd_video r) videoCount) (\<lambda>_.
        chain (check_track (rd_audio r) audioCount) (\<lambda>_.
        let (video, videoLength) = assignOffsets (rd_video r) videoCount 0;
            (audio, payloadLength) = assignOffsets (rd_audio r) audioCount videoLength;
            moofSize = 8 + 16 + traf_size video videoCount + traf_size audio audioCount;
            headerSize = mdat_header_size payloadLength
        in if moofSize > 2 ^ 32 - 1 then Inl ''combined moof is too large''
           else chain (traf_bytes video videoCount moofSize headerSize (rd_tfdtOffsetSeconds r)) (\<lambda>videoTraf.
             chain (traf_bytes audio audioCount moofSize headerSize (rd_tfdtOffsetSeconds r)) (\<lambda>audioTraf.
             let first = (if videoCount > 0 then hd video else hd audio);
                 lst = (if videoCount > 0 then video ! (videoCount - 1) else audio ! (audioCount - 1))
             in chain (segment_times (rd_tfdtOffsetSeconds r) first lst) (\<lambda>(startNS, endNS).
             chain (collectPayloadRangesInto (rd_sourcePayload r) video videoCount audio audioCount) (\<lambda>payloads.
             Inr (emitSegment (r\<lparr>rd_video := video, rd_audio := audio\<rparr>)
               \<lparr>sg_Header = segment_header r moofSize videoTraf audioTraf payloadLength, sg_Payloads = payloads,
                sg_StartNS = startNS, sg_EndNS = endNS,
                sg_StartSeconds = seconds_of startNS, sg_EndSeconds = seconds_of endNS\<rparr>
               videoCount audioCount (endTime lst)))))))))"

definition tryBuildSegment :: "mp4BoxReader \<Rightarrow> (bool \<times> mp4BoxReader) res" where
  "tryBuildSegment r =
     chain (selectVideoCount r) (\<lambda>videoCount.
       if videoCount = 0 then Inr (False, r)
       else if tk_id (rd_audioTrack r) \<noteq> 0
       then chain (selectAudioCount r (endTime (rd_video r ! (videoCount - 1)))) (\<lambda>(audioCount, r').
         if audioCount = 0 then Inr (False, r')
         else chain (buildSegment r' videoCount audioCount False) (\<lambda>r''. Inr (True, r'')))
       else chain (buildSegment r videoCount 0 False) (\<lambda>r'. Inr (True, r')))"

subsection \<open>The boxes of the source\<close>

definition writeCurrentBoxData :: "mp4BoxReader \<Rightarrow> byte list \<Rightarrow> mp4BoxReader" where
  "writeCurrentBoxData r dat =
     (if dat = [] then r
      else case rd_currentTarget r of
        boxTargetInit \<Rightarrow> r\<lparr>rd_init := rd_init r @ dat\<rparr>
      | boxTargetMoof \<Rightarrow> r\<lparr>rd_sourceMoof := rd_sourceMoof r @ dat\<rparr>
      | boxTargetPayload \<Rightarrow> r\<lparr>rd_sourcePayload := rd_sourcePayload r @ dat\<rparr>
      | boxTargetStyp \<Rightarrow> r\<lparr>rd_sourceStyp := rd_sourceStyp r @ dat\<rparr>
      | boxTargetPrefix \<Rightarrow> r\<lparr>rd_prefix := rd_prefix r @ dat\<rparr>
      | boxTargetNone \<Rightarrow> r)"

definition completeInit :: "mp4BoxReader \<Rightarrow> mp4BoxReader res" where
  "completeInit r =
     (if \<not> rd_moovCompleted r \<or> rd_init r = [] then Inl ''incomplete mp4 initialization''
      else chain (parseInitTracks (rd_init r)) (\<lambda>(video, audio).
        Inr (r\<lparr>rd_videoTrack := video, rd_audioTrack := audio, rd_initDone := True,
          rd_inits := rd_inits r @ [rd_init r]\<rparr>)))"

text \<open>
  The duration of the last sample of a fragment may be missing in the source. It is known when the next fragment
  of the track comes: \<open>resolve_duration\<close> gives it, and the fragment with it.
\<close>

definition last_inferred :: "mp4Run list \<Rightarrow> (mp4Run list \<times> mp4Run \<times> mp4Run list) option" where
  "last_inferred runs =
     (let later = takeWhile (\<lambda>run. \<not> rn_hasInferredDuration run) (rev runs)
      in case dropWhile (\<lambda>run. \<not> rn_hasInferredDuration run) (rev runs) of
           [] \<Rightarrow> None
         | run # earlier \<Rightarrow> Some (rev earlier, run, rev later))"

definition resolve_duration :: "mp4Fragment \<Rightarrow> mp4Fragment \<Rightarrow> (u64 \<times> mp4Fragment) res" where
  "resolve_duration previous current =
     (case last_inferred (fr_runs previous) of
        None \<Rightarrow> Inl ''inferred sample duration marker is missing''
      | Some (earlier, run, later) \<Rightarrow>
          if rn_samples run = [] then Inl ''inferred sample duration marker is missing''
          else let sample = last (rn_samples run); oldDuration = ucast (sm_duration sample);
                   sampleStart = fr_decodeTime previous + fr_duration previous - oldDuration;
                   exactDuration = fr_decodeTime current - sampleStart
               in if fr_duration previous < oldDuration then Inl ''invalid inferred sample duration''
                  else if fr_decodeTime current < sampleStart then Inl ''inferred sample moves decode time backwards''
                  else if exactDuration > 2 ^ 32 - 1 then Inl ''inferred sample duration exceeds uint32''
                  else let run' = run\<lparr>rn_samples := butlast (rn_samples run) @ [sample\<lparr>sm_duration := ucast exactDuration\<rparr>],
                             rn_duration := rn_duration run - oldDuration + exactDuration\<rparr>
                       in Inr (exactDuration, previous\<lparr>
                            fr_runs := map (\<lambda>run. run\<lparr>rn_hasInferredDuration := False\<rparr>) (earlier @ [run'] @ later),
                            fr_duration := fr_duration previous - oldDuration + exactDuration,
                            fr_hasInferredDuration := False\<rparr>))"

definition set_hint :: "bool \<Rightarrow> u32 \<Rightarrow> u32 \<Rightarrow> mp4BoxReader \<Rightarrow> mp4BoxReader" where
  "set_hint isVideo duration timescale r =
     (if isVideo then r\<lparr>rd_videoSampleDurationHint := duration, rd_videoSampleDurationHintTimescale := timescale\<rparr>
      else r\<lparr>rd_audioSampleDurationHint := duration, rd_audioSampleDurationHintTimescale := timescale\<rparr>)"

definition resolvePreviousInferredDuration :: "mp4BoxReader \<Rightarrow> mp4Fragment \<Rightarrow> mp4BoxReader res" where
  "resolvePreviousInferredDuration r current =
     (let isVideo = (fr_trackID current = tk_id (rd_videoTrack r));
          fragments = (if isVideo then rd_video r
            else if fr_trackID current = tk_id (rd_audioTrack r) then rd_audio r else [])
      in if fragments = [] \<or> \<not> fr_hasInferredDuration (last fragments) then Inr r
         else chain (resolve_duration (last fragments) current) (\<lambda>(exactDuration, previous).
           let fragments' = butlast fragments @ [previous];
               r' = (if isVideo then r\<lparr>rd_video := fragments'\<rparr> else r\<lparr>rd_audio := fragments'\<rparr>)
           in Inr (if exactDuration \<noteq> 0 then set_hint isVideo (ucast exactDuration) (fr_timescale current) r' else r')))"

text \<open>The hints for a moof, and what it leaves as a hint for the next one.\<close>

definition video_hint :: "mp4BoxReader \<Rightarrow> u32" where
  "video_hint r = (if rd_videoSampleDurationHintTimescale r = tk_timescale (rd_videoTrack r)
     then rd_videoSampleDurationHint r else 0)"

definition audio_hint :: "mp4BoxReader \<Rightarrow> u32" where
  "audio_hint r = (if rd_audioSampleDurationHintTimescale r = tk_timescale (rd_audioTrack r)
     then rd_audioSampleDurationHint r else 0)"

definition learn_hint :: "mp4BoxReader \<Rightarrow> mp4Fragment \<Rightarrow> mp4BoxReader" where
  "learn_hint r fragment =
     (let duration = lastSampleDuration fragment
      in if fr_hasInferredDuration fragment \<or> duration = 0 then r
         else if fr_trackID fragment = tk_id (rd_videoTrack r) then set_hint True duration (fr_timescale fragment) r
         else if fr_trackID fragment = tk_id (rd_audioTrack r) then set_hint False duration (fr_timescale fragment) r
         else r)"

definition completeMoof :: "mp4BoxReader \<Rightarrow> mp4BoxReader res" where
  "completeMoof r =
     chain (parseSourceMoof (rd_sourceMoof r) (rd_videoTrack r) (rd_audioTrack r) (video_hint r) (audio_hint r)) (\<lambda>fragment.
       chain (resolvePreviousInferredDuration r fragment) (\<lambda>r'.
       Inr ((learn_hint r' fragment)\<lparr>rd_pending := Some fragment,
         rd_sourcePayloadFromMoof := int (length (rd_sourceMoof r))\<rparr>)))"

definition completeMdat :: "mp4BoxReader \<Rightarrow> mp4BoxReader res" where
  "completeMdat r =
     (case rd_pending r of
        None \<Rightarrow> Inl ''completed mdat has no source moof''
      | Some pending \<Rightarrow>
          chain (attachPayload pending (rd_currentPayloadStart r)
              (int (length (rd_sourcePayload r)) - rd_currentPayloadStart r) (rd_sourcePayloadFromMoof r)) (\<lambda>fragment.
            chain (if fr_trackID fragment = tk_id (rd_videoTrack r) then Inr (r\<lparr>rd_video := rd_video r @ [fragment]\<rparr>)
                   else if tk_id (rd_audioTrack r) \<noteq> 0 \<and> fr_trackID fragment = tk_id (rd_audioTrack r)
                   then Inr (r\<lparr>rd_audio := rd_audio r @ [fragment]\<rparr>)
                   else Inl ''unsupported track_ID'') (\<lambda>r'.
            Inr (r'\<lparr>rd_pending := None, rd_sourcePayloadFromMoof := 0, rd_currentPayloadStart := 0,
              rd_sourceMoof := []\<rparr>))))"

definition completeBox :: "mp4BoxReader \<Rightarrow> (bool \<times> mp4BoxReader) res" where
  "completeBox r =
     (let t = rd_currentBoxType r
      in if t = boxStyp
         then Inr (False, r\<lparr>rd_styp := (if rd_styp r = [] then rd_sourceStyp r else rd_styp r), rd_sourceStyp := []\<rparr>)
         else if t = boxMfra then Inr (False, r\<lparr>rd_sourceMfraDone := True\<rparr>)
         else if t = boxMoov
         then if rd_initDone r
              then if \<not> rd_sourceMfraDone r \<or> rd_sourceFinalMoovDone r
                   then Inl ''unexpected moov after mp4 initialization''
                   else Inr (False, r\<lparr>rd_sourceFinalMoovDone := True\<rparr>)
              else Inr (False, r\<lparr>rd_moovCompleted := True\<rparr>)
         else if t = boxMoof then chain (completeMoof r) (\<lambda>r'. Inr (False, r'))
         else if t = boxMdat then chain (completeMdat r) tryBuildSegment
         else Inr (False, r))"

text \<open>
  A box begins: its header is complete. A box that the reader keeps starts with its header in the buffer for it.
\<close>

definition beginMedia :: "mp4BoxReader \<Rightarrow> u64 \<Rightarrow> nat \<Rightarrow> mp4BoxReader res" where
  "beginMedia r sz headerSize =
     (let t = rd_currentBoxType r; hdr = take headerSize (rd_boxHeader r);
          skipped = (if rd_pending r \<noteq> None then wrap64 (rd_sourcePayloadFromMoof r + sint sz) else rd_sourcePayloadFromMoof r)
      in if rd_sourceFinalMoovDone r then Inl ''unexpected top-level mp4 box after terminal moov''
         else if rd_sourceMfraDone r \<and> t \<noteq> boxMoov then Inl ''only the rewritten terminal moov is allowed after mfra''
         else if t = boxMoof
         then if rd_pending r \<noteq> None then Inl ''a new moof appeared before the previous mdat''
              else Inr (writeCurrentBoxData (r\<lparr>rd_sourceMoof := [], rd_sourcePayloadFromMoof := 0,
                rd_currentTarget := boxTargetMoof\<rparr>) hdr)
         else if t = boxMdat
         then if rd_pending r = None then Inl ''mdat does not follow a supported moof''
              else Inr (r\<lparr>rd_currentPayloadStart := int (length (rd_sourcePayload r)),
                rd_sourcePayloadFromMoof := wrap64 (rd_sourcePayloadFromMoof r + int headerSize),
                rd_currentTarget := boxTargetPayload\<rparr>)
         else if t = boxSidx then Inr (r\<lparr>rd_sourcePayloadFromMoof := skipped\<rparr>)
         else if t = boxStyp
         then if rd_pending r \<noteq> None then Inl ''styp cannot appear between moof and mdat''
              else Inr (writeCurrentBoxData (r\<lparr>rd_sourceStyp := [], rd_currentTarget := boxTargetStyp\<rparr>) hdr)
         else if t = boxEmsg \<or> t = boxFree \<or> t = boxPrft
         then Inr (writeCurrentBoxData (r\<lparr>rd_sourcePayloadFromMoof := skipped, rd_prefixActive := True,
                rd_currentTarget := boxTargetPrefix\<rparr>) hdr)
         else if t = boxMfra
         then if rd_pending r \<noteq> None then Inl ''mfra cannot appear between moof and mdat''
              else if rd_sourceMfraDone r then Inl ''duplicate terminal mfra'' else Inr r
         else if t = boxMoov
         then if \<not> rd_sourceMfraDone r then Inl ''unexpected moov after mp4 initialization''
              else if rd_sourceFinalMoovDone r then Inl ''duplicate terminal moov''
              else if rd_pending r \<noteq> None then Inl ''final moov cannot appear between moof and mdat'' else Inr r
         else Inl ''unsupported top-level mp4 box after init'')"

definition beginBox :: "mp4BoxReader \<Rightarrow> u64 \<Rightarrow> nat \<Rightarrow> mp4BoxReader res" where
  "beginBox r sz headerSize =
     (let t = rd_currentBoxType r
      in if sz < of_nat headerSize then Inl ''invalid mp4 box size''
         else if (t = boxMoof \<or> t = boxMdat) \<and> sz > 2 ^ 31 - 1 then Inl ''moof/mdat is too large''
         else let r' = r\<lparr>rd_currentBoxRemaining := sz - of_nat headerSize, rd_currentTarget := boxTargetNone\<rparr>
              in chain (if \<not> rd_initDone r' \<and> (t = boxStyp \<or> t = boxMoof) then completeInit r' else Inr r') (\<lambda>r''.
                if rd_initDone r'' then beginMedia r'' sz headerSize
                else if t = boxMdat then Inl ''mdat appeared before init was completed''
                else if t = boxMfra then Inl ''mfra appeared before init was completed''
                else Inr (writeCurrentBoxData (r''\<lparr>rd_currentTarget := boxTargetInit\<rparr>) (take headerSize (rd_boxHeader r'')))))"

subsection \<open>The stream\<close>

definition finish_box :: "mp4BoxReader \<Rightarrow> (bool \<times> mp4BoxReader) res" where
  "finish_box r = chain (completeBox r) (\<lambda>(completed, r'). Inr (completed, resetBoxState r'))"

text \<open>The header is complete, or it turns out to be a long one; a box without a body ends at once.\<close>

definition header_read :: "mp4BoxReader \<Rightarrow> (bool \<times> mp4BoxReader) res" where
  "header_read r =
     (if rd_boxHeaderRequired r = 8
      then let size32 = Uint32 (rd_boxHeader r); r' = r\<lparr>rd_currentBoxType := Uint32 (drop 4 (rd_boxHeader r))\<rparr>
           in if size32 = 1 then Inr (False, r'\<lparr>rd_boxHeaderRequired := 16\<rparr>)
              else if size32 = 0 then Inl ''top-level mp4 box size=0 is not supported''
              else chain (beginBox r' (ucast size32) 8) (\<lambda>r''.
                if rd_currentBoxRemaining r'' = 0 then finish_box r'' else Inr (False, r''))
      else chain (beginBox r (Uint64 (drop 8 (rd_boxHeader r))) 16) (\<lambda>r''.
        if rd_currentBoxRemaining r'' = 0 then finish_box r'' else Inr (False, r'')))"

text \<open>
  The loop over the bytes of a chunk, of which \<open>dat\<close> are left and \<open>position\<close> are processed. It stops behind a
  box that completes a segment.
\<close>

function processBytes :: "mp4BoxReader \<Rightarrow> byte list \<Rightarrow> nat \<Rightarrow> (nat \<times> bool \<times> mp4BoxReader) res" where
  "processBytes r dat position =
     (if dat = [] then Inr (position, False, r)
      else if length (rd_boxHeader r) < rd_boxHeaderRequired r
      then let copyLen = min (rd_boxHeaderRequired r - length (rd_boxHeader r)) (length dat);
               r' = r\<lparr>rd_boxHeader := rd_boxHeader r @ take copyLen dat\<rparr>
           in if length (rd_boxHeader r') < rd_boxHeaderRequired r' then Inr (position + copyLen, False, r')
              else chain (header_read r') (\<lambda>(completed, r'').
                if completed then Inr (position + copyLen, True, r'')
                else processBytes r'' (drop copyLen dat) (position + copyLen))
      else let bodySize = min (length dat) (unat (rd_currentBoxRemaining r))
           in if bodySize = 0 then Inr (position, False, r)
              else let r' = (writeCurrentBoxData r (take bodySize dat))
                         \<lparr>rd_currentBoxRemaining := rd_currentBoxRemaining r - of_nat bodySize\<rparr>
                   in chain (if rd_currentBoxRemaining r' = 0 then finish_box r' else Inr (False, r')) (\<lambda>(completed, r'').
                     if completed then Inr (position + bodySize, True, r'')
                     else processBytes r'' (drop bodySize dat) (position + bodySize)))"
  by pat_completeness auto
termination
  by (relation "measure (\<lambda>(r, dat, position). length dat)") (auto simp: Let_def)

declare processBytes.simps [simp del]

definition keepDeferred :: "mp4BoxReader \<Rightarrow> nat \<Rightarrow> mp4BoxReader" where
  "keepDeferred r consumed = r\<lparr>rd_deferred := drop consumed (rd_deferred r)\<rparr>"

definition TryProcessDeferred :: "mp4BoxReader \<Rightarrow> (bool \<times> mp4BoxReader) res" where
  "TryProcessDeferred r =
     chain (tryBuildSegment r) (\<lambda>(completed, r').
       if completed then Inr (True, r')
       else if rd_deferred r' = [] then Inr (False, r')
       else chain (processBytes r' (rd_deferred r') 0) (\<lambda>(consumed, completed, r'').
         if completed then Inr (True, keepDeferred r'' consumed)
         else if consumed \<noteq> length (rd_deferred r') then Inl ''mp4 parser did not consume the deferred bytes''
         else Inr (False, r''\<lparr>rd_deferred := []\<rparr>)))"

definition Push :: "mp4BoxReader \<Rightarrow> byte list \<Rightarrow> mp4BoxReader res" where
  "Push r dat =
     (if dat = [] then Inr r
      else chain (TryProcessDeferred r) (\<lambda>(completed, r').
        if completed then Inr (r'\<lparr>rd_deferred := rd_deferred r' @ dat\<rparr>)
        else chain (processBytes r' dat 0) (\<lambda>(consumed, segmentCompleted, r'').
          if \<not> segmentCompleted then Inr r''
          else if consumed < length dat then Inr (r''\<lparr>rd_deferred := rd_deferred r'' @ drop consumed dat\<rparr>)
          else Inr r'')))"

definition TryBuildEndOfStreamRemainder :: "mp4BoxReader \<Rightarrow> (bool \<times> mp4BoxReader) res" where
  "TryBuildEndOfStreamRemainder r =
     (if rd_cueMode r \<and> \<not> rd_hasTargetSegment r then Inr (False, r)
      else let videoCount = length (rd_video r); audioCount = length (rd_audio r)
      in if videoCount = 0 \<and> audioCount = 0 then Inr (False, r)
      else if videoCount > 0 \<and> \<not> fr_startsWithSync (hd (rd_video r)) then Inr (False, r)
      else chain (if videoCount > 0 \<and> audioCount > 0
             then chain (selectAudioCount r (endTime (last (rd_video r)))) (\<lambda>(selected, r').
               Inr (if selected > 0 then selected else audioCount, r'))
             else Inr (audioCount, r)) (\<lambda>(audioCount', r').
        chain (buildSegment r' videoCount audioCount' True) (\<lambda>r''.
        Inr (True, if videoCount > 0 \<and> rd_video r'' = [] \<and> rd_audio r'' \<noteq> [] then r''\<lparr>rd_audio := []\<rparr> else r''))))"

datatype eos_error =
    IncompleteHeader nat nat
  | IncompleteBox u32 u64
  | MoofWithoutMdat u32
  | UncommittedPayload nat
  | UncommittedMoof nat
  | UnprocessedDeferred nat

definition EndOfStreamError :: "mp4BoxReader \<Rightarrow> eos_error option" where
  "EndOfStreamError r =
     (if rd_boxHeader r \<noteq> [] then Some (IncompleteHeader (length (rd_boxHeader r)) (rd_boxHeaderRequired r))
      else if rd_currentBoxRemaining r \<noteq> 0 then Some (IncompleteBox (rd_currentBoxType r) (rd_currentBoxRemaining r))
      else case rd_pending r of
        Some pending \<Rightarrow> Some (MoofWithoutMdat (fr_trackID pending))
      | None \<Rightarrow>
          if rd_sourcePayload r \<noteq> [] then Some (UncommittedPayload (length (rd_sourcePayload r)))
          else if rd_sourceMoof r \<noteq> [] then Some (UncommittedMoof (length (rd_sourceMoof r)))
          else if rd_deferred r \<noteq> [] then Some (UnprocessedDeferred (length (rd_deferred r)))
          else None)"

subsection \<open>Releasing payloads\<close>

definition minPayloadStart :: "int \<Rightarrow> int \<Rightarrow> int" where
  "minPayloadStart current v = (if current < 0 \<or> v < current then v else current)"

fun minFragmentPayloadStart :: "int \<Rightarrow> mp4Fragment list \<Rightarrow> int" where
  "minFragmentPayloadStart current [] = current"
| "minFragmentPayloadStart current (f # fs) =
     minFragmentPayloadStart (if fr_payloadLen f \<le> 0 then current else minPayloadStart current (fr_payloadStart f)) fs"

definition minQueuedPayloadStart :: "mp4BoxReader \<Rightarrow> int" where
  "minQueuedPayloadStart r =
     (let m = minFragmentPayloadStart (minFragmentPayloadStart (- 1) (rd_video r)) (rd_audio r)
      in case rd_pending r of
           Some pending \<Rightarrow> if fr_payloadLen pending > 0 then minPayloadStart m (fr_payloadStart pending) else m
         | None \<Rightarrow> m)"

definition shift_start :: "int \<Rightarrow> mp4Fragment \<Rightarrow> mp4Fragment" where
  "shift_start delta f = (if fr_payloadLen f > 0 then f\<lparr>fr_payloadStart := fr_payloadStart f - delta\<rparr> else f)"

definition shiftFragmentPayloadStarts :: "mp4Fragment list \<Rightarrow> int \<Rightarrow> mp4Fragment list" where
  "shiftFragmentPayloadStarts fragments delta = map (shift_start delta) fragments"

definition ReclaimPayloads :: "mp4BoxReader \<Rightarrow> mp4BoxReader" where
  "ReclaimPayloads r =
     (if rd_sourcePayload r = [] then r
      else let minStart = minQueuedPayloadStart r
           in if minStart < 0 then r\<lparr>rd_sourcePayload := [], rd_currentPayloadStart := 0\<rparr>
              else if minStart = 0 then r
              else r\<lparr>rd_sourcePayload := drop (nat minStart) (rd_sourcePayload r),
                rd_video := shiftFragmentPayloadStarts (rd_video r) minStart,
                rd_audio := shiftFragmentPayloadStarts (rd_audio r) minStart,
                rd_pending := map_option (shift_start minStart) (rd_pending r),
                rd_currentPayloadStart :=
                  (if rd_currentPayloadStart r \<ge> minStart then rd_currentPayloadStart r - minStart else 0)\<rparr>)"

definition ReleaseSegment :: "mp4BoxReader \<Rightarrow> mp4BoxReader" where
  "ReleaseSegment r = ReclaimPayloads (r\<lparr>rd_segmentPayloads := []\<rparr>)"

end
