(* ===== verification/Mp4Segment.thy ===== *)
theory Mp4Segment
  imports Mp4Reader
begin

text \<open>
  What an emitted segment contains. A reference player reads the bytes of a segment as a client does, through the
  boxes and the data offsets in them. The lemmas show that it finds the samples of the fragments
  the segment was built from, each with the bytes it had in the source.
\<close>

subsection \<open>A reference player\<close>

definition run_content :: "byte list \<Rightarrow> mp4Run \<Rightarrow> (mp4Sample \<times> byte list) list" where
  "run_content media run = cut (rn_samples run) (drop (nat (rn_sourceDataOffset run)) media)"

fun play_trafs :: "trackInfo \<Rightarrow> trackInfo \<Rightarrow> byte list \<Rightarrow> (u32 \<times> nat \<times> byte list) list
    \<Rightarrow> (u32 \<times> u64 \<times> (mp4Sample \<times> byte list) list) list res" where
  "play_trafs v a media [] = Inr []"
| "play_trafs v a media ((t, h, box) # bs) =
     (if t \<noteq> boxTraf then play_trafs v a media bs
      else chain (parseTraf box h v a 0 0) (\<lambda>f. chain (play_trafs v a media bs) (\<lambda>ts.
        Inr ((fr_trackID f, fr_decodeTime f, concat (map (run_content media) (fr_runs f))) # ts))))"

text \<open>\<open>media\<close> are the bytes from the \<open>moof\<close> on; data offsets count from there.\<close>

definition play :: "trackInfo \<Rightarrow> trackInfo \<Rightarrow> byte list \<Rightarrow> (u32 \<times> u64 \<times> (mp4Sample \<times> byte list) list) list res" where
  "play v a media =
     (case tryReadBox media 0 of
        None \<Rightarrow> Inl ''no moof''
      | Some (t, h, moof, pos) \<Rightarrow> if t \<noteq> boxMoof then Inl ''no moof'' else play_trafs v a media (boxes moof h))"

subsection \<open>Where the samples are\<close>

lemma laid_content:
  assumes "laid n runs e" and "0 \<le> n" and "0 \<le> B"
  shows "concat (map (\<lambda>run. cut (rn_samples run) (drop (nat (B + rn_payloadOffset run)) media)) runs)
    = cut (run_samples runs) (drop (nat (B + n)) media)"
  using assms
proof (induction n runs e rule: laid.induct)
  case (2 n run runs e)
  have "concat (map (\<lambda>run. cut (rn_samples run) (drop (nat (B + rn_payloadOffset run)) media)) runs)
      = cut (run_samples runs) (drop (nat (B + (n + int (sizes (rn_samples run))))) media)"
    using 2 by (intro "2.IH") simp_all
  moreover have "nat (B + (n + int (sizes (rn_samples run)))) = sizes (rn_samples run) + nat (B + n)" using 2 by simp
  ultimately show ?case using 2 by (simp add: cut_append)
qed simp

lemma frag_content_at:
  assumes "frag_ok storage f" and "length pre = nat B" and "0 \<le> B"
  shows "concat (map (\<lambda>run. cut (rn_samples run) (drop (nat (B + rn_payloadOffset run)) (pre @ frag_bytes storage f @ post)))
      (fr_runs f)) = frag_content storage f"
proof -
  have l: "laid 0 (fr_runs f) (fr_payloadLen f)" using assms(1) by (simp add: frag_ok_def)
  have "cut (frag_samples f) (drop (nat B) (pre @ frag_bytes storage f @ post)) = frag_content storage f"
    using assms length_frag_bytes [OF assms(1)] by (simp add: frag_content_def cut_append_bytes)
  then show ?thesis
    using laid_content [OF l order.refl assms(3), of "pre @ frag_bytes storage f @ post"]
    by (simp only: frag_samples_def add_0_right)
qed

definition queue_bytes :: "byte list \<Rightarrow> mp4Fragment list \<Rightarrow> byte list" where
  "queue_bytes storage fs = concat (map (frag_bytes storage) fs)"

definition queue_content :: "byte list \<Rightarrow> mp4Fragment list \<Rightarrow> (mp4Sample \<times> byte list) list" where
  "queue_content storage fs = concat (map (frag_content storage) fs)"

lemma queue_simps [simp]:
  "queue_bytes storage [] = []" "queue_bytes storage (f # fs) = frag_bytes storage f @ queue_bytes storage fs"
  "queue_bytes storage (fs @ fs') = queue_bytes storage fs @ queue_bytes storage fs'"
  "queue_content storage [] = []" "queue_content storage (f # fs) = frag_content storage f @ queue_content storage fs"
  "queue_content storage (fs @ fs') = queue_content storage fs @ queue_content storage fs'"
  by (simp_all add: queue_bytes_def queue_content_def)

text \<open>What \<open>assignOffsets\<close> changes.\<close>

definition same_frag :: "mp4Fragment \<Rightarrow> mp4Fragment \<Rightarrow> bool" where
  "same_frag f g \<longleftrightarrow> (\<exists>h. g = f\<lparr>fr_runs := map (\<lambda>run. run\<lparr>rn_outputOffset := h run\<rparr>) (fr_runs f)\<rparr>)"

lemma assignOffsets_length:
  assumes "assignOffsets fs n b = (fs', e)"
  shows "length fs' = length fs" and "drop n fs' = drop n fs" and "list_all2 same_frag (take n fs) (take n fs')"
proof -
  have "length fs' = length fs \<and> drop n fs' = drop n fs \<and> list_all2 same_frag (take n fs) (take n fs')"
    using assms
  proof (induction fs n b arbitrary: fs' e rule: assignOffsets.induct)
    case (2 f fs n b)
    then show ?case
      by (cases n) (auto simp: same_frag_def split: prod.splits)
  qed simp
  then show "length fs' = length fs" "drop n fs' = drop n fs" "list_all2 same_frag (take n fs) (take n fs')" by simp_all
qed

lemma assignOffsets_end:
  assumes "assignOffsets fs n b = (fs', e)" and "list_all (frag_ok storage) (take n fs)"
  shows "e = b + int (length (queue_bytes storage (take n fs)))"
  using assms
proof (induction fs n b arbitrary: fs' e rule: assignOffsets.induct)
  case (2 f fs n b)
  then show ?case
    by (cases n) (auto simp: length_frag_bytes frag_ok_len split: prod.splits)
qed simp

lemma assignOffsets_content:
  assumes "assignOffsets fs n b = (fs', e)" and "list_all (frag_ok storage) (take n fs)"
    and "0 \<le> b" and "0 \<le> B" and "length pre = nat (B + b)"
  shows "concat (map (\<lambda>run. cut (rn_samples run) (drop (nat (B + rn_outputOffset run))
      (pre @ queue_bytes storage (take n fs) @ post))) (concat (map fr_runs (take n fs'))))
    = queue_content storage (take n fs)"
  using assms
proof (induction fs arbitrary: n b fs' e pre)
  case (Cons f fs)
  show ?case
  proof (cases n)
    case 0
    then show ?thesis by simp
  next
    case (Suc m)
    obtain gs e' where g: "assignOffsets fs m (b + fr_payloadLen f) = (gs, e')" by fastforce
    have f: "frag_ok storage f" "list_all (frag_ok storage) (take m fs)" using Cons.prems Suc by simp_all
    have fs': "fs' = f\<lparr>fr_runs := map (\<lambda>run. run\<lparr>rn_outputOffset := b + rn_payloadOffset run\<rparr>) (fr_runs f)\<rparr> # gs"
      using Cons.prems Suc g by simp
    let ?media = "pre @ frag_bytes storage f @ queue_bytes storage (take m fs) @ post"
    have len: "length (pre @ frag_bytes storage f) = nat (B + (b + fr_payloadLen f))"
      using Cons.prems length_frag_bytes [OF f(1)] frag_ok_len [OF f(1)] by simp
    have "concat (map (\<lambda>run. cut (rn_samples run) (drop (nat (B + rn_outputOffset run))
        ((pre @ frag_bytes storage f) @ queue_bytes storage (take m fs) @ post))) (concat (map fr_runs (take m gs))))
      = queue_content storage (take m fs)"
      using Suc g f(2) len frag_ok_len [OF f(1)] Cons.prems(3,4)
      by (intro Cons.IH [OF g]) simp_all
    moreover have "concat (map (\<lambda>run. cut (rn_samples run) (drop (nat (B + b + rn_payloadOffset run)) ?media)) (fr_runs f))
        = frag_content storage f"
      using Cons.prems f by (intro frag_content_at) simp_all
    ultimately show ?thesis using Suc fs' by (simp add: comp_def add.assoc)
  qed
qed simp

lemma same_frag_simps:
  assumes "same_frag f g"
  shows "fr_trackID g = fr_trackID f" "fr_timescale g = fr_timescale f" "fr_decodeTime g = fr_decodeTime f"
    "fr_duration g = fr_duration f" "fr_payloadStart g = fr_payloadStart f" "fr_payloadLen g = fr_payloadLen f"
    "map rn_samples (fr_runs g) = map rn_samples (fr_runs f)" "endTime g = endTime f"
  using assms by (auto simp: same_frag_def endTime_def)

lemma same_frag_samples: "same_frag f g \<Longrightarrow> frag_samples g = frag_samples f"
  using same_frag_simps(7) [of f g] by (simp add: frag_samples_def run_samples_def)

lemma same_frag_parsed_ok:
  assumes "same_frag f g" and "parsed_ok f"
  shows "parsed_ok g"
proof -
  obtain h where g: "g = f\<lparr>fr_runs := map (\<lambda>run. run\<lparr>rn_outputOffset := h run\<rparr>) (fr_runs f)\<rparr>"
    using assms(1) by (auto simp: same_frag_def)
  note same_frag_samples [OF assms(1)]
  moreover have "list_all run_ok (fr_runs g)" using assms(2) by (auto simp: g parsed_ok_def list_all_iff run_ok_def)
  moreover have "rn_startsWithSync (hd (fr_runs g)) = rn_startsWithSync (hd (fr_runs f))"
    using assms(2) by (simp add: g parsed_ok_def hd_map)
  ultimately show ?thesis using assms(2) by (simp add: parsed_ok_def g)
qed

lemma laid_same: "laid n (map (\<lambda>run. run\<lparr>rn_outputOffset := h run\<rparr>) runs) e = laid n runs e"
  by (induction runs arbitrary: n) simp_all

lemma same_frag_ok:
  assumes "same_frag f g" and "frag_ok storage f"
  shows "frag_ok storage g" and "frag_bytes storage g = frag_bytes storage f"
    and "frag_content storage g = frag_content storage f"
proof -
  note s = same_frag_samples [OF assms(1)]
  show b: "frag_bytes storage g = frag_bytes storage f" using same_frag_simps [OF assms(1)] by (simp add: frag_bytes_def)
  show "frag_content storage g = frag_content storage f" by (simp add: frag_content_def s b)
  show "frag_ok storage g"
    using assms same_frag_parsed_ok [OF assms(1)] same_frag_simps(5,6) [OF assms(1)]
    by (auto simp: frag_ok_def same_frag_def laid_same)
qed

lemma same_queue:
  assumes "list_all2 same_frag fs gs" and "list_all (frag_ok storage) fs"
  shows "list_all (frag_ok storage) gs" and "queue_bytes storage gs = queue_bytes storage fs"
    and "map frag_samples gs = map frag_samples fs"
    and "map rn_samples (concat (map fr_runs gs)) = map rn_samples (concat (map fr_runs fs))"
  using assms by (induction rule: list_all2_induct) (simp_all add: same_frag_ok same_frag_samples same_frag_simps(7))

lemma appendFragmentPayloadRanges_ok:
  assumes "list_all (frag_ok storage) fs"
  shows "\<exists>ps. appendFragmentPayloadRanges dst storage fs = Inr (dst @ ps) \<and> concat ps = queue_bytes storage fs"
  using assms
proof (induction fs arbitrary: dst)
  case (Cons f fs)
  let ?p = "take (nat (fr_payloadLen f)) (drop (nat (fr_payloadStart f)) storage)"
  have fs: "list_all (frag_ok storage) fs" using Cons.prems by simp
  have ok: "frag_ok storage f" using Cons.prems by simp
  have f: "0 \<le> fr_payloadStart f" "fr_payloadStart f + fr_payloadLen f \<le> int (length storage)"
    using ok unfolding frag_ok_def by simp_all
  have len: "0 \<le> fr_payloadLen f" unfolding frag_ok_len [OF ok] by simp
  obtain ps where ps: "appendFragmentPayloadRanges (dst @ [?p]) storage fs = Inr ((dst @ [?p]) @ ps)"
    "concat ps = queue_bytes storage fs" using Cons.IH [OF fs, of "dst @ [?p]"] by (elim exE conjE) rule
  obtain qs where qs: "appendFragmentPayloadRanges dst storage fs = Inr (dst @ qs)"
    "concat qs = queue_bytes storage fs" using Cons.IH [OF fs, of dst] by (elim exE conjE) rule
  show ?case
  proof (cases "fr_payloadLen f = 0")
    case True
    then show ?thesis using qs by (intro exI [of _ qs]) (simp add: frag_bytes_def)
  next
    case False
    then have "appendFragmentPayloadRanges dst storage (f # fs) = appendFragmentPayloadRanges (dst @ [?p]) storage fs"
      using f len by (simp add: Let_def)
    then show ?thesis using ps by (intro exI [of _ "?p # ps"]) (simp add: frag_bytes_def)
  qed
qed simp

subsection \<open>One track of a segment\<close>

text \<open>A data offset has 31 bits, so a \<open>moof\<close> that is written is short, and so are the times in it.\<close>

lemma write_runs_bound:
  "write_runs (run # runs) ms hs = Inr bs \<Longrightarrow> 0 \<le> rn_outputOffset run \<Longrightarrow> ms < 2 ^ 31"
  by (auto simp: Let_def split: if_splits)

lemma durations_le: "durations ss \<le> length ss * (2 ^ 32 - 1)"
proof (induction ss)
  case (Cons s ss)
  have "unat (sm_duration s) < 2 ^ 32" using unsigned_less [of "sm_duration s"] by simp
  with Cons show ?case by simp
qed simp

lemma samples_le: "12 * length (run_samples runs) \<le> sum_list (map canonicalTrunSize runs)"
  by (induction runs) (auto simp: canonicalTrunSize_def entry_size_def)

lemma durations_small:
  assumes "getTrafSize fs n < 2 ^ 31"
  shows "durations (concat (map frag_samples (take n fs))) < 2 ^ 64"
proof -
  let ?ss = "concat (map frag_samples (take n fs))"
  have "12 * length ?ss < 2 ^ 31"
    using assms samples_le [of "concat (map fr_runs (take n fs))"] by (simp add: getTrafSize_def run_samples_concat)
  then have "length ?ss * (2 ^ 32 - 1) < 2 ^ 64" by simp
  then show ?thesis using durations_le [of ?ss] by (rule le_less_trans [rotated])
qed

definition timed :: "mp4Fragment \<Rightarrow> bool" where
  "timed f \<longleftrightarrow> list_all (\<lambda>run. 0 < durations (rn_samples run)) (fr_runs f)"

lemma timed_runs:
  assumes "list_all timed fs" and "map rn_samples (concat (map fr_runs gs)) = map rn_samples (concat (map fr_runs fs))"
  shows "list_all (\<lambda>run. 0 < durations (rn_samples run)) (concat (map fr_runs gs))"
proof -
  have "list_all (\<lambda>ss. 0 < durations ss) (map rn_samples (concat (map fr_runs fs)))"
    using assms(1) by (auto simp: timed_def list_all_iff)
  then show ?thesis unfolding assms(2) [symmetric] by (simp add: list_all_iff)
qed

lemma assignOffsets_first:
  assumes "assignOffsets fs n b = (fs', e)" and "list_all (frag_ok storage) (take n fs)" and "0 < n" and "n \<le> length fs"
  shows "\<exists>run runs. concat (map fr_runs (take n fs')) = run # runs \<and> rn_outputOffset run = b" and "same_frag (hd fs) (hd fs')"
    and "frag_ok storage (hd fs)" and "fs' \<noteq> []"
proof -
  obtain m f gs where n: "n = Suc m" and fs: "fs = f # gs" using assms(3,4) by (cases n; cases fs) auto
  have f: "frag_ok storage f" using assms(2) by (simp add: n fs)
  then have "fr_runs f \<noteq> []" and l: "laid 0 (fr_runs f) (fr_payloadLen f)" by (simp_all add: frag_ok_def parsed_ok_def)
  then obtain run runs where r: "fr_runs f = run # runs" "rn_payloadOffset run = 0" by (cases "fr_runs f") auto
  obtain gs' where fs': "fs' = f\<lparr>fr_runs := map (\<lambda>run. run\<lparr>rn_outputOffset := b + rn_payloadOffset run\<rparr>) (fr_runs f)\<rparr> # gs'"
    using assms(1) by (auto simp: n fs split: prod.splits)
  show "\<exists>run runs. concat (map fr_runs (take n fs')) = run # runs \<and> rn_outputOffset run = b"
    by (simp add: fs' n r)
  show "same_frag (hd fs) (hd fs')" by (auto simp: fs fs' same_frag_def)
  show "frag_ok storage (hd fs)" "fs' \<noteq> []" using f by (simp_all add: fs fs')
qed

text \<open>The \<open>traf\<close> of a track, read by the player in any bytes that have the payload of the track in the right place.\<close>

lemma track_written:
  assumes "assignOffsets fs n b = (fs', e)" and "list_all (frag_ok storage) (take n fs)" and "list_all timed (take n fs)"
    and "0 < n" and "n \<le> length fs" and "0 \<le> b" and "track_of (hd fs) v a"
    and "writeTraf fs' n ms hs off = Inr bs" and "getTrafSize fs' n \<le> ms"
  shows "\<exists>dt body f. addTfdtOffset (fr_decodeTime (hd fs)) (fr_timescale (hd fs)) off = Inr dt \<and> ms < 2 ^ 31
    \<and> bs = mk_box boxTraf body \<and> length bs = getTrafSize fs' n \<and> parseTraf bs 8 v a 0 0 = Inr f
    \<and> fr_trackID f = fr_trackID (hd fs) \<and> fr_decodeTime f = dt
    \<and> (\<forall>pre post. length pre = ms + hs + nat b \<longrightarrow>
         concat (map (run_content (pre @ queue_bytes storage (take n fs) @ post)) (fr_runs f)) = queue_content storage (take n fs))"
proof -
  let ?runs = "concat (map fr_runs (take n fs'))"
  note first = assignOffsets_first [OF assms(1,2,4,5)]
  note same = same_queue [OF assignOffsets_length(3) [OF assms(1)] assms(2)]
  have hd: "parsed_ok (hd fs')" "track_of (hd fs') v a" "fr_trackID (hd fs') = fr_trackID (hd fs)"
    "fr_decodeTime (hd fs') = fr_decodeTime (hd fs)" "fr_timescale (hd fs') = fr_timescale (hd fs)"
    using first(2,3) assms(7) by (auto simp: frag_ok_def track_of_def same_frag_simps intro: same_frag_parsed_ok)
  have "\<exists>ws. write_runs ?runs ms hs = Inr ws"
    using assms(8) unfolding writeTraf_def Let_def by (auto split: if_splits)
  then have ms: "ms < 2 ^ 31" using first(1) assms(6) write_runs_bound by (elim exE conjE) (metis assms(6))
  have small: "getTrafSize fs' n < 2 ^ 31" using ms assms(9) by simp
  have runs: "list_all run_ok ?runs" using same(1) by (auto simp: list_all_iff frag_ok_def parsed_ok_def)
  obtain dt body where w: "addTfdtOffset (fr_decodeTime (hd fs')) (fr_timescale (hd fs')) off = Inr dt"
    "bs = mk_box boxTraf body" "length bs = getTrafSize fs' n"
    "parseTraf bs 8 v a 0 0 = Inr (joined (take n fs') ms hs dt)"
    using traf_roundtrip [OF assms(8) hd(1) small runs timed_runs [OF assms(3) same(4)] durations_small [OF small] assms(4) first(4) hd(2), of 0 0]
    by (elim exE conjE) rule
  have c: "concat (map (run_content (pre @ queue_bytes storage (take n fs) @ post)) (fr_runs (joined (take n fs') ms hs dt)))
      = queue_content storage (take n fs)" if "length pre = ms + hs + nat b" for pre post
  proof -
    have "length pre = nat (int ms + int hs + b)" using that assms(6) by simp
    from assignOffsets_content [OF assms(1,2,6) _ this, of post] show ?thesis
      by (simp add: joined_def run_content_def read_back_def comp_def)
  qed
  have "hd (take n fs') = hd fs'" using assms(4) by (simp add: hd_take)
  then show ?thesis using w ms hd c by (intro exI [of _ dt] exI [of _ body] exI [of _ "joined (take n fs') ms hs dt"])
    (simp add: joined_def)
qed

subsection \<open>A whole segment\<close>

text \<open>The boxes of the \<open>moof\<close> of a segment: \<open>bodies\<close> are those of its \<open>traf\<close> boxes.\<close>

definition moof_of :: "u32 \<Rightarrow> byte list list \<Rightarrow> byte list" where
  "moof_of sequence trafs = mk_box boxMoof (writeMfhd sequence @ concat trafs)"

lemma length_in_concat: "xs \<in> set xss \<Longrightarrow> length xs \<le> length (concat xss)"
  by (induction xss) auto

lemma moof_boxes:
  assumes "length (moof_of sequence (map (mk_box boxTraf) bodies)) < 2 ^ 31"
  shows "boxes (moof_of sequence (map (mk_box boxTraf) bodies)) 8
      = (boxMfhd, 8, writeMfhd sequence) # map (\<lambda>body. (boxTraf, 8, mk_box boxTraf body)) bodies"
proof -
  let ?moof = "moof_of sequence (map (mk_box boxTraf) bodies)"
  let ?bs = "(boxMfhd, put32 0 @ put32 sequence) # map (Pair boxTraf) bodies"
  let ?cs = "map (\<lambda>(t, body). mk_box t body) ?bs"
  obtain pre where m: "?moof = pre @ concat ?cs" and pre: "length pre = 8"
  proof
    show "?moof = (put32 (of_nat (8 + length (concat ?cs))) @ put32 boxMoof) @ concat ?cs"
      by (simp add: moof_of_def small_boxes(2) mk_box_def [of boxMoof] comp_def)
  qed simp
  have len: "length (concat ?cs) < 2 ^ 31" using assms unfolding m by simp
  have "8 + length body < 2 ^ 31" if "(t, body) \<in> set ?bs" for t body
  proof -
    have "mk_box t body \<in> set ?cs" using that by force
    from length_in_concat [OF this] have "8 + length body \<le> length (concat ?cs)" unfolding length_mk_box .
    then show ?thesis using len by (rule le_less_trans)
  qed
  then have "\<forall>(t, body) \<in> set ?bs. 8 + length body < 2 ^ 31" by blast
  from boxes_written [OF this, of pre] show ?thesis
    unfolding m pre by (simp add: small_boxes(2) comp_def)
qed

text \<open>What a segment is to contain of the first \<open>n\<close> fragments of a queue.\<close>

definition track_content :: "byte list \<Rightarrow> mp4Fragment list \<Rightarrow> nat \<Rightarrow> rat \<Rightarrow> (u32 \<times> u64 \<times> (mp4Sample \<times> byte list) list) list res" where
  "track_content storage fs n off =
     (if n = 0 then Inr []
      else chain (addTfdtOffset (fr_decodeTime (hd fs)) (fr_timescale (hd fs)) off) (\<lambda>dt.
        Inr [(fr_trackID (hd fs), dt, queue_content storage (take n fs))]))"

lemma chain_id [simp]: "chain m Inr = m"
  by (cases m) simp_all

lemma traf_written:
  assumes "assignOffsets fs n b = (fs', e)" and "list_all (frag_ok storage) (take n fs)" and "list_all timed (take n fs)"
    and "n \<le> length fs" and "0 \<le> b" and "0 < n \<longrightarrow> track_of (hd fs) v a"
    and "traf_bytes fs' n ms hs off = Inr bs" and "traf_size fs' n \<le> ms"
  shows "\<exists>bodies out. bs = concat (map (mk_box boxTraf) bodies) \<and> length bs = traf_size fs' n \<and> (0 < n \<longrightarrow> ms < 2 ^ 31)
    \<and> track_content storage fs n off = Inr out
    \<and> (\<forall>pre post rest. length pre = ms + hs + nat b \<longrightarrow>
        (let media = pre @ queue_bytes storage (take n fs) @ post
         in play_trafs v a media (map (\<lambda>body. (boxTraf, 8, mk_box boxTraf body)) bodies @ rest)
            = chain (play_trafs v a media rest) (\<lambda>ts. Inr (out @ ts))))"
proof (cases "n = 0")
  case True
  then show ?thesis
    using assms(7) by (intro exI [of _ "[]"]) (simp add: traf_bytes_def traf_size_def track_content_def Let_def)
next
  case False
  then have n: "0 < n" by simp
  have w: "writeTraf fs' n ms hs off = Inr bs" "getTrafSize fs' n \<le> ms"
    using assms(7,8) n by (simp_all add: traf_bytes_def traf_size_def)
  obtain dt body f where t: "addTfdtOffset (fr_decodeTime (hd fs)) (fr_timescale (hd fs)) off = Inr dt" "ms < 2 ^ 31"
    "bs = mk_box boxTraf body" "length bs = getTrafSize fs' n" "parseTraf bs 8 v a 0 0 = Inr f"
    "fr_trackID f = fr_trackID (hd fs)" "fr_decodeTime f = dt"
    and c: "\<forall>pre post. length pre = ms + hs + nat b \<longrightarrow>
         concat (map (run_content (pre @ queue_bytes storage (take n fs) @ post)) (fr_runs f)) = queue_content storage (take n fs)"
    using track_written [OF assms(1-3) n assms(4,5) mp [OF assms(6) n] w] by (elim exE conjE) rule
  show ?thesis
    using t c n by (intro exI [of _ "[body]"] exI [of _ "[(fr_trackID (hd fs), dt, queue_content storage (take n fs))]"])
      (simp add: traf_size_def track_content_def Let_def)
qed

definition segment_content :: "mp4BoxReader \<Rightarrow> nat \<Rightarrow> nat \<Rightarrow> (u32 \<times> u64 \<times> (mp4Sample \<times> byte list) list) list res" where
  "segment_content r videoCount audioCount =
     chain (track_content (rd_sourcePayload r) (rd_video r) videoCount (rd_tfdtOffsetSeconds r)) (\<lambda>video.
     chain (track_content (rd_sourcePayload r) (rd_audio r) audioCount (rd_tfdtOffsetSeconds r)) (\<lambda>audio.
     Inr (video @ audio)))"

text \<open>The fragments in the queues of a reader.\<close>

definition video_ok :: "mp4BoxReader \<Rightarrow> mp4Fragment \<Rightarrow> bool" where
  "video_ok r f \<longleftrightarrow> frag_ok (rd_sourcePayload r) f \<and> fr_trackID f = tk_id (rd_videoTrack r)
     \<and> fr_timescale f = tk_timescale (rd_videoTrack r)"

definition audio_ok :: "mp4BoxReader \<Rightarrow> mp4Fragment \<Rightarrow> bool" where
  "audio_ok r f \<longleftrightarrow> frag_ok (rd_sourcePayload r) f \<and> fr_trackID f = tk_id (rd_audioTrack r)
     \<and> fr_timescale f = tk_timescale (rd_audioTrack r) \<and> tk_id (rd_audioTrack r) \<noteq> 0
     \<and> tk_id (rd_audioTrack r) \<noteq> tk_id (rd_videoTrack r)"

definition queues_ok :: "mp4BoxReader \<Rightarrow> bool" where
  "queues_ok r \<longleftrightarrow> list_all (video_ok r) (rd_video r) \<and> list_all (audio_ok r) (rd_audio r)"

lemma queues_ok_frags:
  assumes "queues_ok r"
  shows "list_all (frag_ok (rd_sourcePayload r)) (rd_video r)" "list_all (frag_ok (rd_sourcePayload r)) (rd_audio r)"
    "f \<in> set (rd_video r) \<Longrightarrow> track_of f (rd_videoTrack r) (rd_audioTrack r)"
    "f \<in> set (rd_audio r) \<Longrightarrow> track_of f (rd_videoTrack r) (rd_audioTrack r)"
  using assms by (auto simp: queues_ok_def video_ok_def audio_ok_def list_all_iff track_of_def)

lemma list_all_take: "list_all P xs \<Longrightarrow> list_all P (take n xs)"
  by (auto simp: list_all_iff dest: in_set_takeD)

lemma ex_unit: "(\<exists>x. m = Inr x \<and> P x) \<longleftrightarrow> m = Inr () \<and> P ()"
  by auto

lemma buildSegment_parts:
  assumes "buildSegment r videoCount audioCount single = Inr r'"
  shows "\<exists>video vl audio pl ms vt atr startNS endNS ps lst.
    videoCount \<le> length (rd_video r) \<and> audioCount \<le> length (rd_audio r) \<and> \<not> (videoCount = 0 \<and> audioCount = 0)
    \<and> check_track (rd_video r) videoCount = Inr () \<and> check_track (rd_audio r) audioCount = Inr ()
    \<and> assignOffsets (rd_video r) videoCount 0 = (video, vl) \<and> assignOffsets (rd_audio r) audioCount vl = (audio, pl)
    \<and> ms = 8 + 16 + traf_size video videoCount + traf_size audio audioCount
    \<and> traf_bytes video videoCount ms (mdat_header_size pl) (rd_tfdtOffsetSeconds r) = Inr vt
    \<and> traf_bytes audio audioCount ms (mdat_header_size pl) (rd_tfdtOffsetSeconds r) = Inr atr
    \<and> lst = (if videoCount > 0 then video ! (videoCount - 1) else audio ! (audioCount - 1))
    \<and> segment_times (rd_tfdtOffsetSeconds r) (if videoCount > 0 then hd video else hd audio) lst = Inr (startNS, endNS)
    \<and> collectPayloadRangesInto (rd_sourcePayload r) video videoCount audio audioCount = Inr ps
    \<and> emitSegment (r\<lparr>rd_video := video, rd_audio := audio\<rparr>)
         \<lparr>sg_Header = segment_header r ms vt atr pl, sg_Payloads = ps, sg_StartNS = startNS, sg_EndNS = endNS,
          sg_StartSeconds = seconds_of startNS, sg_EndSeconds = seconds_of endNS\<rparr>
         videoCount audioCount (endTime lst) = r'"
proof -
  obtain video vl where v: "assignOffsets (rd_video r) videoCount 0 = (video, vl)" by fastforce
  obtain audio pl where a: "assignOffsets (rd_audio r) audioCount vl = (audio, pl)" by fastforce
  note b = assms [unfolded buildSegment_def if_Inl_Inr Let_def v a prod.case chain_Inr split_paired_Ex sum.inject ex_unit not_less]
  show ?thesis using b
    by (elim exE conjE) (intro exI conjI, (assumption | rule refl v a)+)
qed

text \<open>The bytes a client receives, and those of them from the \<open>moof\<close> on.\<close>

definition prefix_bytes :: "mp4BoxReader \<Rightarrow> byte list" where
  "prefix_bytes r = rd_styp r @ (if rd_prefixActive r \<and> rd_prefix r \<noteq> [] then rd_prefix r else [])"

definition segment_bytes :: "Segment \<Rightarrow> byte list" where
  "segment_bytes segment = sg_Header segment @ concat (sg_Payloads segment)"

lemma play_moof:
  assumes "length (moof_of sequence (map (mk_box boxTraf) bodies)) < 2 ^ 31"
    and "play_trafs v a (moof_of sequence (map (mk_box boxTraf) bodies) @ rest)
      (map (\<lambda>body. (boxTraf, 8, mk_box boxTraf body)) bodies) = Inr out"
  shows "play v a (moof_of sequence (map (mk_box boxTraf) bodies) @ rest) = Inr out"
proof -
  let ?moof = "moof_of sequence (map (mk_box boxTraf) bodies)"
  have "8 + length (writeMfhd sequence @ concat (map (mk_box boxTraf) bodies)) < 2 ^ 31"
    using assms(1) unfolding moof_of_def length_mk_box .
  from tryReadBox_mk_box [OF this, of "[]" boxMoof rest]
  have "tryReadBox (?moof @ rest) 0 = Some (boxMoof, 8, ?moof, length ?moof)"
    by (simp add: moof_of_def)
  then show ?thesis using assms moof_boxes [OF assms(1)] by (simp add: play_def traf_tags)
qed

lemma collect_ok:
  assumes "collectPayloadRangesInto storage video n audio m = Inr ps"
    and "list_all (frag_ok storage) (take n video)" and "list_all (frag_ok storage) (take m audio)"
  shows "concat ps = queue_bytes storage (take n video) @ queue_bytes storage (take m audio)"
proof -
  obtain ps1 where 1: "appendFragmentPayloadRanges [] storage (take n video) = Inr ps1"
    "concat ps1 = queue_bytes storage (take n video)"
    using appendFragmentPayloadRanges_ok [OF assms(2), of "[]"] by auto
  obtain ps2 where 2: "appendFragmentPayloadRanges ps1 storage (take m audio) = Inr (ps1 @ ps2)"
    "concat ps2 = queue_bytes storage (take m audio)"
    using appendFragmentPayloadRanges_ok [OF assms(3), of ps1] by auto
  have "ps = ps1 @ ps2" using assms(1) 1(1) 2(1) by (simp add: collectPayloadRangesInto_def)
  then show ?thesis using 1(2) 2(2) by simp
qed

lemma length_writeMdatHeader: "length (writeMdatHeader n (mdat_header_size pl)) = mdat_header_size pl"
  by (simp add: writeMdatHeader_def writeHeader_def mdat_header_size_def)

lemma segment_header_moof:
  assumes "vt = concat (map (mk_box boxTraf) bv)" and "atr = concat (map (mk_box boxTraf) ba)" and "ms = 24 + length vt + length atr"
  shows "segment_header r ms vt atr pl = prefix_bytes r @ moof_of (rd_sequence r) (map (mk_box boxTraf) (bv @ ba))
      @ writeMdatHeader (nat pl) (mdat_header_size pl)"
    and "length (moof_of (rd_sequence r) (map (mk_box boxTraf) (bv @ ba))) = ms"
proof -
  have "writeHeader (of_nat ms) boxMoof @ writeMfhd (rd_sequence r) @ vt @ atr
      = moof_of (rd_sequence r) (map (mk_box boxTraf) (bv @ ba))"
    using small_boxes(3) [of ms "writeMfhd (rd_sequence r) @ vt @ atr" boxMoof] assms
    by (simp add: moof_of_def small_boxes(2))
  then show "segment_header r ms vt atr pl = prefix_bytes r @ moof_of (rd_sequence r) (map (mk_box boxTraf) (bv @ ba))
      @ writeMdatHeader (nat pl) (mdat_header_size pl)"
    by (simp add: segment_header_def prefix_bytes_def)
  show "length (moof_of (rd_sequence r) (map (mk_box boxTraf) (bv @ ba))) = ms"
    using assms by (simp add: moof_of_def small_boxes(2))
qed

lemma emitSegment_segments [simp]: "rd_segments (emitSegment r s n m e) = rd_segments r @ [s]"
  by (simp add: emitSegment_def resetPrefix_def)

lemma segment_written:
  assumes "buildSegment r n m single = Inr r'" and "queues_ok r"
    and "list_all timed (take n (rd_video r))" and "list_all timed (take m (rd_audio r))"
  shows "\<exists>segment media out. rd_segments r' = rd_segments r @ [segment]
    \<and> segment_bytes segment = prefix_bytes r @ media
    \<and> concat (sg_Payloads segment) = queue_bytes (rd_sourcePayload r) (take n (rd_video r) @ take m (rd_audio r))
    \<and> segment_content r n m = Inr out \<and> play (rd_videoTrack r) (rd_audioTrack r) media = Inr out"
proof -
  let ?v = "rd_videoTrack r" and ?a = "rd_audioTrack r" and ?st = "rd_sourcePayload r" and ?off = "rd_tfdtOffsetSeconds r"
  let ?qv = "queue_bytes ?st (take n (rd_video r))" and ?qa = "queue_bytes ?st (take m (rd_audio r))"
  obtain video vl audio pl ms vt atr startNS endNS ps lst where
    b: "n \<le> length (rd_video r)" "m \<le> length (rd_audio r)" "\<not> (n = 0 \<and> m = 0)"
      "assignOffsets (rd_video r) n 0 = (video, vl)" "assignOffsets (rd_audio r) m vl = (audio, pl)"
      "ms = 8 + 16 + traf_size video n + traf_size audio m"
      "traf_bytes video n ms (mdat_header_size pl) ?off = Inr vt" "traf_bytes audio m ms (mdat_header_size pl) ?off = Inr atr"
      "collectPayloadRangesInto ?st video n audio m = Inr ps"
      "emitSegment (r\<lparr>rd_video := video, rd_audio := audio\<rparr>)
         \<lparr>sg_Header = segment_header r ms vt atr pl, sg_Payloads = ps, sg_StartNS = startNS, sg_EndNS = endNS,
          sg_StartSeconds = seconds_of startNS, sg_EndSeconds = seconds_of endNS\<rparr> n m (endTime lst) = r'"
    using buildSegment_parts [OF assms(1)] by (elim exE conjE) rule
  note okv = list_all_take [OF queues_ok_frags(1) [OF assms(2)], of n]
  note oka = list_all_take [OF queues_ok_frags(2) [OF assms(2)], of m]
  have vl: "vl = int (length ?qv)" using assignOffsets_end [OF b(4) okv] by simp
  have tv: "0 < n \<longrightarrow> track_of (hd (rd_video r)) ?v ?a"
    using b(1) by (intro impI queues_ok_frags(3) [OF assms(2)] hd_in_set) auto
  have ta: "0 < m \<longrightarrow> track_of (hd (rd_audio r)) ?v ?a"
    using b(2) by (intro impI queues_ok_frags(4) [OF assms(2)] hd_in_set) auto
  have sv: "traf_size video n \<le> ms" and sa: "traf_size audio m \<le> ms" using b(6) by simp_all
  have 0: "0 \<le> (0 :: int)" "0 \<le> vl" by (simp_all add: vl)
  obtain bv ov where v: "vt = concat (map (mk_box boxTraf) bv)" "length vt = traf_size video n" "0 < n \<longrightarrow> ms < 2 ^ 31"
      "track_content ?st (rd_video r) n ?off = Inr ov"
    and pv: "\<forall>pre post rest. length pre = ms + mdat_header_size pl + nat 0 \<longrightarrow> (let media = pre @ ?qv @ post
         in play_trafs ?v ?a media (map (\<lambda>body. (boxTraf, 8, mk_box boxTraf body)) bv @ rest)
            = chain (play_trafs ?v ?a media rest) (\<lambda>ts. Inr (ov @ ts)))"
    using traf_written [OF b(4) okv assms(3) b(1) 0(1) tv b(7) sv] by (elim exE conjE) rule
  obtain ba oa where a: "atr = concat (map (mk_box boxTraf) ba)" "length atr = traf_size audio m" "0 < m \<longrightarrow> ms < 2 ^ 31"
      "track_content ?st (rd_audio r) m ?off = Inr oa"
    and pa: "\<forall>pre post rest. length pre = ms + mdat_header_size pl + nat vl \<longrightarrow> (let media = pre @ ?qa @ post
         in play_trafs ?v ?a media (map (\<lambda>body. (boxTraf, 8, mk_box boxTraf body)) ba @ rest)
            = chain (play_trafs ?v ?a media rest) (\<lambda>ts. Inr (oa @ ts)))"
    using traf_written [OF b(5) oka assms(4) b(2) 0(2) ta b(8) sa] by (elim exE conjE) rule
  let ?moof = "moof_of (rd_sequence r) (map (mk_box boxTraf) (bv @ ba))"
  let ?hdr = "writeMdatHeader (nat pl) (mdat_header_size pl)"
  let ?rest = "?hdr @ ?qv @ ?qa"
  have ms: "ms = 24 + length vt + length atr" using b(6) v(2) a(2) by simp
  note h = segment_header_moof [OF v(1) a(1) ms, of r]
  have short: "length ?moof < 2 ^ 31" unfolding h(2) using b(3) v(3) a(3) by auto
  have "play_trafs ?v ?a (?moof @ ?rest) (map (\<lambda>body. (boxTraf, 8, mk_box boxTraf body)) ba) = Inr oa"
    using pa [THEN spec, THEN spec, THEN spec, of "?moof @ ?hdr @ ?qv" "[]" "[]"] h(2)
    by (simp add: Let_def length_writeMdatHeader vl)
  then have "play_trafs ?v ?a (?moof @ ?rest) (map (\<lambda>body. (boxTraf, 8, mk_box boxTraf body)) (bv @ ba)) = Inr (ov @ oa)"
    using pv [THEN spec, THEN spec, THEN spec, of "?moof @ ?hdr" ?qa "map (\<lambda>body. (boxTraf, 8, mk_box boxTraf body)) ba"] h(2)
    by (simp add: Let_def length_writeMdatHeader)
  note p = play_moof [OF short this]
  note same = same_queue(1,2) [OF assignOffsets_length(3) [OF b(4)] okv] same_queue(1,2) [OF assignOffsets_length(3) [OF b(5)] oka]
  have ps: "concat ps = ?qv @ ?qa" using collect_ok [OF b(9) same(1,3)] same(2,4) by simp
  have "segment_content r n m = Inr (ov @ oa)" by (simp add: segment_content_def v(4) a(4))
  moreover let ?seg = "\<lparr>sg_Header = segment_header r ms vt atr pl, sg_Payloads = ps, sg_StartNS = startNS, sg_EndNS = endNS,
      sg_StartSeconds = seconds_of startNS, sg_EndSeconds = seconds_of endNS\<rparr>"
  have "rd_segments r' = rd_segments r @ [?seg]" unfolding b(10) [symmetric] by simp
  moreover have "segment_bytes ?seg = prefix_bytes r @ ?moof @ ?rest" by (simp add: segment_bytes_def h(1) ps)
  moreover have "concat (sg_Payloads ?seg) = queue_bytes ?st (take n (rd_video r) @ take m (rd_audio r))" by (simp add: ps)
  ultimately show ?thesis using p by blast
qed

end
