(* ===== verification/Mp4Queue.thy ===== *)
theory Mp4Queue
  imports Mp4Segment
begin

text \<open>
  The queues of the reader. The lemmas show that cutting a segment moves samples from the queues into the segment
  and neither loses nor repeats any, that the audio is split at the first sample that reaches the end of the video,
  and that releasing payloads keeps the bytes of what is still queued.
\<close>

subsection \<open>Choosing the audio\<close>

definition positive :: "mp4Fragment \<Rightarrow> bool" where
  "positive f \<longleftrightarrow> list_all (\<lambda>s. sm_duration s \<noteq> 0) (frag_samples f)"

text \<open>A fragment of a size that fits into memory: the sums of its sizes and durations stay far below 64 bits.\<close>

definition small :: "mp4Fragment \<Rightarrow> bool" where
  "small f \<longleftrightarrow> length (frag_samples f) < 2 ^ 31"

lemma positive_timed:
  assumes "positive f" and "parsed_ok f"
  shows "timed f"
proof -
  have "0 < durations (rn_samples run)" if "run \<in> set (fr_runs f)" for run
  proof -
    have "rn_samples run \<noteq> []" using assms(2) that by (simp add: parsed_ok_def list_all_iff run_ok_def)
    then obtain s ss where ss: "rn_samples run = s # ss" by (cases "rn_samples run") simp_all
    then have "s \<in> set (frag_samples f)" using that by (auto simp: frag_samples_def run_samples_def intro!: bexI [of _ run])
    then have "sm_duration s \<noteq> 0" using assms(1) by (simp add: positive_def list_all_iff)
    then have "0 < unat (sm_duration s)" by (simp add: unat_gt_0)
    then show ?thesis by (simp add: ss)
  qed
  then show ?thesis by (simp add: timed_def list_all_iff)
qed

lemma split_audio_ok:
  assumes "splitFragmentAtSample f n = Inr (left, right)" and "audio_ok r f"
  shows "audio_ok r left" and "audio_ok r right" and "positive f \<Longrightarrow> positive left \<and> positive right"
    and "small f \<Longrightarrow> small left \<and> small right"
    and "frag_content (rd_sourcePayload r) left @ frag_content (rd_sourcePayload r) right = frag_content (rd_sourcePayload r) f"
proof -
  have f: "frag_ok (rd_sourcePayload r) f" using assms(2) by (simp add: audio_ok_def)
  note s = splitFragment_ok [OF assms(1) f]
  have t: "fr_timescale left = fr_timescale f" "fr_timescale right = fr_timescale f"
    using splitFragment_parts [OF assms(1)] by (elim exE conjE, simp)+
  show "audio_ok r left" "audio_ok r right" using assms(2) s t by (simp_all add: audio_ok_def)
  show "positive f \<Longrightarrow> positive left \<and> positive right"
    unfolding positive_def s(3,4) by (auto simp: list_all_iff dest: in_set_takeD in_set_dropD)
  show "small f \<Longrightarrow> small left \<and> small right" unfolding small_def s(3,4) by auto
  show "frag_content (rd_sourcePayload r) left @ frag_content (rd_sourcePayload r) right = frag_content (rd_sourcePayload r) f"
    by (rule s(5))
qed

lemma select_audio_ok:
  assumes "select_audio scale videoEnd fs = Inr (n, fs')" and "list_all (audio_ok r) fs"
  shows "list_all (audio_ok r) fs' \<and> queue_content (rd_sourcePayload r) fs' = queue_content (rd_sourcePayload r) fs
    \<and> n \<le> length fs' \<and> (list_all positive fs \<longrightarrow> list_all positive fs') \<and> (list_all small fs \<longrightarrow> list_all small fs')"
  using assms
proof (induction fs arbitrary: n fs')
  case (Cons f fs)
  from Cons.prems(1) obtain k reached where k: "findAudioSplitSampleCount scale f videoEnd = Inr (k, reached)" by auto
  show ?case
  proof (cases reached)
    case False
    with Cons.prems(1) k obtain n' gs where g: "select_audio scale videoEnd fs = Inr (n', gs)"
      "n = (if n' = 0 then 0 else n' + 1)" "fs' = f # gs" by auto
    show ?thesis using Cons.IH [OF g(1)] Cons.prems(2) g(2,3) by auto
  next
    case True
    with Cons.prems(1) k obtain N where N: "fragmentSampleCount f = Inr N" by auto
    show ?thesis
    proof (cases "k < N")
      case True
      with Cons.prems(1) k N \<open>reached\<close> obtain left right where s: "splitFragmentAtSample f k = Inr (left, right)"
        "n = 1" "fs' = left # right # fs" by (auto split: if_splits)
      have f: "audio_ok r f" using Cons.prems(2) by simp
      show ?thesis
        using split_audio_ok [OF s(1) f] Cons.prems(2) s(2,3) by (auto simp flip: append_assoc)
    next
      case False
      with Cons.prems(1) k N \<open>reached\<close> have "n = 1" "fs' = f # fs" by (auto split: if_splits)
      then show ?thesis using Cons.prems(2) by simp
    qed
  qed
qed simp

lemma selectAudioCount_ok:
  assumes "selectAudioCount r videoEnd = Inr (n, r')" and "queues_ok r"
  shows "\<exists>audio. r' = r\<lparr>rd_audio := audio\<rparr>" and "queues_ok r'" and "n \<le> length (rd_audio r')"
    and "queue_content (rd_sourcePayload r) (rd_audio r') = queue_content (rd_sourcePayload r) (rd_audio r)"
    and "list_all positive (rd_audio r) \<Longrightarrow> list_all positive (rd_audio r')"
    and "list_all small (rd_audio r) \<Longrightarrow> list_all small (rd_audio r')"
proof -
  obtain audio where a: "select_audio (tk_timescale (rd_videoTrack r)) videoEnd (rd_audio r) = Inr (n, audio)"
    and r': "r' = r\<lparr>rd_audio := audio\<rparr>" using assms(1) by (auto simp: selectAudioCount_def)
  have q: "list_all (video_ok r) (rd_video r)" "list_all (audio_ok r) (rd_audio r)" using assms(2) by (simp_all add: queues_ok_def)
  note s = select_audio_ok [OF a q(2)]
  have v: "video_ok r' = video_ok r" "audio_ok r' = audio_ok r" by (simp_all add: fun_eq_iff video_ok_def audio_ok_def r')
  show "\<exists>audio. r' = r\<lparr>rd_audio := audio\<rparr>" using r' by blast
  show "queues_ok r'" unfolding queues_ok_def v using q(1) s by (simp add: r')
  show "n \<le> length (rd_audio r')"
    "queue_content (rd_sourcePayload r) (rd_audio r') = queue_content (rd_sourcePayload r) (rd_audio r)"
    "list_all positive (rd_audio r) \<Longrightarrow> list_all positive (rd_audio r')"
    "list_all small (rd_audio r) \<Longrightarrow> list_all small (rd_audio r')" using s by (simp_all add: r')
qed

subsection \<open>Cutting a segment\<close>

lemma buildSegment_queues:
  assumes "buildSegment r n m single = Inr r'"
  shows "rd_video r' = drop n (rd_video r)" and "rd_audio r' = drop m (rd_audio r)" and "n \<le> length (rd_video r)"
    and "m \<le> length (rd_audio r)" and "rd_sourcePayload r' = rd_sourcePayload r"
    and "rd_videoTrack r' = rd_videoTrack r" and "rd_audioTrack r' = rd_audioTrack r" and "rd_pending r' = rd_pending r"
    and "rd_currentPayloadStart r' = rd_currentPayloadStart r" and "rd_initDone r' = rd_initDone r"
proof -
  from buildSegment_parts [OF assms] obtain video vl audio pl seg e where b:
    "n \<le> length (rd_video r)" "m \<le> length (rd_audio r)"
    "assignOffsets (rd_video r) n 0 = (video, vl)" "assignOffsets (rd_audio r) m vl = (audio, pl)"
    "r' = emitSegment (r\<lparr>rd_video := video, rd_audio := audio\<rparr>) seg n m e"
    by (elim exE conjE) (rule that, assumption+, erule sym)
  note d = assignOffsets_length(2) [OF b(3)] assignOffsets_length(2) [OF b(4)]
  show "rd_video r' = drop n (rd_video r)" "rd_audio r' = drop m (rd_audio r)" "rd_sourcePayload r' = rd_sourcePayload r"
    "rd_videoTrack r' = rd_videoTrack r" "rd_audioTrack r' = rd_audioTrack r" "rd_pending r' = rd_pending r"
    "rd_currentPayloadStart r' = rd_currentPayloadStart r" "rd_initDone r' = rd_initDone r"
    by (simp_all add: b(5) d emitSegment_def resetPrefix_def removeFragments_def)
  show "n \<le> length (rd_video r)" "m \<le> length (rd_audio r)" by (rule b)+
qed

lemma list_all_drop: "list_all P xs \<Longrightarrow> list_all P (drop n xs)"
  by (auto simp: list_all_iff dest: in_set_dropD)

lemma buildSegment_queues_ok:
  assumes "buildSegment r n m single = Inr r'" and "queues_ok r"
  shows "queues_ok r'"
proof -
  note b = buildSegment_queues [OF assms(1)]
  have "video_ok r' = video_ok r" "audio_ok r' = audio_ok r" by (simp_all add: fun_eq_iff video_ok_def audio_ok_def b)
  then show ?thesis using assms(2) by (simp add: queues_ok_def b list_all_drop)
qed

text \<open>What a built segment takes from the queues is what it contains.\<close>

lemma segment_content_Inr:
  assumes "segment_content r n m = Inr out"
  shows "\<exists>dv da. out = (if n = 0 then [] else [(fr_trackID (hd (rd_video r)), dv, queue_content (rd_sourcePayload r) (take n (rd_video r)))])
    @ (if m = 0 then [] else [(fr_trackID (hd (rd_audio r)), da, queue_content (rd_sourcePayload r) (take m (rd_audio r)))])"
  using assms by (auto simp: segment_content_def track_content_def split: if_splits)

definition moved :: "mp4BoxReader \<Rightarrow> mp4BoxReader \<Rightarrow> (mp4Sample \<times> byte list) list \<Rightarrow> (mp4Sample \<times> byte list) list \<Rightarrow> bool" where
  "moved r r' video audio \<longleftrightarrow>
     queue_content (rd_sourcePayload r) (rd_video r) = video @ queue_content (rd_sourcePayload r') (rd_video r')
   \<and> queue_content (rd_sourcePayload r) (rd_audio r) = audio @ queue_content (rd_sourcePayload r') (rd_audio r')"

lemma buildSegment_moved:
  assumes "buildSegment r n m single = Inr r'"
  shows "moved r r' (queue_content (rd_sourcePayload r) (take n (rd_video r))) (queue_content (rd_sourcePayload r) (take m (rd_audio r)))"
  unfolding moved_def buildSegment_queues [OF assms] queue_simps [symmetric] by simp

lemma tryBuildSegment_parts:
  assumes "tryBuildSegment r = Inr (done, r')"
  obtains (none) "\<not> done" "r' = r"
  | (waits) videoEnd m where "\<not> done" "selectAudioCount r videoEnd = Inr (m, r')"
  | (video) n where "done" "0 < n" "tk_id (rd_audioTrack r) = 0" "buildSegment r n 0 False = Inr r'"
  | (both) n m videoEnd r1 where "done" "0 < n" "0 < m" "tk_id (rd_audioTrack r) \<noteq> 0" "selectAudioCount r videoEnd = Inr (m, r1)"
      "buildSegment r1 n m False = Inr r'"
proof -
  from assms obtain n where n: "selectVideoCount r = Inr n" by (auto simp: tryBuildSegment_def)
  show ?thesis
  proof (cases "n = 0 \<or> tk_id (rd_audioTrack r) = 0")
    case True
    with assms n show ?thesis by (cases "n = 0") (auto simp: tryBuildSegment_def intro: none video)
  next
    case False
    then obtain m r1 where m: "selectAudioCount r (endTime (rd_video r ! (n - 1))) = Inr (m, r1)"
      using assms n by (auto simp: tryBuildSegment_def)
    with False assms n show ?thesis
      by (cases "m = 0") (auto simp: tryBuildSegment_def intro: waits both)
  qed
qed

text \<open>\<open>r'\<close> is \<open>r\<close> after one more segment, which contains what has left the queues.\<close>

definition segment_cut :: "mp4BoxReader \<Rightarrow> mp4BoxReader \<Rightarrow> bool" where
  "segment_cut r r' \<longleftrightarrow> (\<exists>segment media video audio dv da. rd_segments r' = rd_segments r @ [segment]
     \<and> segment_bytes segment = prefix_bytes r @ media
     \<and> play (rd_videoTrack r) (rd_audioTrack r) media = Inr ((tk_id (rd_videoTrack r), dv, video)
         # (if tk_id (rd_audioTrack r) = 0 then [] else [(tk_id (rd_audioTrack r), da, audio)]))
     \<and> (tk_id (rd_audioTrack r) = 0 \<longrightarrow> audio = []) \<and> moved r r' video audio)"

lemma queues_ok_hd:
  assumes "queues_ok r"
  shows "rd_video r \<noteq> [] \<Longrightarrow> fr_trackID (hd (rd_video r)) = tk_id (rd_videoTrack r)"
    and "rd_audio r \<noteq> [] \<Longrightarrow> fr_trackID (hd (rd_audio r)) = tk_id (rd_audioTrack r)"
  using assms by (auto simp: queues_ok_def video_ok_def audio_ok_def list_all_iff)

lemma positive_all_timed:
  assumes "list_all positive fs" and "list_all (frag_ok st) fs"
  shows "list_all timed (take n fs)"
  using assms by (auto simp: list_all_iff frag_ok_def dest!: in_set_takeD intro: positive_timed)

lemma buildSegment_plays:
  assumes "buildSegment r n m single = Inr r'" and "queues_ok r" and "list_all positive (rd_video r)" and "list_all positive (rd_audio r)"
  shows "\<exists>segment media dv da. rd_segments r' = rd_segments r @ [segment] \<and> segment_bytes segment = prefix_bytes r @ media
    \<and> play (rd_videoTrack r) (rd_audioTrack r) media = Inr
        ((if n = 0 then [] else [(tk_id (rd_videoTrack r), dv, queue_content (rd_sourcePayload r) (take n (rd_video r)))])
         @ (if m = 0 then [] else [(tk_id (rd_audioTrack r), da, queue_content (rd_sourcePayload r) (take m (rd_audio r)))]))"
proof -
  note ok = queues_ok_frags(1,2) [OF assms(2)]
  obtain segment media out where w: "rd_segments r' = rd_segments r @ [segment]" "segment_bytes segment = prefix_bytes r @ media"
    "segment_content r n m = Inr out" "play (rd_videoTrack r) (rd_audioTrack r) media = Inr out"
    using segment_written [OF assms(1,2) positive_all_timed [OF assms(3) ok(1)] positive_all_timed [OF assms(4) ok(2)]]
    by (elim exE conjE) rule
  have "n \<le> length (rd_video r)" "m \<le> length (rd_audio r)" by (rule buildSegment_queues [OF assms(1)])+
  then have "n \<noteq> 0 \<Longrightarrow> rd_video r \<noteq> []" "m \<noteq> 0 \<Longrightarrow> rd_audio r \<noteq> []" by auto
  with queues_ok_hd [OF assms(2)] have "n \<noteq> 0 \<Longrightarrow> fr_trackID (hd (rd_video r)) = tk_id (rd_videoTrack r)"
    "m \<noteq> 0 \<Longrightarrow> fr_trackID (hd (rd_audio r)) = tk_id (rd_audioTrack r)" by blast+
  then show ?thesis using w segment_content_Inr [OF w(3)]
    by (intro exI [of _ segment] exI [of _ media]) (cases "n = 0"; cases "m = 0"; auto)
qed

lemma buildSegment_cut:
  assumes "buildSegment r n m single = Inr r'" and "queues_ok r" and "list_all positive (rd_video r)"
    and "list_all positive (rd_audio r)" and "0 < n" and "m = 0 \<longleftrightarrow> tk_id (rd_audioTrack r) = 0"
  shows "segment_cut r r'"
proof -
  let ?st = "rd_sourcePayload r"
  obtain segment media dv da where w: "rd_segments r' = rd_segments r @ [segment]" "segment_bytes segment = prefix_bytes r @ media"
    "play (rd_videoTrack r) (rd_audioTrack r) media = Inr
        ((if n = 0 then [] else [(tk_id (rd_videoTrack r), dv, queue_content ?st (take n (rd_video r)))])
         @ (if m = 0 then [] else [(tk_id (rd_audioTrack r), da, queue_content ?st (take m (rd_audio r)))]))"
    using buildSegment_plays [OF assms(1-4)] by (elim exE conjE) rule
  have "play (rd_videoTrack r) (rd_audioTrack r) media = Inr ((tk_id (rd_videoTrack r), dv, queue_content ?st (take n (rd_video r)))
      # (if tk_id (rd_audioTrack r) = 0 then [] else [(tk_id (rd_audioTrack r), da, queue_content ?st (take m (rd_audio r)))]))"
    unfolding w(3) using assms(5,6) by auto
  moreover have "tk_id (rd_audioTrack r) = 0 \<longrightarrow> queue_content ?st (take m (rd_audio r)) = []"
    by (rule impI) (drule iffD2 [OF assms(6)], simp)
  ultimately show ?thesis
    unfolding segment_cut_def using w(1,2) buildSegment_moved [OF assms(1)] by blast
qed

lemma tryBuildSegment_cut:
  assumes "tryBuildSegment r = Inr (True, r')" and "queues_ok r" and "list_all positive (rd_video r)"
    and "list_all positive (rd_audio r)"
  shows "segment_cut r r' \<and> queues_ok r'"
  using assms(1)
proof (cases rule: tryBuildSegment_parts)
  case (video n)
  then show ?thesis using assms buildSegment_queues_ok buildSegment_cut by auto
next
  case (both n m e r1)
  note a = selectAudioCount_ok [OF both(5) assms(2)]
  obtain audio where r1: "r1 = r\<lparr>rd_audio := audio\<rparr>" using a(1) by blast
  have "list_all positive (rd_audio r1)" by (rule a(5) [OF assms(4)])
  then have "segment_cut r1 r'"
    using both(2,3,4) assms(3) by (intro buildSegment_cut [OF both(6) a(2)]) (simp_all add: r1)
  moreover have "moved r1 r' v w = moved r r' v w" for v w using a(4) by (simp add: moved_def r1)
  moreover have "prefix_bytes r1 = prefix_bytes r" "rd_segments r1 = rd_segments r" "rd_videoTrack r1 = rd_videoTrack r"
    "rd_audioTrack r1 = rd_audioTrack r" by (simp_all add: prefix_bytes_def r1)
  ultimately have "segment_cut r r'" by (simp only: segment_cut_def)
  then show ?thesis using buildSegment_queues_ok [OF both(6) a(2)] by simp
qed simp_all

lemma tryBuildSegment_waits:
  assumes "tryBuildSegment r = Inr (False, r')" and "queues_ok r"
  shows "rd_segments r' = rd_segments r \<and> moved r r' [] [] \<and> queues_ok r'"
  using assms(1)
proof (cases rule: tryBuildSegment_parts)
  case (waits e m)
  note a = selectAudioCount_ok [OF waits(2) assms(2)]
  obtain audio where r1: "r' = r\<lparr>rd_audio := audio\<rparr>" using a(1) by blast
  then show ?thesis using a(2,4) by (simp add: moved_def)
qed (simp_all add: assms(2) moved_def)

subsection \<open>Releasing payloads\<close>

lemma frag_ok_pos: "frag_ok st f \<Longrightarrow> 0 < fr_payloadLen f"
proof -
  assume f: "frag_ok st f"
  then obtain run runs where r: "fr_runs f = run # runs" "run_ok run"
    by (cases "fr_runs f") (auto simp: frag_ok_def parsed_ok_def)
  then have "0 < sizes (frag_samples f)" by (simp add: frag_samples_def run_ok_def)
  then show ?thesis using frag_ok_len [OF f] by simp
qed

lemma minFragmentPayloadStart_min:
  assumes "list_all (frag_ok st) fs"
  shows "let m = minFragmentPayloadStart c fs in (m < 0 \<longleftrightarrow> c < 0 \<and> fs = []) \<and> (0 \<le> c \<longrightarrow> m \<le> c)
    \<and> (\<forall>f \<in> set fs. m \<le> fr_payloadStart f) \<and> (m = c \<or> (\<exists>f \<in> set fs. m = fr_payloadStart f))"
  using assms
proof (induction fs arbitrary: c)
  case (Cons f fs)
  have f: "\<not> fr_payloadLen f \<le> 0" "0 \<le> fr_payloadStart f"
    using Cons.prems frag_ok_pos [of st f] frag_ok_range(1) [of st f] by simp_all
  have fs: "list_all (frag_ok st) fs" using Cons.prems by simp
  show ?case using Cons.IH [OF fs, of "minPayloadStart c (fr_payloadStart f)"] f
    by (auto simp: Let_def minPayloadStart_def split: if_splits)
qed simp

lemma shift_start_ids [simp]: "fr_trackID (shift_start d f) = fr_trackID f" "fr_timescale (shift_start d f) = fr_timescale f"
  by (simp_all add: shift_start_def)

lemma shift_start_ok:
  assumes "frag_ok st f" and "0 \<le> d" and "d \<le> fr_payloadStart f"
  shows "frag_ok (drop (nat d) st) (shift_start d f)" and "frag_content (drop (nat d) st) (shift_start d f) = frag_content st f"
    and "fr_payloadStart (shift_start d f) = fr_payloadStart f - d"
proof -
  have s: "shift_start d f = f\<lparr>fr_payloadStart := fr_payloadStart f - d\<rparr>"
    using frag_ok_pos [OF assms(1)] by (simp add: shift_start_def)
  have "nat (fr_payloadStart f - d) + nat d = nat (fr_payloadStart f)" using assms(2,3) by simp
  then have "frag_bytes (drop (nat d) st) (shift_start d f) = frag_bytes st f" by (simp add: frag_bytes_def s)
  then show "frag_content (drop (nat d) st) (shift_start d f) = frag_content st f"
    by (simp add: frag_content_def frag_samples_def s)
  show "frag_ok (drop (nat d) st) (shift_start d f)"
    using assms by (auto simp: frag_ok_def s parsed_ok_def frag_samples_def)
  show "fr_payloadStart (shift_start d f) = fr_payloadStart f - d" by (simp add: s)
qed

lemma shift_queue_content:
  assumes "list_all (frag_ok st) fs" and "0 \<le> d" and "\<forall>f \<in> set fs. d \<le> fr_payloadStart f"
  shows "queue_content (drop (nat d) st) (shiftFragmentPayloadStarts fs d) = queue_content st fs"
  using assms by (induction fs) (simp_all add: shiftFragmentPayloadStarts_def shift_start_ok)

text \<open>A fragment that waits for its payload does not count. The buffer afterwards starts with the first payload that is still queued.\<close>

lemma minQueuedPayloadStart_min:
  assumes "queues_ok r" and "\<forall>f. rd_pending r = Some f \<longrightarrow> fr_payloadLen f = 0"
  shows "minQueuedPayloadStart r < 0 \<longleftrightarrow> rd_video r = [] \<and> rd_audio r = []"
    and "\<forall>f \<in> set (rd_video r @ rd_audio r). minQueuedPayloadStart r \<le> fr_payloadStart f"
    and "0 \<le> minQueuedPayloadStart r \<Longrightarrow> \<exists>f \<in> set (rd_video r @ rd_audio r). minQueuedPayloadStart r = fr_payloadStart f"
proof -
  define m where "m = minFragmentPayloadStart (- 1) (rd_video r)"
  have q: "minQueuedPayloadStart r = minFragmentPayloadStart m (rd_audio r)"
    using assms(2) by (cases "rd_pending r") (simp_all add: minQueuedPayloadStart_def m_def)
  note ok = queues_ok_frags(1,2) [OF assms(1)]
  note v = minFragmentPayloadStart_min [OF ok(1), of "- 1", unfolded Let_def m_def [symmetric]]
  note a = minFragmentPayloadStart_min [OF ok(2), of m, unfolded Let_def]
  show "minQueuedPayloadStart r < 0 \<longleftrightarrow> rd_video r = [] \<and> rd_audio r = []" unfolding q using v a by auto
  have "minFragmentPayloadStart m (rd_audio r) \<le> m" if "rd_video r \<noteq> []" using v a that by auto
  then show "\<forall>f \<in> set (rd_video r @ rd_audio r). minQueuedPayloadStart r \<le> fr_payloadStart f"
    unfolding q using v a by (auto intro: order_trans)
  assume "0 \<le> minQueuedPayloadStart r"
  then show "\<exists>f \<in> set (rd_video r @ rd_audio r). minQueuedPayloadStart r = fr_payloadStart f"
    unfolding q using v a by auto
qed

lemma ReclaimPayloads_cases:
  assumes "\<forall>f. rd_pending r = Some f \<longrightarrow> fr_payloadLen f = 0"
  obtains (same) "ReclaimPayloads r = r" "rd_sourcePayload r = [] \<or> minQueuedPayloadStart r = 0"
  | (empty) "minQueuedPayloadStart r < 0" "ReclaimPayloads r = r\<lparr>rd_sourcePayload := [], rd_currentPayloadStart := 0\<rparr>"
  | (shift) x where "0 < minQueuedPayloadStart r"
      "ReclaimPayloads r = r\<lparr>rd_sourcePayload := drop (nat (minQueuedPayloadStart r)) (rd_sourcePayload r),
        rd_video := shiftFragmentPayloadStarts (rd_video r) (minQueuedPayloadStart r),
        rd_audio := shiftFragmentPayloadStarts (rd_audio r) (minQueuedPayloadStart r),
        rd_currentPayloadStart := x\<rparr>"
      "x = (if rd_currentPayloadStart r \<ge> minQueuedPayloadStart r then rd_currentPayloadStart r - minQueuedPayloadStart r else 0)"
proof (cases "rd_sourcePayload r = [] \<or> minQueuedPayloadStart r = 0")
  case True
  then have "ReclaimPayloads r = r" by (elim disjE) (simp_all add: ReclaimPayloads_def Let_def)
  then show ?thesis using True by (rule same)
next
  case False
  show ?thesis
  proof (cases "minQueuedPayloadStart r < 0")
    case True
    then show ?thesis using False by (intro empty) (simp_all add: ReclaimPayloads_def Let_def)
  next
    case neg: False
    have "map_option (shift_start d) (rd_pending r) = rd_pending r" for d
      using assms by (cases "rd_pending r") (simp_all add: shift_start_def)
    then show ?thesis using False neg by (intro shift) (simp_all add: ReclaimPayloads_def Let_def)
  qed
qed

lemma ReclaimPayloads_keeps:
  assumes "queues_ok r" and "\<forall>f. rd_pending r = Some f \<longrightarrow> fr_payloadLen f = 0"
  shows "queues_ok (ReclaimPayloads r) \<and> moved r (ReclaimPayloads r) [] []
    \<and> (rd_sourcePayload (ReclaimPayloads r) = []
      \<or> (\<exists>f \<in> set (rd_video (ReclaimPayloads r) @ rd_audio (ReclaimPayloads r)). fr_payloadStart f = 0))"
  using assms(2)
proof (cases rule: ReclaimPayloads_cases)
  case same
  then show ?thesis using assms minQueuedPayloadStart_min(3) [OF assms] by (auto simp: moved_def)
next
  case empty
  then have "rd_video r = [] \<and> rd_audio r = []" using minQueuedPayloadStart_min(1) [OF assms] by simp
  then show ?thesis by (simp add: empty(2) moved_def queues_ok_def)
next
  case (shift x)
  note m = minQueuedPayloadStart_min [OF assms]
  note ok = queues_ok_frags(1,2) [OF assms(1)]
  have le: "0 \<le> minQueuedPayloadStart r" using shift(1) by simp
  have c: "moved r (ReclaimPayloads r) [] []"
    using m(2) le ok by (simp add: moved_def shift(2) shift_queue_content)
  have v: "video_ok (ReclaimPayloads r) (shift_start (minQueuedPayloadStart r) f)" if "f \<in> set (rd_video r)" for f
    using that assms(1) m(2) le by (simp add: queues_ok_def list_all_iff video_ok_def shift(2) shift_start_ok)
  have a: "audio_ok (ReclaimPayloads r) (shift_start (minQueuedPayloadStart r) f)" if "f \<in> set (rd_audio r)" for f
    using that assms(1) m(2) le by (simp add: queues_ok_def list_all_iff audio_ok_def shift(2) shift_start_ok)
  have "queues_ok (ReclaimPayloads r)" using v a
    by (auto simp: queues_ok_def list_all_iff shift(2) shiftFragmentPayloadStarts_def)
  moreover obtain f where f: "f \<in> set (rd_video r @ rd_audio r)" "minQueuedPayloadStart r = fr_payloadStart f"
    using m(3) [OF le] by blast
  then have "fr_payloadStart (shift_start (minQueuedPayloadStart r) f) = 0"
    using ok le shift_start_ok(3) [of "rd_sourcePayload r" f "minQueuedPayloadStart r"] by (auto simp: list_all_iff)
  then have "\<exists>f \<in> set (rd_video (ReclaimPayloads r) @ rd_audio (ReclaimPayloads r)). fr_payloadStart f = 0"
    using f(1) by (auto simp: shift(2) shiftFragmentPayloadStarts_def)
  ultimately show ?thesis using c by blast
qed

end
