(* ===== verification/Mp4Time.thy ===== *)
theory Mp4Time
  imports Mp4Queue
begin

text \<open>
  The times of the reader: comparing times of tracks with different clocks, converting to nanoseconds, where the
  audio of a segment ends, and that a reset leaves nothing of the stream before it.
\<close>

subsection \<open>Exact times\<close>

text \<open>The comparison of two halves is the comparison of the products.\<close>

lemma scaledGreaterOrEqual_iff:
  "scaledGreaterOrEqual l ls r rs \<longleftrightarrow> unat r * unat rs \<le> unat l * unat ls"
proof -
  have "(if a div M \<noteq> b div M then b div M < a div M else b mod M \<le> a mod M) \<longleftrightarrow> b \<le> a" if "0 < M" for a b M :: nat
  proof (cases "a div M = b div M")
    case True
    have "a = b div M * M + a mod M" "b = b div M * M + b mod M" using True by (metis div_mult_mod_eq)+
    then show ?thesis using True by (metis nat_add_left_cancel_le)
  next
    case False
    then show ?thesis using div_le_mono [of b a M] div_le_mono [of a b M] nat_le_linear [of a b] by auto
  qed
  from this [of "2 ^ 64" "unat l * unat ls" "unat r * unat rs"] show ?thesis
    unfolding scaledGreaterOrEqual_def Let_def by simp
qed

lemma nanoseconds_split:
  fixes v t :: nat
  assumes "0 < t"
  shows "v * 10 ^ 9 div t = v div t * 10 ^ 9 + v mod t * 10 ^ 9 div t"
proof -
  have "v * 10 ^ 9 = v mod t * 10 ^ 9 + t * (v div t * 10 ^ 9)"
    by (metis add.commute div_mult_mod_eq mult.assoc mult.commute add_mult_distrib)
  then show ?thesis using assms by (simp only: div_mult_self2 add.commute)
qed

lemma mult_u64:
  fixes a :: u64
  assumes "unat a * n < 2 ^ 64"
  shows "unat (a * of_nat n) = unat a * n"
proof -
  have "a * of_nat n = of_nat (unat a * n)" by simp
  then show ?thesis using unat_u64 [OF assms] by simp
qed

lemma timelineNanoseconds_exact:
  "timelineNanoseconds v t = (if t = 0 then Inl ''timeline timescale is zero''
     else if unat v * 10 ^ 9 div unat t < 2 ^ 64 then Inr (of_nat (unat v * 10 ^ 9 div unat t))
     else Inl ''timeline nanoseconds overflow'')"
proof (cases "t = 0")
  case False
  define V T where "V = unat v" and "T = unat t"
  define s r :: u64 where "s = v div ucast t" and "r = v mod ucast t"
  define f where "f = r * of_nat (10 ^ 9) div ucast t"
  have T: "0 < T" "T < 2 ^ 32" using False unsigned_less [of t] by (simp_all add: T_def unat_gt_0)
  have s: "unat s = V div T" "unat r = V mod T" by (simp_all add: unat_div unat_mod V_def T_def s_def r_def)
  have "unat r * 10 ^ 9 < 2 ^ 64" unfolding s using mod_less_divisor [OF T(1), of V] T(2) by simp
  then have f: "unat f = V mod T * 10 ^ 9 div T" unfolding f_def by (simp only: unat_div mult_u64 s unat_ucast_u32 T_def)
  have "unat ((- 1 :: u64) div of_nat (10 ^ 9)) = (2 ^ 64 - 1) div 10 ^ 9"
    unfolding unat_div max_u64 by (simp add: unat_u64)
  then have big: "s > (- 1) div of_nat (10 ^ 9) \<longleftrightarrow> V div T * 10 ^ 9 \<ge> 2 ^ 64"
    unfolding word_less_nat_alt s by simp arith
  note q = nanoseconds_split [OF T(1), of V]
  have def: "timelineNanoseconds v t = (if s > (- 1) div of_nat (10 ^ 9) then Inl ''timeline nanoseconds overflow''
      else if - 1 - s * of_nat (10 ^ 9) < f then Inl ''timeline nanoseconds overflow'' else Inr (s * of_nat (10 ^ 9) + f))"
    using False by (simp add: timelineNanoseconds_def Let_def s_def r_def f_def)
  show ?thesis
  proof (cases "V div T * 10 ^ 9 < 2 ^ 64")
    case True
    then have m: "unat (s * of_nat (10 ^ 9)) = V div T * 10 ^ 9" using mult_u64 [of s "10 ^ 9"] s(1) by simp
    have "- 1 - s * of_nat (10 ^ 9) < f \<longleftrightarrow> \<not> V * 10 ^ 9 div T < 2 ^ 64"
      using guard_ok [of "s * of_nat (10 ^ 9)" f] guarded_add [of "s * of_nat (10 ^ 9)" f] u64_less [of "s * of_nat (10 ^ 9) + f"]
      unfolding m f q by linarith
    moreover have "s * of_nat (10 ^ 9) + f = of_nat (V * 10 ^ 9 div T)"
      unfolding q of_nat_add m [symmetric] f [symmetric] u64_of_unat ..
    moreover have "\<not> s > (- 1) div of_nat (10 ^ 9)" using big True by simp
    ultimately show ?thesis unfolding def using False by (simp only: V_def T_def if_False if_not_P) (simp split: if_splits)
  next
    case no: False
    then have "\<not> V * 10 ^ 9 div T < 2 ^ 64" unfolding q by linarith
    moreover have "s > (- 1) div of_nat (10 ^ 9)" using big no by linarith
    ultimately show ?thesis unfolding def using False by (simp only: V_def T_def if_True if_False)
  qed
qed (simp add: timelineNanoseconds_def)

subsection \<open>The end of the audio\<close>

lemma audio_samples_first:
  assumes "audio_samples vs scale e ss t c = Inr (k, reached, t')"
  shows "\<exists>n \<le> length ss. k = c + n \<and> unat t' = unat t + durations (take n ss)
    \<and> (\<forall>j. 0 < j \<and> j < n \<longrightarrow> (unat t + durations (take j ss)) * unat vs < unat e * unat scale)
    \<and> (if reached then 0 < n \<and> unat e * unat scale \<le> unat t' * unat vs
       else n = length ss \<and> (0 < n \<longrightarrow> unat t' * unat vs < unat e * unat scale))"
  using assms
proof (induction ss arbitrary: t c)
  case (Cons s ss)
  have g: "\<not> - 1 - t < ucast (sm_duration s)" using Cons.prems by (auto split: if_splits)
  let ?t = "t + ucast (sm_duration s)"
  have t: "unat ?t = unat t + unat (sm_duration s)" using guarded_add [OF g] by simp
  show ?case
  proof (cases "scaledGreaterOrEqual ?t vs e scale")
    case True
    then show ?thesis using Cons.prems g t
      by (intro exI [of _ 1]) (auto simp: scaledGreaterOrEqual_iff Let_def)
  next
    case False
    then have "audio_samples vs scale e ss ?t (c + 1) = Inr (k, reached, t')" using Cons.prems g by (simp add: Let_def)
    from Cons.IH [OF this] obtain n where n: "n \<le> length ss" "k = c + 1 + n" "unat t' = unat ?t + durations (take n ss)"
      "\<forall>j. 0 < j \<and> j < n \<longrightarrow> (unat ?t + durations (take j ss)) * unat vs < unat e * unat scale"
      "if reached then 0 < n \<and> unat e * unat scale \<le> unat t' * unat vs
       else n = length ss \<and> (0 < n \<longrightarrow> unat t' * unat vs < unat e * unat scale)" by blast
    have "(unat t + durations (take j (s # ss))) * unat vs < unat e * unat scale" if "0 < j" "j < Suc n" for j
      using that n(4) False t by (cases j; cases "j = 1") (auto simp: scaledGreaterOrEqual_iff not_le add.assoc)
    moreover have "if reached then 0 < Suc n \<and> unat e * unat scale \<le> unat t' * unat vs
       else Suc n = length (s # ss) \<and> (0 < Suc n \<longrightarrow> unat t' * unat vs < unat e * unat scale)"
      using n(3,5) False t by (auto simp: scaledGreaterOrEqual_iff not_le split: if_splits)
    ultimately show ?thesis using n(1-3) t by (intro exI [of _ "Suc n"]) simp
  qed
qed simp

text \<open>The same over the runs of a fragment; \<open>reach\<close> says what it is for a sample to reach the end of the video.\<close>

definition reach :: "u32 \<Rightarrow> u32 \<Rightarrow> u64 \<Rightarrow> nat \<Rightarrow> bool" where
  "reach videoScale scale videoEnd t \<longleftrightarrow> unat videoEnd * unat scale \<le> t * unat videoScale"

definition first_reach :: "u32 \<Rightarrow> u32 \<Rightarrow> u64 \<Rightarrow> nat \<Rightarrow> mp4Sample list \<Rightarrow> nat \<Rightarrow> bool \<Rightarrow> bool" where
  "first_reach vs scale e t ss n reached \<longleftrightarrow> n \<le> length ss
     \<and> (\<forall>j. 0 < j \<and> j < n \<longrightarrow> \<not> reach vs scale e (t + durations (take j ss)))
     \<and> (if reached then 0 < n \<and> reach vs scale e (t + durations (take n ss))
        else n = length ss \<and> (0 < n \<longrightarrow> \<not> reach vs scale e (t + durations (take n ss))))"

lemma first_reach_append:
  assumes "first_reach vs scale e t ss n reached" and "ss \<noteq> []"
    and "\<not> reached \<Longrightarrow> first_reach vs scale e (t + durations ss) ss' n' reached'"
  shows "first_reach vs scale e t (ss @ ss') (if reached then n else length ss + n') (reached \<or> reached')"
proof (cases reached)
  case True
  then show ?thesis using assms(1) by (auto simp: first_reach_def)
next
  case False
  have n: "n = length ss" "\<not> reach vs scale e (t + durations ss)"
    "\<forall>j. 0 < j \<and> j < length ss \<longrightarrow> \<not> reach vs scale e (t + durations (take j ss))"
    using assms(1,2) False by (auto simp: first_reach_def)
  note n' = assms(3) [OF False, unfolded first_reach_def]
  have "\<not> reach vs scale e (t + durations (take j (ss @ ss')))" if "0 < j" "j < length ss + n'" for j
  proof (cases "j \<le> length ss")
    case True
    then show ?thesis using n that by (cases "j = length ss") auto
  next
    case j: False
    then show ?thesis using n' that by (auto simp: add.assoc)
  qed
  then show ?thesis using n' n(2) False by (auto simp: first_reach_def add.assoc split: if_splits)
qed

lemma audio_samples_first_reach:
  assumes "audio_samples vs scale e ss t c = Inr (k, reached, t')"
  shows "c \<le> k \<and> first_reach vs scale e (unat t) ss (k - c) reached \<and> unat t' = unat t + durations (take (k - c) ss)"
  using audio_samples_first [OF assms] by (auto simp: first_reach_def reach_def not_le split: if_splits)

lemma audio_runs_first_reach:
  assumes "audio_runs vs scale e runs t c = Inr (k, reached, t')"
  shows "c \<le> k \<and> first_reach vs scale e (unat t) (run_samples runs) (k - c) reached
    \<and> unat t' = unat t + durations (take (k - c) (run_samples runs))"
  using assms
proof (induction runs arbitrary: t c)
  case (Cons run runs)
  from Cons.prems obtain k1 reached1 t1 where 1: "rn_samples run \<noteq> []"
    "audio_samples vs scale e (rn_samples run) t c = Inr (k1, reached1, t1)"
    by (auto split: if_splits)
  note f = audio_samples_first_reach [OF 1(2)]
  show ?case
  proof (cases reached1)
    case True
    then have "k = k1" "reached" "t' = t1" using Cons.prems 1 by auto
    moreover have "k1 - c \<le> length (rn_samples run)" using f by (simp add: first_reach_def)
    ultimately show ?thesis using f True first_reach_append [of vs scale e "unat t" "rn_samples run" "k1 - c" True "run_samples runs"] 1(1)
      by auto
  next
    case False
    then have r: "audio_runs vs scale e runs t1 k1 = Inr (k, reached, t')" using Cons.prems 1 by auto
    have n: "k1 - c = length (rn_samples run)" using f False by (simp add: first_reach_def)
    have t1: "unat t1 = unat t + durations (rn_samples run)" using f n by simp
    note g = Cons.IH [OF r]
    have "c \<le> k1" "k1 \<le> k" using f g by simp_all
    then have e: "k - c = length (rn_samples run) + (k - k1)" using n by arith
    have "first_reach vs scale e (unat t) (rn_samples run) (k1 - c) False" using f False by simp
    then have "first_reach vs scale e (unat t) (rn_samples run @ run_samples runs) (length (rn_samples run) + (k - k1)) reached"
      using first_reach_append [of vs scale e "unat t" "rn_samples run" "k1 - c" False "run_samples runs" "k - k1" reached] 1(1) g t1
      by simp
    moreover have "durations (take (k - c) (run_samples (run # runs))) = durations (rn_samples run) + durations (take (k - k1) (run_samples runs))"
      unfolding e by simp
    ultimately show ?thesis using f g \<open>c \<le> k1\<close> unfolding e [symmetric] t1 by simp
  qed
qed (simp add: first_reach_def)

lemma findAudioSplit_first:
  assumes "findAudioSplitSampleCount vs f e = Inr (k, reached)"
  shows "first_reach vs (fr_timescale f) e (unat (fr_decodeTime f)) (frag_samples f) k reached"
  using assms audio_runs_first_reach [of vs "fr_timescale f" e "fr_runs f" "fr_decodeTime f" 0 k]
  by (auto simp: findAudioSplitSampleCount_def frag_samples_def split: if_splits)

subsection \<open>A reset\<close>

lemma SeekReset_fresh:
  assumes "0 < rd_segmentSeconds r" and "0 \<le> rd_segmentDiff r"
  shows "SeekReset r seconds = (Mp4BoxReader (Some (rd_segmentSeconds r)) (rd_segmentDiff r) (rd_cueMode r))
    \<lparr>rd_tfdtOffsetSeconds := (case seconds of None \<Rightarrow> 0 | Some s \<Rightarrow> max s 0), rd_inits := rd_inits r, rd_segments := rd_segments r\<rparr>"
  using assms by (cases r; cases seconds)
    (simp_all add: SeekReset_def Mp4BoxReader_def resetBoxState_def resetPrefix_def clearFragments_def clearSource_def max_def)

end
