(* ===== verification/Mp4Stream.thy ===== *)
theory Mp4Stream
  imports Mp4Time
begin

text \<open>
  The reader as a consumer of a stream: how the stream is cut into chunks does not matter, and a chunk
  that completes no segment is consumed whole.
\<close>

unbundle bit_operations_syntax

subsection \<open>Chunks\<close>

text \<open>Between two bytes the header of a box is incomplete, or the box has bytes left.\<close>

definition stream_ok :: "mp4BoxReader \<Rightarrow> bool" where
  "stream_ok r \<longleftrightarrow> length (rd_boxHeader r) < rd_boxHeaderRequired r \<or> rd_currentBoxRemaining r \<noteq> 0"

lemma finish_box_stream: "finish_box r = Inr (b, r') \<Longrightarrow> stream_ok r'"
  by (auto simp: finish_box_def stream_ok_def resetBoxState_def)

lemma header_read_stream:
  assumes "header_read r = Inr (b, r')" and "length (rd_boxHeader r) = rd_boxHeaderRequired r"
  shows "stream_ok r'"
proof (cases "rd_boxHeaderRequired r = 8 \<and> Uint32 (rd_boxHeader r) = 1")
  case True
  then show ?thesis using assms by (auto simp: header_read_def stream_ok_def)
next
  case False
  then have "\<exists>r1. (if rd_currentBoxRemaining r1 = 0 then finish_box r1 else Inr (False, r1)) = Inr (b, r')"
    using assms(1) by (auto simp: header_read_def Let_def split: if_splits)
  then obtain r1 where r1: "(if rd_currentBoxRemaining r1 = 0 then finish_box r1 else Inr (False, r1)) = Inr (b, r')" ..
  show ?thesis
  proof (cases "rd_currentBoxRemaining r1 = 0")
    case True
    then show ?thesis using r1 finish_box_stream [of r1] by simp
  next
    case False
    then show ?thesis using r1 by (simp add: stream_ok_def)
  qed
qed

lemma writeCurrentBoxData_append:
  "writeCurrentBoxData r (xs @ ys) = writeCurrentBoxData (writeCurrentBoxData r xs) ys"
  by (simp add: writeCurrentBoxData_def split: boxTarget.split)

lemma writeCurrentBoxData_frame [simp]:
  "rd_currentBoxRemaining (writeCurrentBoxData r xs) = rd_currentBoxRemaining r"
  "rd_boxHeader (writeCurrentBoxData r xs) = rd_boxHeader r"
  "rd_boxHeaderRequired (writeCurrentBoxData r xs) = rd_boxHeaderRequired r"
  "rd_currentTarget (writeCurrentBoxData r xs) = rd_currentTarget r"
  by (simp_all add: writeCurrentBoxData_def split: boxTarget.split)

lemma writeCurrentBoxData_update:
  "writeCurrentBoxData (r\<lparr>rd_currentBoxRemaining := n\<rparr>) xs = (writeCurrentBoxData r xs)\<lparr>rd_currentBoxRemaining := n\<rparr>"
  by (simp add: writeCurrentBoxData_def split: boxTarget.split)

lemma processBytes_Nil: "processBytes r [] p = Inr (p, False, r)"
  by (subst processBytes.simps) simp

text \<open>The two ways to go on, and what a chunk does that ends within them.\<close>

lemma processBytes_header:
  assumes "length (rd_boxHeader r) < rd_boxHeaderRequired r" and "k = rd_boxHeaderRequired r - length (rd_boxHeader r)"
  shows "length xs < k \<Longrightarrow> processBytes r xs p = Inr (p + length xs, False, r\<lparr>rd_boxHeader := rd_boxHeader r @ xs\<rparr>)"
    and "k \<le> length xs \<Longrightarrow> processBytes r xs p = chain (header_read (r\<lparr>rd_boxHeader := rd_boxHeader r @ take k xs\<rparr>))
      (\<lambda>(completed, r'). if completed then Inr (p + k, True, r') else processBytes r' (drop k xs) (p + k))"
proof -
  show "processBytes r xs p = Inr (p + length xs, False, r\<lparr>rd_boxHeader := rd_boxHeader r @ xs\<rparr>)" if "length xs < k"
    using that assms by (subst processBytes.simps) (auto simp: Let_def)
  show "processBytes r xs p = chain (header_read (r\<lparr>rd_boxHeader := rd_boxHeader r @ take k xs\<rparr>))
      (\<lambda>(completed, r'). if completed then Inr (p + k, True, r') else processBytes r' (drop k xs) (p + k))" if "k \<le> length xs"
    using that assms by (subst processBytes.simps) (auto simp: Let_def min_def)
qed

definition body_step :: "mp4BoxReader \<Rightarrow> byte list \<Rightarrow> mp4BoxReader" where
  "body_step r xs = (writeCurrentBoxData r xs)\<lparr>rd_currentBoxRemaining := rd_currentBoxRemaining r - of_nat (length xs)\<rparr>"

lemma body_step_append: "body_step r (xs @ ys) = body_step (body_step r xs) ys"
  by (simp add: body_step_def writeCurrentBoxData_append writeCurrentBoxData_update algebra_simps)

lemma processBytes_body:
  assumes "\<not> length (rd_boxHeader r) < rd_boxHeaderRequired r" and "k = unat (rd_currentBoxRemaining r)" and "0 < k"
  shows "length xs < k \<Longrightarrow> processBytes r xs p = Inr (p + length xs, False, body_step r xs)"
    and "k \<le> length xs \<Longrightarrow> processBytes r xs p = chain (finish_box (body_step r (take k xs)))
      (\<lambda>(completed, r'). if completed then Inr (p + k, True, r') else processBytes r' (drop k xs) (p + k))"
proof -
  have nz: "rd_currentBoxRemaining r - of_nat n \<noteq> 0" if "n < k" for n
  proof
    assume "rd_currentBoxRemaining r - of_nat n = 0"
    then have "rd_currentBoxRemaining r = of_nat n" by simp
    moreover have "n < 2 ^ 64" using that assms(2) u64_less [of "rd_currentBoxRemaining r"] by simp
    ultimately have "k = n" using assms(2) unat_u64 by simp
    then show False using that by simp
  qed
  have z: "rd_currentBoxRemaining r - of_nat k = 0" using assms(2) by simp
  show "processBytes r xs p = Inr (p + length xs, False, body_step r xs)" if "length xs < k"
  proof (cases "xs = []")
    case True
    then show ?thesis by (simp add: processBytes_Nil body_step_def writeCurrentBoxData_def)
  next
    case False
    then show ?thesis using that assms nz [OF that]
      by (subst processBytes.simps) (simp add: Let_def body_step_def processBytes_Nil)
  qed
  show "processBytes r xs p = chain (finish_box (body_step r (take k xs)))
      (\<lambda>(completed, r'). if completed then Inr (p + k, True, r') else processBytes r' (drop k xs) (p + k))" if "k \<le> length xs"
  proof -
    have rem: "rd_currentBoxRemaining r = of_nat k" and u: "unat (of_nat k :: u64) = k" using assms(2) by simp_all
    have "min (length xs) k = k" "xs \<noteq> []" using that assms(3) by auto
    then show ?thesis using assms(1,3) that by (subst processBytes.simps) (simp add: rem u Let_def body_step_def)
  qed
qed

text \<open>A chunk that ends within a header or a body goes on with the next chunk as if there had been no boundary.\<close>

lemma processBytes_header_split:
  assumes "length (rd_boxHeader r) < rd_boxHeaderRequired r" and "length xs < rd_boxHeaderRequired r - length (rd_boxHeader r)"
  shows "processBytes r (xs @ ys) p = processBytes (r\<lparr>rd_boxHeader := rd_boxHeader r @ xs\<rparr>) ys (p + length xs)"
proof -
  let ?r = "r\<lparr>rd_boxHeader := rd_boxHeader r @ xs\<rparr>"
  obtain j where j: "length xs + j = rd_boxHeaderRequired r - length (rd_boxHeader r)" using assms(2) by (metis less_imp_add_positive)
  then have l: "length (rd_boxHeader ?r) < rd_boxHeaderRequired ?r" "j = rd_boxHeaderRequired ?r - length (rd_boxHeader ?r)"
    using assms by auto
  show ?thesis
  proof (cases "length ys < j")
    case True
    then have "length (xs @ ys) < length xs + j" by simp
    then show ?thesis using processBytes_header(1) [OF assms(1) j] processBytes_header(1) [OF l True] by (simp add: add.assoc)
  next
    case False
    then have f: "length xs + j \<le> length (xs @ ys)" "j \<le> length ys" by simp_all
    have e: "take (length xs + j) (xs @ ys) = xs @ take j ys" "drop (length xs + j) (xs @ ys) = drop j ys"
      "p + (length xs + j) = p + length xs + j" by simp_all
    show ?thesis unfolding processBytes_header(2) [OF assms(1) j f(1)] processBytes_header(2) [OF l f(2)] e by simp
  qed
qed

lemma processBytes_body_split:
  assumes "\<not> length (rd_boxHeader r) < rd_boxHeaderRequired r" and "length xs < unat (rd_currentBoxRemaining r)"
  shows "processBytes r (xs @ ys) p = processBytes (body_step r xs) ys (p + length xs)"
proof -
  let ?r = "body_step r xs"
  obtain j where j: "0 < j" "length xs + j = unat (rd_currentBoxRemaining r)" using assms(2) by (metis less_imp_add_positive)
  have l: "\<not> length (rd_boxHeader ?r) < rd_boxHeaderRequired ?r" using assms(1) by (simp add: body_step_def)
  have "rd_currentBoxRemaining r = of_nat (length xs + j)" unfolding j(2) by simp
  then have "rd_currentBoxRemaining ?r = of_nat j" by (simp add: body_step_def)
  moreover have "j < 2 ^ 64" using j(2) u64_less [of "rd_currentBoxRemaining r"] by simp
  ultimately have k: "j = unat (rd_currentBoxRemaining ?r)" using unat_u64 by metis
  have p: "0 < length xs + j" using j(1) by simp
  show ?thesis
  proof (cases "length ys < j")
    case True
    then have "length (xs @ ys) < length xs + j" by simp
    then show ?thesis using processBytes_body(1) [OF assms(1) j(2) p] processBytes_body(1) [OF l k j(1) True]
      by (simp add: body_step_append add.assoc)
  next
    case False
    then have f: "length xs + j \<le> length (xs @ ys)" "j \<le> length ys" by simp_all
    have e: "take (length xs + j) (xs @ ys) = xs @ take j ys" "drop (length xs + j) (xs @ ys) = drop j ys"
      by simp_all
    show ?thesis unfolding processBytes_body(2) [OF assms(1) j(2) p f(1)] processBytes_body(2) [OF l k j(1) f(2)] e
      body_step_append add.assoc ..
  qed
qed

lemma processBytes_append:
  assumes "stream_ok r"
  shows "processBytes r (xs @ ys) p = chain (processBytes r xs p)
    (\<lambda>(p', completed, r'). if completed then Inr (p', True, r') else processBytes r' ys p')"
  using assms
proof (induction xs arbitrary: r p rule: length_induct)
  case (1 xs)
  note IH = this(1) [rule_format] and ok = this(2)
  show ?case
  proof (cases "length (rd_boxHeader r) < rd_boxHeaderRequired r")
    case h: True
    let ?k = "rd_boxHeaderRequired r - length (rd_boxHeader r)"
    show ?thesis
    proof (cases "length xs < ?k")
      case True
      then show ?thesis using processBytes_header_split [OF h True] processBytes_header(1) [OF h refl True] by simp
    next
      case False
      then have k: "?k \<le> length xs" "?k \<le> length (xs @ ys)" "length (drop ?k xs) < length xs" using h by auto
      let ?m = "header_read (r\<lparr>rd_boxHeader := rd_boxHeader r @ take ?k xs\<rparr>)"
      have "stream_ok r'" if "?m = Inr (b, r')" for b r' using that k(1) h by (intro header_read_stream) auto
      then show ?thesis using IH [OF k(3)] k
        unfolding processBytes_header(2) [OF h refl k(1)] processBytes_header(2) [OF h refl k(2)] by (cases ?m) auto
    qed
  next
    case b: False
    let ?k = "unat (rd_currentBoxRemaining r)"
    have p: "0 < ?k" using ok b by (simp add: stream_ok_def unat_gt_0)
    show ?thesis
    proof (cases "length xs < ?k")
      case True
      then show ?thesis using processBytes_body_split [OF b True] processBytes_body(1) [OF b refl p True] by simp
    next
      case False
      then have k: "?k \<le> length xs" "?k \<le> length (xs @ ys)" "length (drop ?k xs) < length xs" using p by auto
      let ?m = "finish_box (body_step r (take ?k xs))"
      show ?thesis using IH [OF k(3)] k finish_box_stream
        unfolding processBytes_body(2) [OF b refl p k(1)] processBytes_body(2) [OF b refl p k(2)] by (cases ?m) auto
    qed
  qed
qed

text \<open>A chunk that completes no segment is consumed whole.\<close>

lemma processBytes_consumes:
  assumes "stream_ok r" and "processBytes r xs p = Inr (p', completed, r')"
  shows "stream_ok r' \<and> p' \<le> p + length xs \<and> (\<not> completed \<longrightarrow> p' = p + length xs)"
  using assms
proof (induction xs arbitrary: r p rule: length_induct)
  case (1 xs)
  note IH = this(1) [rule_format] and ok = this(2) and run = this(3)
  have go: ?case if k: "0 < k" "k \<le> length xs" and m: "\<And>b r1. m = Inr (b, r1) \<Longrightarrow> stream_ok r1"
    and e: "chain m (\<lambda>(completed, r'). if completed then Inr (p + k, True, r') else processBytes r' (drop k xs) (p + k))
      = Inr (p', completed, r')" for k m
  proof -
    obtain b r1 where b: "m = Inr (b, r1)" using e by auto
    show ?thesis
    proof (cases b)
      case True
      then show ?thesis using e b m k by auto
    next
      case False
      then show ?thesis using e b m [OF b] k IH [of "drop k xs" r1 "p + k"] by auto
    qed
  qed
  show ?case
  proof (cases "length (rd_boxHeader r) < rd_boxHeaderRequired r")
    case h: True
    let ?k = "rd_boxHeaderRequired r - length (rd_boxHeader r)"
    show ?thesis
    proof (cases "length xs < ?k")
      case True
      then show ?thesis using run processBytes_header(1) [OF h refl True] by (auto simp: stream_ok_def)
    next
      case False
      then have k: "0 < ?k" "?k \<le> length xs" using h by auto
      have "stream_ok r1" if "header_read (r\<lparr>rd_boxHeader := rd_boxHeader r @ take ?k xs\<rparr>) = Inr (b, r1)" for b r1
        using that k h by (intro header_read_stream) auto
      from go [OF k this run [unfolded processBytes_header(2) [OF h refl k(2)]]] show ?thesis .
    qed
  next
    case b: False
    let ?k = "unat (rd_currentBoxRemaining r)"
    have p: "0 < ?k" using ok b by (simp add: stream_ok_def unat_gt_0)
    show ?thesis
    proof (cases "length xs < ?k")
      case True
      have "rd_currentBoxRemaining (body_step r xs) \<noteq> 0"
      proof
        assume "rd_currentBoxRemaining (body_step r xs) = 0"
        then have "rd_currentBoxRemaining r = of_nat (length xs)" by (simp add: body_step_def)
        then show False using True u64_less [of "rd_currentBoxRemaining r"] unat_u64 [of "length xs"] by simp
      qed
      then show ?thesis using run processBytes_body(1) [OF b refl p True] by (simp add: stream_ok_def)
    next
      case False
      then have k: "?k \<le> length xs" by simp
      from go [OF p k finish_box_stream run [unfolded processBytes_body(2) [OF b refl p k]]] show ?thesis .
    qed
  qed
qed

end
