(* ===== verification/Mp4Invariant.thy ===== *)
theory Mp4Invariant
  imports Mp4Stream
begin

text \<open>
  The invariant of the reader: the queued fragments are well formed, the fragment that waits for its payload is as it was
  parsed, and the payload that is being read lies in the buffer. Every operation keeps it.
\<close>

subsection \<open>Durations that become known\<close>

lemma sizes_le: "sizes ss \<le> length ss * (2 ^ 32 - 1)"
proof (induction ss)
  case (Cons s ss)
  have "unat (sm_size s) < 2 ^ 32" using unsigned_less [of "sm_size s"] by simp
  with Cons show ?case by simp
qed simp

lemma small_bounds:
  assumes "small f"
  shows "sizes (frag_samples f) < 2 ^ 63" and "durations (frag_samples f) < 2 ^ 63"
proof -
  have "length (frag_samples f) * (2 ^ 32 - 1) < 2 ^ 63" using assms by (simp add: small_def)
  then show "sizes (frag_samples f) < 2 ^ 63" "durations (frag_samples f) < 2 ^ 63"
    using sizes_le [of "frag_samples f"] durations_le [of "frag_samples f"] by linarith+
qed

lemma last_inferred_split:
  assumes "last_inferred runs = Some (earlier, run, later)"
  shows "runs = earlier @ run # later"
proof -
  let ?P = "\<lambda>run. \<not> rn_hasInferredDuration run"
  have "dropWhile ?P (rev runs) = run # rev earlier" "later = rev (takeWhile ?P (rev runs))"
    using assms by (auto simp: last_inferred_def Let_def split: list.splits)
  then have "rev runs = rev later @ run # rev earlier" by (metis rev_rev_ident takeWhile_dropWhile_id)
  then show ?thesis by (metis append.assoc append_Cons append_Nil rev.simps(2) rev_append rev_rev_ident)
qed

definition last_duration :: "mp4Sample list \<Rightarrow> u32 \<Rightarrow> mp4Sample list" where
  "last_duration ss d = butlast ss @ [(last ss)\<lparr>sm_duration := d\<rparr>]"

lemma last_duration_simps:
  assumes "ss \<noteq> []"
  shows "sizes (last_duration ss d) = sizes ss" "length (last_duration ss d) = length ss"
    "durations (last_duration ss d) + unat (sm_duration (last ss)) = durations ss + unat d"
    "sm_flags (hd (last_duration ss d)) = sm_flags (hd ss)"
    "(\<forall>s \<in> set (last_duration ss d). sm_compositionTimeOffsetRaw s = 0) \<longleftrightarrow> (\<forall>s \<in> set ss. sm_compositionTimeOffsetRaw s = 0)"
proof -
  obtain ys y where ss: "ss = ys @ [y]" using assms by (cases ss rule: rev_cases) auto
  show "sizes (last_duration ss d) = sizes ss" "length (last_duration ss d) = length ss"
    "durations (last_duration ss d) + unat (sm_duration (last ss)) = durations ss + unat d"
    "sm_flags (hd (last_duration ss d)) = sm_flags (hd ss)"
    "(\<forall>s \<in> set (last_duration ss d). sm_compositionTimeOffsetRaw s = 0) \<longleftrightarrow> (\<forall>s \<in> set ss. sm_compositionTimeOffsetRaw s = 0)"
    by (simp_all add: ss last_duration_def hd_append)
qed

lemma exact_duration:
  fixes d old new :: u64
  assumes "unat d = m + unat old" and "m + unat new < 2 ^ 64"
  shows "unat (d - old + new) = m + unat new"
proof -
  have "d = of_nat (m + unat old)" using assms(1) by (metis u64_of_unat)
  then have "d - old + new = of_nat (m + unat new)" by simp
  then show ?thesis using unat_u64 [OF assms(2)] by simp
qed

abbreviation cleared :: "mp4Run \<Rightarrow> mp4Run" where
  "cleared run \<equiv> run\<lparr>rn_hasInferredDuration := False\<rparr>"

lemma cleared_simps [simp]:
  "run_ok (cleared run) = run_ok run" "list_all run_ok (map cleared runs) = list_all run_ok runs"
  "run_samples (map cleared runs) = run_samples runs" "laid n (map cleared runs) e = laid n runs e"
proof -
  show r: "run_ok (cleared run) = run_ok run" for run by (simp add: run_ok_def)
  show "list_all run_ok (map cleared runs) = list_all run_ok runs" by (simp add: list_all_iff r)
  show "run_samples (map cleared runs) = run_samples runs" by (induction runs) simp_all
  show "laid n (map cleared runs) e = laid n runs e" by (induction runs arbitrary: n) simp_all
qed

lemma resolve_duration_parts:
  assumes "resolve_duration previous current = Inr (x, f)"
  obtains earlier run later where "fr_runs previous = earlier @ run # later" "rn_samples run \<noteq> []" "unat x < 2 ^ 32"
    "f = previous\<lparr>fr_runs := map cleared (earlier @ run\<lparr>rn_samples := last_duration (rn_samples run) (ucast x),
         rn_duration := rn_duration run - ucast (sm_duration (last (rn_samples run))) + x\<rparr> # later),
       fr_duration := fr_duration previous - ucast (sm_duration (last (rn_samples run))) + x, fr_hasInferredDuration := False\<rparr>"
proof -
  obtain earlier run later where l: "last_inferred (fr_runs previous) = Some (earlier, run, later)"
    using assms by (auto simp: resolve_duration_def split: option.splits)
  note a = assms [unfolded resolve_duration_def l option.case prod.case Let_def if_Inl_Inr sum.inject prod.inject]
  have "\<not> x > 2 ^ 32 - 1" using a by blast
  then have "unat x < 2 ^ 32" by (simp add: word_less_nat_alt not_less)
  moreover have "rn_samples run \<noteq> []" using a by blast
  ultimately show ?thesis using a last_inferred_split [OF l] by (intro that [of earlier run later]) (auto simp: last_duration_def)
qed

lemma durations_le_part: "fr_runs f = earlier @ run # later \<Longrightarrow> durations (rn_samples run) \<le> durations (frag_samples f)"
  by (simp add: frag_samples_def)

lemma resolve_duration_ok:
  assumes "resolve_duration previous current = Inr (x, f)" and "frag_ok st previous" and "small previous"
  shows "frag_ok st f \<and> small f \<and> fr_trackID f = fr_trackID previous \<and> fr_timescale f = fr_timescale previous"
  using assms(1)
proof (cases rule: resolve_duration_parts)
  case (1 earlier run later)
  let ?ss = "rn_samples run" and ?x = "ucast x :: u32"
  let ?old = "ucast (sm_duration (last ?ss)) :: u64"
  define run' where "run' = run\<lparr>rn_samples := last_duration ?ss ?x, rn_duration := rn_duration run - ?old + x\<rparr>"
  note ld = last_duration_simps [OF 1(2), of ?x]
  have p: "parsed_ok previous" "laid 0 (fr_runs previous) (fr_payloadLen previous)" using assms(2) by (simp_all add: frag_ok_def)
  have f: "f = previous\<lparr>fr_runs := map cleared (earlier @ run' # later), fr_duration := fr_duration previous - ?old + x,
      fr_hasInferredDuration := False\<rparr>" using 1(4) by (simp add: run'_def)
  have x: "unat ?x = unat x" using 1(3) by (simp add: unsigned_ucast_eq take_bit_nat_eq_self)
  have runs: "list_all run_ok earlier" "run_ok run" "list_all run_ok later" using p(1) by (simp_all add: parsed_ok_def 1(1))
  have b: "durations ?ss < 2 ^ 63" using durations_le_part [OF 1(1)] small_bounds(2) [OF assms(3)] by simp
  have m: "durations (last_duration ?ss ?x) + unat (sm_duration (last ?ss)) = durations ?ss + unat x" using ld(3) x by simp
  have o: "unat (sm_duration (last ?ss)) \<le> durations ?ss" using 1(2) by (cases ?ss rule: rev_cases) auto
  have dur: "unat (d - ?old + x) = n - unat (sm_duration (last ?ss)) + unat x"
    if "unat d = n" "n < 2 ^ 63" "unat (sm_duration (last ?ss)) \<le> n" for d n
    using that 1(3) by (intro exact_duration) simp_all
  have "unat (rn_duration run') = durations (last_duration ?ss ?x)"
    using dur [of "rn_duration run" "durations ?ss"] runs(2) b o m by (simp add: run'_def run_ok_def)
  then have r': "run_ok run'" using runs(2) ld 1(2) by (auto simp: run_ok_def run'_def)
  have fs: "frag_samples previous = run_samples earlier @ ?ss @ run_samples later"
    "frag_samples f = run_samples earlier @ last_duration ?ss ?x @ run_samples later"
    by (simp_all add: frag_samples_def 1(1) f run'_def)
  have "unat (sm_duration (last ?ss)) \<le> durations (frag_samples previous)" unfolding fs(1) using o by simp
  with p(1) small_bounds(2) [OF assms(3)]
  have "unat (fr_duration previous - ?old + x) = durations (frag_samples previous) - unat (sm_duration (last ?ss)) + unat x"
    by (intro dur) (simp_all add: parsed_ok_def)
  also have "\<dots> = durations (frag_samples f)" unfolding fs sizes_simps using m o by linarith
  finally have d: "unat (fr_duration f) = durations (frag_samples f)" by (simp add: f)
  have hd: "rn_startsWithSync (hd (fr_runs f)) = rn_startsWithSync (hd (fr_runs previous))"
    by (cases earlier) (simp_all add: f 1(1) run'_def)
  have "parsed_ok f" using p(1) runs r' d hd unfolding parsed_ok_def by (simp add: f)
  moreover have "laid 0 (fr_runs f) (fr_payloadLen f)"
    using p(2) ld(1) by (simp add: f 1(1) laid_append run'_def)
  ultimately have "frag_ok st f" using assms(2) by (simp add: frag_ok_def f)
  moreover have "small f" using assms(3) ld(2) by (simp add: small_def fs)
  ultimately show ?thesis by (simp add: f)
qed

subsection \<open>The invariant\<close>

definition core_ok :: "mp4BoxReader \<Rightarrow> bool" where
  "core_ok r \<longleftrightarrow> queues_ok r \<and> list_all small (rd_video r) \<and> list_all small (rd_audio r)
     \<and> (\<forall>f. rd_pending r = Some f \<longrightarrow> parsed_from (rd_videoTrack r) (rd_audioTrack r) f)
     \<and> 0 \<le> rd_currentPayloadStart r \<and> rd_currentPayloadStart r \<le> int (length (rd_sourcePayload r))
     \<and> (\<not> rd_initDone r \<longrightarrow> rd_video r = [] \<and> rd_audio r = [] \<and> rd_pending r = None
         \<and> rd_videoTrack r = no_track \<and> rd_audioTrack r = no_track)"

text \<open>The part of the state the invariant speaks of.\<close>

definition same_core :: "mp4BoxReader \<Rightarrow> mp4BoxReader \<Rightarrow> bool" where
  "same_core r r' \<longleftrightarrow> rd_sourcePayload r' = rd_sourcePayload r \<and> rd_video r' = rd_video r \<and> rd_audio r' = rd_audio r
     \<and> rd_pending r' = rd_pending r \<and> rd_videoTrack r' = rd_videoTrack r \<and> rd_audioTrack r' = rd_audioTrack r
     \<and> rd_currentPayloadStart r' = rd_currentPayloadStart r \<and> rd_initDone r' = rd_initDone r"

lemma ok_frame:
  assumes "rd_sourcePayload r' = rd_sourcePayload r" "rd_videoTrack r' = rd_videoTrack r" "rd_audioTrack r' = rd_audioTrack r"
  shows "video_ok r' = video_ok r" "audio_ok r' = audio_ok r"
  by (simp_all add: fun_eq_iff video_ok_def audio_ok_def assms)

lemma same_core_ok:
  assumes "same_core r r'" and "core_ok r"
  shows "core_ok r'"
proof -
  have "video_ok r' = video_ok r" "audio_ok r' = audio_ok r" using assms(1) by (auto simp: same_core_def intro!: ok_frame)
  then show ?thesis using assms by (simp add: core_ok_def same_core_def queues_ok_def)
qed

lemma core_ok_grows:
  assumes "core_ok r"
  shows "core_ok (r\<lparr>rd_sourcePayload := rd_sourcePayload r @ bs\<rparr>)"
proof -
  let ?r = "r\<lparr>rd_sourcePayload := rd_sourcePayload r @ bs\<rparr>"
  have "video_ok r f \<Longrightarrow> video_ok ?r f" "audio_ok r f \<Longrightarrow> audio_ok ?r f" for f
    by (auto simp: video_ok_def audio_ok_def intro: frag_ok_grows)
  then have "queues_ok ?r" using assms by (auto simp: core_ok_def queues_ok_def list_all_iff)
  then show ?thesis using assms by (auto simp: core_ok_def)
qed

lemma writeCurrentBoxData_ok:
  assumes "core_ok r"
  shows "core_ok (writeCurrentBoxData r xs)"
proof (cases "rd_currentTarget r = boxTargetPayload \<and> xs \<noteq> []")
  case True
  then show ?thesis using core_ok_grows [OF assms] by (simp add: writeCurrentBoxData_def)
next
  case False
  then have "same_core r (writeCurrentBoxData r xs)"
    by (cases "rd_currentTarget r") (auto simp: writeCurrentBoxData_def same_core_def)
  then show ?thesis using assms by (rule same_core_ok)
qed

lemma completeInit_ok:
  assumes "core_ok r" and "\<not> rd_initDone r" and "completeInit r = Inr r'"
  shows "core_ok r'"
  using assms by (auto simp: core_ok_def queues_ok_def completeInit_def split: if_splits)

lemma set_hint_core: "same_core r (set_hint b d t r)"
  by (simp add: same_core_def set_hint_def)

lemma learn_hint_core: "same_core r (learn_hint r f)"
  by (simp add: learn_hint_def Let_def set_hint_core) (simp add: same_core_def)

lemma list_all_butlast: "list_all P fs \<Longrightarrow> list_all P (butlast fs)"
  by (auto simp: list_all_iff dest: in_set_butlastD)

lemma resolved_video_ok:
  assumes "core_ok r" and "rd_video r \<noteq> []" and "resolve_duration (last (rd_video r)) current = Inr (x, f)"
  shows "core_ok (r\<lparr>rd_video := butlast (rd_video r) @ [f]\<rparr>)"
proof -
  have l: "video_ok r (last (rd_video r))" "small (last (rd_video r))"
    using assms(1,2) by (simp_all add: core_ok_def queues_ok_def list_all_iff)
  have f: "video_ok r f" "small f" using resolve_duration_ok [OF assms(3) _ l(2)] l(1) by (auto simp: video_ok_def)
  have "video_ok (r\<lparr>rd_video := fs\<rparr>) = video_ok r" "audio_ok (r\<lparr>rd_video := fs\<rparr>) = audio_ok r" for fs by (rule ok_frame; simp)+
  then show ?thesis using assms(1,2) f by (auto simp: core_ok_def queues_ok_def list_all_butlast)
qed

lemma resolved_audio_ok:
  assumes "core_ok r" and "rd_audio r \<noteq> []" and "resolve_duration (last (rd_audio r)) current = Inr (x, f)"
  shows "core_ok (r\<lparr>rd_audio := butlast (rd_audio r) @ [f]\<rparr>)"
proof -
  have l: "audio_ok r (last (rd_audio r))" "small (last (rd_audio r))"
    using assms(1,2) by (simp_all add: core_ok_def queues_ok_def list_all_iff)
  have f: "audio_ok r f" "small f" using resolve_duration_ok [OF assms(3) _ l(2)] l(1) by (auto simp: audio_ok_def)
  have "video_ok (r\<lparr>rd_audio := fs\<rparr>) = video_ok r" "audio_ok (r\<lparr>rd_audio := fs\<rparr>) = audio_ok r" for fs by (rule ok_frame; simp)+
  then show ?thesis using assms(1,2) f by (auto simp: core_ok_def queues_ok_def list_all_butlast)
qed

lemma resolvePrevious_ok:
  assumes "core_ok r" and "resolvePreviousInferredDuration r f = Inr r'"
  shows "core_ok r' \<and> rd_videoTrack r' = rd_videoTrack r \<and> rd_audioTrack r' = rd_audioTrack r \<and> rd_initDone r' = rd_initDone r"
proof -
  let ?v = "fr_trackID f = tk_id (rd_videoTrack r)"
  let ?fs = "if ?v then rd_video r else if fr_trackID f = tk_id (rd_audioTrack r) then rd_audio r else []"
  show ?thesis
  proof (cases "?fs = [] \<or> \<not> fr_hasInferredDuration (last ?fs)")
    case True
    then show ?thesis using assms by (simp add: resolvePreviousInferredDuration_def Let_def)
  next
    case False
    then obtain x g where g: "resolve_duration (last ?fs) f = Inr (x, g)"
      using assms(2) by (auto simp: resolvePreviousInferredDuration_def Let_def)
    let ?r = "if ?v then r\<lparr>rd_video := butlast (rd_video r) @ [g]\<rparr> else r\<lparr>rd_audio := butlast (rd_audio r) @ [g]\<rparr>"
    have "core_ok ?r"
      using False g resolved_video_ok [OF assms(1)] resolved_audio_ok [OF assms(1)] by (auto split: if_splits)
    moreover have "r' = (if x \<noteq> 0 then set_hint ?v (ucast x) (fr_timescale f) ?r else ?r)"
      using assms(2) False g by (auto simp: resolvePreviousInferredDuration_def Let_def split: if_splits)
    ultimately show ?thesis using same_core_ok [OF set_hint_core] by (auto simp: set_hint_def)
  qed
qed

definition pending_small :: "mp4BoxReader \<Rightarrow> bool" where
  "pending_small r \<longleftrightarrow> (\<forall>f. rd_pending r = Some f \<longrightarrow> small f)"

lemma no_track_parsed: "\<not> parsed_from no_track no_track f"
  by (auto simp: parsed_from_def parsed_ok_def track_of_def no_track_def)

lemma completeMoof_ok:
  assumes "core_ok r" and "completeMoof r = Inr r'"
  shows "core_ok r'"
proof -
  obtain f r1 where f: "parseSourceMoof (rd_sourceMoof r) (rd_videoTrack r) (rd_audioTrack r) (video_hint r) (audio_hint r) = Inr f"
    and r1: "resolvePreviousInferredDuration r f = Inr r1"
    and r': "r' = (learn_hint r1 f)\<lparr>rd_pending := Some f, rd_sourcePayloadFromMoof := int (length (rd_sourceMoof r))\<rparr>"
    using assms(2) by (auto simp: completeMoof_def)
  have p: "parsed_from (rd_videoTrack r) (rd_audioTrack r) f" by (rule parseSourceMoof_ok [OF f])
  note k = resolvePrevious_ok [OF assms(1) r1]
  have init: "rd_initDone r" using p no_track_parsed [of f] assms(1) by (auto simp: core_ok_def)
  let ?r = "r1\<lparr>rd_pending := Some f\<rparr>"
  have "video_ok ?r = video_ok r1" "audio_ok ?r = audio_ok r1" by (rule ok_frame; simp)+
  then have "core_ok ?r" using k p init by (auto simp: core_ok_def queues_ok_def)
  moreover have "same_core ?r r'" using learn_hint_core [of r1 f] by (simp add: same_core_def r')
  ultimately show ?thesis using same_core_ok by blast
qed

lemma completeMdat_ok:
  assumes "core_ok r" and "pending_small r" and "completeMdat r = Inr r'"
  shows "core_ok r' \<and> rd_pending r' = None"
proof -
  obtain p f r1 where p: "rd_pending r = Some p"
    and f: "attachPayload p (rd_currentPayloadStart r) (int (length (rd_sourcePayload r)) - rd_currentPayloadStart r)
        (rd_sourcePayloadFromMoof r) = Inr f"
    and r1: "(if fr_trackID f = tk_id (rd_videoTrack r) then Inr (r\<lparr>rd_video := rd_video r @ [f]\<rparr>)
        else if tk_id (rd_audioTrack r) \<noteq> 0 \<and> fr_trackID f = tk_id (rd_audioTrack r) then Inr (r\<lparr>rd_audio := rd_audio r @ [f]\<rparr>)
        else Inl ''unsupported track_ID'') = Inr r1"
    and r': "r' = r1\<lparr>rd_pending := None, rd_sourcePayloadFromMoof := 0, rd_currentPayloadStart := 0, rd_sourceMoof := []\<rparr>"
    using assms(3) by (auto simp: completeMdat_def split: option.splits)
  have pf: "parsed_ok p" "track_of p (rd_videoTrack r) (rd_audioTrack r)" "small p" "rd_initDone r"
    using assms(1,2) p by (auto simp: core_ok_def parsed_from_def pending_small_def)
  note a = attachPayload_ok [OF f pf(1) small_bounds(1) [OF pf(3)], of "rd_sourcePayload r"]
  have s: "small f" using a(2) pf(3) by (simp add: small_def)
  have q: "queues_ok r" "list_all small (rd_video r)" "list_all small (rd_audio r)" using assms(1) by (simp_all add: core_ok_def)
  have fr: "video_ok (r\<lparr>rd_video := fs\<rparr>) = video_ok r" "audio_ok (r\<lparr>rd_video := fs\<rparr>) = audio_ok r"
    "video_ok (r\<lparr>rd_audio := fs\<rparr>) = video_ok r" "audio_ok (r\<lparr>rd_audio := fs\<rparr>) = audio_ok r" for fs by (rule ok_frame; simp)+
  have "queues_ok r1 \<and> list_all small (rd_video r1) \<and> list_all small (rd_audio r1)"
  proof (cases "fr_trackID f = tk_id (rd_videoTrack r)")
    case True
    then have "video_ok r f" using a pf(2) by (simp add: video_ok_def track_of_def)
    then show ?thesis using True r1 q s by (auto simp: queues_ok_def fr)
  next
    case False
    then have t: "tk_id (rd_audioTrack r) \<noteq> 0" "fr_trackID f = tk_id (rd_audioTrack r)" "r1 = r\<lparr>rd_audio := rd_audio r @ [f]\<rparr>"
      using r1 by (auto split: if_splits)
    then have "audio_ok r f" using False a pf(2) by (simp add: audio_ok_def track_of_def)
    then show ?thesis using t(3) q s by (simp add: queues_ok_def fr)
  qed
  moreover have "video_ok r' = video_ok r1" "audio_ok r' = audio_ok r1" by (rule ok_frame; simp add: r')+
  moreover have "rd_initDone r1" using r1 pf(4) by (auto split: if_splits)
  ultimately show ?thesis by (simp add: core_ok_def queues_ok_def r')
qed

lemma buildSegment_ok:
  assumes "core_ok r" and "buildSegment r n m single = Inr r'"
  shows "core_ok r' \<and> rd_pending r' = rd_pending r"
proof -
  note b = buildSegment_queues [OF assms(2)]
  have "queues_ok r'" using buildSegment_queues_ok [OF assms(2)] assms(1) by (simp add: core_ok_def)
  then show ?thesis using assms(1) by (auto simp: core_ok_def b intro: list_all_drop)
qed

lemma selectAudioCount_core:
  assumes "core_ok r" and "selectAudioCount r e = Inr (n, r')"
  shows "core_ok r' \<and> rd_pending r' = rd_pending r \<and> rd_video r' = rd_video r"
proof -
  have q: "queues_ok r" using assms(1) by (simp add: core_ok_def)
  note a = selectAudioCount_ok [OF assms(2) q]
  obtain audio where r': "r' = r\<lparr>rd_audio := audio\<rparr>" using a(1) by blast
  have "rd_audio r = [] \<Longrightarrow> rd_audio r' = []" using assms(2) by (auto simp: selectAudioCount_def)
  then show ?thesis using assms(1) a(2,6) by (auto simp: core_ok_def r')
qed

lemma tryBuildSegment_ok:
  assumes "core_ok r" and "tryBuildSegment r = Inr (b, r')"
  shows "core_ok r' \<and> rd_pending r' = rd_pending r"
  using assms(2)
proof (cases rule: tryBuildSegment_parts)
  case (both n m e r1)
  then show ?thesis using selectAudioCount_core [OF assms(1) both(5)] buildSegment_ok [of r1 n m False r'] by simp
next
  case (waits e m)
  then show ?thesis using selectAudioCount_core [OF assms(1)] by blast
next
  case (video n)
  then show ?thesis using buildSegment_ok [OF assms(1)] by blast
qed (simp add: assms(1))

subsection \<open>Boxes and bytes\<close>

text \<open>A box that begins leaves the fragment that waits for its payload alone.\<close>

definition keeps :: "mp4BoxReader \<Rightarrow> mp4BoxReader \<Rightarrow> bool" where
  "keeps r r' \<longleftrightarrow> (core_ok r \<longrightarrow> core_ok r') \<and> rd_pending r' = rd_pending r"

lemma keeps_trans: "keeps r r1 \<Longrightarrow> keeps r1 r' \<Longrightarrow> keeps r r'"
  by (simp add: keeps_def)

lemma keeps_core: "same_core r r' \<Longrightarrow> keeps r r'"
  using same_core_ok by (simp add: keeps_def same_core_def)

lemma writeCurrentBoxData_keeps: "keeps r r1 \<Longrightarrow> keeps r (writeCurrentBoxData r1 xs)"
  using writeCurrentBoxData_ok [of r1 xs] by (auto simp: keeps_def writeCurrentBoxData_def split: boxTarget.splits)

lemma payload_start_keeps:
  "keeps r (r\<lparr>rd_currentPayloadStart := int (length (rd_sourcePayload r)), rd_sourcePayloadFromMoof := n, rd_currentTarget := t\<rparr>)"
proof -
  let ?r = "r\<lparr>rd_currentPayloadStart := int (length (rd_sourcePayload r)), rd_sourcePayloadFromMoof := n, rd_currentTarget := t\<rparr>"
  have "video_ok ?r = video_ok r" "audio_ok ?r = audio_ok r" by (rule ok_frame; simp)+
  then show ?thesis by (simp add: keeps_def core_ok_def queues_ok_def)
qed

lemma if_Inr_elim: "(if c then x else y) = Inr z \<Longrightarrow> (x = Inr z \<Longrightarrow> P) \<Longrightarrow> (y = Inr z \<Longrightarrow> P) \<Longrightarrow> P"
  by (cases c) simp_all

lemma Inr_elim: "Inl e = Inr z \<Longrightarrow> P" "Inr x = Inr z \<Longrightarrow> (z = x \<Longrightarrow> P) \<Longrightarrow> P"
  by simp_all

lemma beginMedia_keeps: "beginMedia r sz n = Inr r' \<Longrightarrow> keeps r r'"
  unfolding beginMedia_def Let_def
  by (elim if_Inr_elim Inr_elim; hypsubst; rule payload_start_keeps writeCurrentBoxData_keeps [OF keeps_core] keeps_core;
      simp add: same_core_def)

lemma completeInit_keeps: "\<not> rd_initDone r \<Longrightarrow> completeInit r = Inr r' \<Longrightarrow> keeps r r'"
  using completeInit_ok [of r r'] by (auto simp: keeps_def completeInit_def split: if_splits)

lemma beginBox_keeps:
  assumes "beginBox r sz n = Inr r'"
  shows "keeps r r'"
proof -
  let ?t = "rd_currentBoxType r" and ?r = "r\<lparr>rd_currentBoxRemaining := sz - of_nat n, rd_currentTarget := boxTargetNone\<rparr>"
  obtain r1 where r1: "(if \<not> rd_initDone ?r \<and> (?t = boxStyp \<or> ?t = boxMoof) then completeInit ?r else Inr ?r) = Inr r1"
    and r': "(if rd_initDone r1 then beginMedia r1 sz n
      else if ?t = boxMdat then Inl ''mdat appeared before init was completed''
      else if ?t = boxMfra then Inl ''mfra appeared before init was completed''
      else Inr (writeCurrentBoxData (r1\<lparr>rd_currentTarget := boxTargetInit\<rparr>) (take n (rd_boxHeader r1)))) = Inr r'"
    using assms unfolding beginBox_def Let_def by (auto split: if_splits)
  have "keeps r ?r" by (rule keeps_core) (simp add: same_core_def)
  moreover have "keeps ?r r1" using r1 completeInit_keeps [of ?r r1]
    by (auto simp: same_core_def intro!: keeps_core split: if_splits)
  moreover have "keeps r1 r'" using r'
    by (elim if_Inr_elim Inr_elim)
      (erule beginMedia_keeps, hypsubst, rule writeCurrentBoxData_keeps [OF keeps_core], simp add: same_core_def)
  ultimately show ?thesis using keeps_trans by blast
qed

lemma completeBox_ok:
  assumes "core_ok r" and "pending_small r" and "completeBox r = Inr (b, r')"
  shows "core_ok r'"
proof -
  consider "completeMoof r = Inr r'" | r1 where "completeMdat r = Inr r1" "tryBuildSegment r1 = Inr (b, r')" | "same_core r r'"
    using assms(3) unfolding completeBox_def Let_def by (auto simp: same_core_def split: if_splits)
  then show ?thesis
  proof cases
    case 1
    then show ?thesis using assms(1) completeMoof_ok by blast
  next
    case 2
    then show ?thesis using completeMdat_ok [OF assms(1,2)] tryBuildSegment_ok by blast
  next
    case 3
    then show ?thesis using assms(1) same_core_ok by blast
  qed
qed

lemma finish_box_ok:
  assumes "core_ok r" and "pending_small r" and "finish_box r = Inr (b, r')"
  shows "core_ok r'"
proof -
  obtain r1 where r1: "completeBox r = Inr (b, r1)" "r' = resetBoxState r1" using assms(3) by (auto simp: finish_box_def)
  have "same_core r1 r'" by (simp add: r1 same_core_def resetBoxState_def)
  then show ?thesis using completeBox_ok [OF assms(1,2) r1(1)] same_core_ok by blast
qed

lemma begun_ok:
  assumes "core_ok r" and "pending_small r" and "keeps r r1"
    and "(if rd_currentBoxRemaining r1 = 0 then finish_box r1 else Inr (False, r1)) = Inr (b, r')"
  shows "core_ok r'"
proof (cases "rd_currentBoxRemaining r1 = 0")
  case True
  then show ?thesis using assms finish_box_ok [of r1] by (simp add: keeps_def pending_small_def)
next
  case False
  then show ?thesis using assms by (simp add: keeps_def)
qed

lemma header_read_ok:
  assumes "core_ok r" and "pending_small r" and "header_read r = Inr (b, r')"
  shows "core_ok r'"
proof -
  let ?r = "r\<lparr>rd_currentBoxType := Uint32 (drop 4 (rd_boxHeader r))\<rparr>"
  have k: "keeps r ?r" by (rule keeps_core) (simp add: same_core_def)
  consider "same_core r r'"
    | r1 sz n where "beginBox ?r sz n = Inr r1 \<or> beginBox r sz n = Inr r1"
        "(if rd_currentBoxRemaining r1 = 0 then finish_box r1 else Inr (False, r1)) = Inr (b, r')"
    using assms(3) unfolding header_read_def Let_def
    by (cases "rd_boxHeaderRequired r = 8"; cases "Uint32 (rd_boxHeader r) = 1"; cases "Uint32 (rd_boxHeader r) = 0")
      (auto simp: same_core_def)
  then show ?thesis
  proof cases
    case 1
    then show ?thesis using assms(1) same_core_ok by blast
  next
    case 2
    have "keeps r r1" using 2(1) beginBox_keeps keeps_trans [OF k] by blast
    then show ?thesis using begun_ok [OF assms(1,2)] 2(2) by blast
  qed
qed

lemma body_step_keeps: "keeps r (body_step r xs)"
proof (rule keeps_trans)
  show "keeps r (writeCurrentBoxData r xs)" by (rule writeCurrentBoxData_keeps) (simp add: keeps_def)
  show "keeps (writeCurrentBoxData r xs) (body_step r xs)" by (rule keeps_core) (simp add: same_core_def body_step_def)
qed

text \<open>One byte either waits in a header or in a body, or it ends one of them.\<close>

lemma processBytes_byte_cases:
  assumes "stream_ok r" and "processBytes r [x] p = Inr (p', d, r')"
  obtains "r' = r\<lparr>rd_boxHeader := rd_boxHeader r @ [x]\<rparr>" | "r' = body_step r [x]"
    | d1 where "header_read (r\<lparr>rd_boxHeader := rd_boxHeader r @ [x]\<rparr>) = Inr (d1, r')"
    | d1 where "finish_box (body_step r [x]) = Inr (d1, r')"
proof (cases "length (rd_boxHeader r) < rd_boxHeaderRequired r")
  case h: True
  define k where k: "k = rd_boxHeaderRequired r - length (rd_boxHeader r)"
  have "0 < k" using h k by simp
  then consider "length [x] < k" | "k = length [x]" by fastforce
  then show ?thesis
  proof cases
    case 1
    show ?thesis using assms(2) that(1) unfolding processBytes_header(1) [OF h k 1] by blast
  next
    case 2
    then have "k \<le> length [x]" "take k [x] = [x]" "drop k [x] = []" by simp_all
    then show ?thesis using assms(2) that(3) unfolding processBytes_header(2) [OF h k \<open>k \<le> length [x]\<close>]
      by (auto simp: processBytes_Nil split: if_splits)
  qed
next
  case b: False
  define k where k: "k = unat (rd_currentBoxRemaining r)"
  have pos: "0 < k" using assms(1) b k by (simp add: stream_ok_def unat_gt_0)
  then consider "length [x] < k" | "k = length [x]" by fastforce
  then show ?thesis
  proof cases
    case 1
    show ?thesis using assms(2) that(2) unfolding processBytes_body(1) [OF b k pos 1] by blast
  next
    case 2
    then have "k \<le> length [x]" "take k [x] = [x]" "drop k [x] = []" by simp_all
    then show ?thesis using assms(2) that(4) unfolding processBytes_body(2) [OF b k pos \<open>k \<le> length [x]\<close>]
      by (auto simp: processBytes_Nil split: if_splits)
  qed
qed

lemma processBytes_byte:
  assumes "core_ok r" and "pending_small r" and "stream_ok r" and "processBytes r [x] p = Inr (p', d, r')"
  shows "core_ok r'"
proof -
  let ?r = "r\<lparr>rd_boxHeader := rd_boxHeader r @ [x]\<rparr>"
  have "keeps r ?r" by (rule keeps_core) (simp add: same_core_def)
  then have h: "core_ok ?r" "pending_small ?r" using assms(1,2) by (simp_all add: keeps_def pending_small_def)
  have b: "core_ok (body_step r [x])" "pending_small (body_step r [x])"
    using assms(1,2) body_step_keeps [of r "[x]"] by (simp_all add: keeps_def pending_small_def)
  from assms(3,4) show ?thesis
  proof (cases rule: processBytes_byte_cases)
    case 1
    then show ?thesis using h by blast
  next
    case 2
    then show ?thesis using b by blast
  next
    case 3
    then show ?thesis using h header_read_ok by blast
  next
    case 4
    then show ?thesis using b finish_box_ok by blast
  qed
qed

text \<open>
  The bytes of a chunk keep the invariant as long as no fragment that waits for its payload has \<open>2 ^ 31\<close> samples,
  whichever of the bytes have been read.
\<close>

definition chunk_small :: "mp4BoxReader \<Rightarrow> byte list \<Rightarrow> bool" where
  "chunk_small r dat \<longleftrightarrow> (\<forall>n p p' d r'. n < length dat \<longrightarrow> processBytes r (take n dat) p = Inr (p', d, r') \<longrightarrow> pending_small r')"

lemma chunk_small_append: "chunk_small r (xs @ ys) \<Longrightarrow> chunk_small r xs"
  unfolding chunk_small_def by (metis less_or_eq_imp_le take_append append_Nil2 take_0 diff_is_0_eq trans_less_add1 length_append)

lemma processBytes_ok:
  assumes "core_ok r" and "stream_ok r" and "chunk_small r dat" and "processBytes r dat p = Inr (p', d, r')"
  shows "core_ok r'"
  using assms(3,4)
proof (induction dat arbitrary: p' d r' rule: rev_induct)
  case Nil
  then show ?case using assms(1) by (simp add: processBytes_Nil)
next
  case (snoc x xs)
  obtain p1 d1 r1 where r1: "processBytes r xs p = Inr (p1, d1, r1)"
    and r': "(if d1 then Inr (p1, True, r1) else processBytes r1 [x] p1) = Inr (p', d, r')"
    using snoc.prems(2) unfolding processBytes_append [OF assms(2)] by auto
  have ok: "core_ok r1" by (rule snoc.IH [OF chunk_small_append [OF snoc.prems(1)] r1])
  have s: "stream_ok r1" using processBytes_consumes [OF assms(2) r1] by blast
  have "pending_small r1" using snoc.prems(1) r1 unfolding chunk_small_def by (auto dest: spec [of _ "length xs"])
  then show ?case using r' ok processBytes_byte [OF ok _ s] by (cases d1) auto
qed

subsection \<open>The operations of the reader\<close>

text \<open>Cutting a segment does not touch the box that is being read.\<close>

lemma buildSegment_stream: "buildSegment r n m single = Inr r' \<Longrightarrow> stream_ok r' = stream_ok r"
proof -
  assume "buildSegment r n m single = Inr r'"
  from buildSegment_parts [OF this] obtain video audio seg e where
    "r' = emitSegment (r\<lparr>rd_video := video, rd_audio := audio\<rparr>) seg n m e"
    by (elim exE conjE) (rule that, erule sym)
  then show ?thesis by (simp add: stream_ok_def emitSegment_def resetPrefix_def)
qed

lemma selectAudioCount_stream: "selectAudioCount r e = Inr (n, r') \<Longrightarrow> stream_ok r' = stream_ok r"
  by (auto simp: selectAudioCount_def stream_ok_def)

definition reader_ok :: "mp4BoxReader \<Rightarrow> bool" where
  "reader_ok r \<longleftrightarrow> core_ok r \<and> stream_ok r"

lemma tryBuildSegment_reader:
  assumes "reader_ok r" and "tryBuildSegment r = Inr (b, r')"
  shows "reader_ok r'"
proof -
  have "stream_ok r' = stream_ok r" using assms(2)
    by (cases rule: tryBuildSegment_parts) (simp_all add: buildSegment_stream selectAudioCount_stream)
  then show ?thesis using assms tryBuildSegment_ok by (auto simp: reader_ok_def)
qed

lemma processBytes_reader:
  assumes "reader_ok r" and "chunk_small r dat" and "processBytes r dat p = Inr (p', d, r')"
  shows "reader_ok r'"
  using assms processBytes_ok [of r dat p p' d r'] processBytes_consumes [of r dat p p' d r'] by (simp add: reader_ok_def)

lemma reader_ok_frame:
  assumes "reader_ok r" and "same_core r r'" and "stream_ok r' = stream_ok r"
  shows "reader_ok r'"
  using assms same_core_ok by (auto simp: reader_ok_def)

lemma reader_ok_deferred: "reader_ok r \<Longrightarrow> reader_ok (r\<lparr>rd_deferred := ds\<rparr>)"
  by (rule reader_ok_frame) (simp_all add: same_core_def stream_ok_def)

definition deferred_small :: "mp4BoxReader \<Rightarrow> bool" where
  "deferred_small r \<longleftrightarrow> (\<forall>b r'. tryBuildSegment r = Inr (b, r') \<longrightarrow> chunk_small r' (rd_deferred r'))"

definition push_small :: "mp4BoxReader \<Rightarrow> byte list \<Rightarrow> bool" where
  "push_small r dat \<longleftrightarrow> deferred_small r \<and> (\<forall>b r'. TryProcessDeferred r = Inr (b, r') \<longrightarrow> chunk_small r' dat)"

lemma TryProcessDeferred_reader:
  assumes "reader_ok r" and "deferred_small r" and "TryProcessDeferred r = Inr (b, r')"
  shows "reader_ok r'"
proof -
  obtain b1 r1 where r1: "tryBuildSegment r = Inr (b1, r1)" using assms(3) by (auto simp: TryProcessDeferred_def)
  have ok: "reader_ok r1" by (rule tryBuildSegment_reader [OF assms(1) r1])
  have "chunk_small r1 (rd_deferred r1)" using assms(2) r1 by (simp add: deferred_small_def)
  note k = processBytes_reader [OF ok this]
  show ?thesis using assms(3) ok k reader_ok_deferred
    by (auto simp: TryProcessDeferred_def r1 keepDeferred_def split: if_splits)
qed

lemma Push_reader:
  assumes "reader_ok r" and "push_small r dat" and "Push r dat = Inr r'"
  shows "reader_ok r'"
proof (cases "dat = []")
  case True
  then show ?thesis using assms by (simp add: Push_def)
next
  case False
  then obtain b r1 where r1: "TryProcessDeferred r = Inr (b, r1)" using assms(3) by (auto simp: Push_def)
  have s: "deferred_small r" "chunk_small r1 dat" using assms(2) r1 by (auto simp: push_small_def)
  have ok: "reader_ok r1" by (rule TryProcessDeferred_reader [OF assms(1) s(1) r1])
  show ?thesis using assms(3) ok processBytes_reader [OF ok s(2)] reader_ok_deferred
    by (auto simp: Push_def False r1 split: if_splits)
qed

lemma audio_cleared: "reader_ok r \<Longrightarrow> reader_ok (r\<lparr>rd_audio := []\<rparr>)"
proof -
  let ?r = "r\<lparr>rd_audio := []\<rparr>"
  have "video_ok ?r = video_ok r" "audio_ok ?r = audio_ok r" by (rule ok_frame; simp)+
  then show "reader_ok r \<Longrightarrow> ?thesis" by (simp add: reader_ok_def core_ok_def queues_ok_def stream_ok_def)
qed

lemma three_guards:
  assumes "(if g then x else if h then x else if k then x else y) = Inr z"
  shows "x = Inr z \<or> \<not> h \<and> y = Inr z"
  using assms by (auto split: if_splits)

lemma remainder_parts:
  assumes "TryBuildEndOfStreamRemainder r = Inr (b, r')"
  obtains (none) "\<not> b" "r' = r"
    | (cut) m r1 r2 where "b" "rd_video r \<noteq> [] \<or> rd_audio r \<noteq> []"
        "r1 = r \<and> m = length (rd_audio r) \<and> (rd_video r = [] \<or> rd_audio r = []) \<or> rd_video r \<noteq> [] \<and> (\<exists>e k. selectAudioCount r e = Inr (k, r1))"
        "buildSegment r1 (length (rd_video r)) m True = Inr r2"
        "r' = (if rd_video r \<noteq> [] \<and> rd_video r2 = [] \<and> rd_audio r2 \<noteq> [] then r2\<lparr>rd_audio := []\<rparr> else r2)"
proof -
  let ?vc = "length (rd_video r)" and ?ac = "length (rd_audio r)"
  let ?pick = "if ?vc > 0 \<and> ?ac > 0 then chain (selectAudioCount r (endTime (last (rd_video r)))) (\<lambda>(selected, r').
    Inr (if selected > 0 then selected else ?ac, r')) else Inr (?ac, r)"
  let ?go = "chain ?pick (\<lambda>(m, r'). chain (buildSegment r' ?vc m True) (\<lambda>r''.
    Inr (True, if ?vc > 0 \<and> rd_video r'' = [] \<and> rd_audio r'' \<noteq> [] then r''\<lparr>rd_audio := []\<rparr> else r'')))"
  consider "\<not> b" "r' = r" | "?go = Inr (b, r')" "rd_video r \<noteq> [] \<or> rd_audio r \<noteq> []"
    using three_guards [OF assms [unfolded TryBuildEndOfStreamRemainder_def Let_def]] by auto
  then show ?thesis
  proof cases
    case 2
    then obtain m r1 where m: "?pick = Inr (m, r1)" by (cases ?pick) auto
    obtain r2 where r2: "buildSegment r1 ?vc m True = Inr r2" "b"
      "r' = (if ?vc > 0 \<and> rd_video r2 = [] \<and> rd_audio r2 \<noteq> [] then r2\<lparr>rd_audio := []\<rparr> else r2)"
      using 2(1) unfolding m by auto
    have "r1 = r \<and> m = ?ac \<and> (rd_video r = [] \<or> rd_audio r = []) \<or> rd_video r \<noteq> [] \<and> (\<exists>e k. selectAudioCount r e = Inr (k, r1))"
      using m by (cases "?vc > 0 \<and> ?ac > 0") auto
    then show ?thesis using cut [OF r2(2) 2(2) _ r2(1)] r2(3) by simp
  qed (rule none)
qed

lemma TryBuildEndOfStreamRemainder_reader:
  assumes "reader_ok r" and "TryBuildEndOfStreamRemainder r = Inr (b, r')"
  shows "reader_ok r'"
  using assms(2)
proof (cases rule: remainder_parts)
  case (cut m r1 r2)
  have c: "core_ok r" "stream_ok r" using assms(1) by (simp_all add: reader_ok_def)
  have "core_ok r1 \<and> stream_ok r1" using cut(3) c selectAudioCount_core [OF c(1)] selectAudioCount_stream by blast
  then have "reader_ok r2" using buildSegment_ok [OF _ cut(4)] buildSegment_stream [OF cut(4)] by (simp add: reader_ok_def)
  then show ?thesis unfolding cut(5) using audio_cleared by (cases "rd_video r \<noteq> [] \<and> rd_video r2 = [] \<and> rd_audio r2 \<noteq> []") simp_all
qed (simp add: assms(1))

lemma ReclaimPayloads_reader:
  assumes "reader_ok r"
  shows "reader_ok (ReclaimPayloads r)"
proof -
  have c: "core_ok r" "stream_ok r" "queues_ok r" using assms by (simp_all add: reader_ok_def core_ok_def)
  have p: "\<forall>f. rd_pending r = Some f \<longrightarrow> fr_payloadLen f = 0" using c(1) by (auto simp: core_ok_def parsed_from_def)
  have q: "queues_ok (ReclaimPayloads r)" using ReclaimPayloads_keeps [OF c(3) p] by blast
  have s: "small (shift_start n f) = small f" for n f by (simp add: shift_start_def small_def frag_samples_def)
  from p show ?thesis
  proof (cases rule: ReclaimPayloads_cases)
    case same
    then show ?thesis using assms by simp
  next
    case empty
    then show ?thesis using c q unfolding empty(2) by (simp add: reader_ok_def core_ok_def stream_ok_def)
  next
    case (shift x)
    then show ?thesis using c q unfolding shift(2)
      by (auto simp: reader_ok_def core_ok_def stream_ok_def shiftFragmentPayloadStarts_def list_all_iff s)
  qed
qed

subsection \<open>Reachable readers\<close>

text \<open>
  The readers that the operations of the package lead to, in any order, as long as no pushed fragment has
  \<open>2 ^ 31\<close> samples.
\<close>

inductive reader_reach :: "mp4BoxReader \<Rightarrow> bool" where
  reach_new: "reader_reach (Mp4BoxReader seconds diff cueMode)"
| reach_seek: "reader_reach r \<Longrightarrow> reader_reach (SeekReset r seconds)"
| reach_offset: "reader_reach r \<Longrightarrow> reader_reach (SetTimelineOffsetNS r ns)"
| reach_target: "reader_reach r \<Longrightarrow> SetTargetSegment r a b c = Inr r' \<Longrightarrow> reader_reach r'"
| reach_push: "reader_reach r \<Longrightarrow> push_small r dat \<Longrightarrow> Push r dat = Inr r' \<Longrightarrow> reader_reach r'"
| reach_deferred: "reader_reach r \<Longrightarrow> deferred_small r \<Longrightarrow> TryProcessDeferred r = Inr (completed, r') \<Longrightarrow> reader_reach r'"
| reach_remainder: "reader_reach r \<Longrightarrow> TryBuildEndOfStreamRemainder r = Inr (completed, r') \<Longrightarrow> reader_reach r'"
| reach_release: "reader_reach r \<Longrightarrow> reader_reach (ReleaseSegment r)"
| reach_reclaim: "reader_reach r \<Longrightarrow> reader_reach (ReclaimPayloads r)"

lemma fresh_reader_ok: "reader_ok (Mp4BoxReader seconds diff cueMode)" "reader_ok (SeekReset r offset)"
  by (simp_all add: reader_ok_def core_ok_def queues_ok_def stream_ok_def Mp4BoxReader_def SeekReset_def resetBoxState_def
    resetPrefix_def clearFragments_def clearSource_def)

lemma same_core_Set: "same_core r (SetTimelineOffsetNS r ns)" "stream_ok (SetTimelineOffsetNS r ns) = stream_ok r"
  by (cases "ns = - 1"; simp only: SetTimelineOffsetNS_def if_True if_False; simp add: same_core_def stream_ok_def)+

lemma same_core_SetTargetSegment:
  "SetTargetSegment r a b c = Inr r' \<Longrightarrow> same_core r r'" "SetTargetSegment r a b c = Inr r' \<Longrightarrow> stream_ok r' = stream_ok r"
  unfolding SetTargetSegment_def by (elim if_Inr_elim Inr_elim; simp add: same_core_def stream_ok_def)+

lemma reader_reach_ok: "reader_reach r \<Longrightarrow> reader_ok r"
proof (induction rule: reader_reach.induct)
  case (reach_offset r ns)
  show ?case by (rule reader_ok_frame [OF reach_offset.IH same_core_Set(1) same_core_Set(2)])
next
  case (reach_target r a b c r')
  show ?case by (rule reader_ok_frame [OF reach_target.IH same_core_SetTargetSegment [OF reach_target.hyps(2)]])
next
  case (reach_release r)
  show ?case unfolding ReleaseSegment_def
    by (rule ReclaimPayloads_reader, rule reader_ok_frame [OF reach_release.IH]) (simp_all add: same_core_def stream_ok_def)
next
  case (reach_push r dat r')
  then show ?case by (intro Push_reader [of r dat r'])
next
  case (reach_deferred r completed r')
  then show ?case by (intro TryProcessDeferred_reader [of r completed r'])
next
  case (reach_remainder r completed r')
  then show ?case by (intro TryBuildEndOfStreamRemainder_reader [of r completed r'])
next
  case (reach_reclaim r)
  then show ?case by (intro ReclaimPayloads_reader)
qed (rule fresh_reader_ok)+

end
