(* ===== verification/Mp4Finish.thy ===== *)
theory Mp4Finish
  imports Mp4Invariant
begin

text \<open>
  The end of the stream: everything that is queued when the stream ends goes into one more segment, audio behind
  the video excepted.
\<close>

lemma frag_content_nonempty: "frag_ok st f \<Longrightarrow> frag_content st f \<noteq> []"
  by (cases "fr_runs f"; cases "frag_samples f") (auto simp: frag_content_def frag_ok_def parsed_ok_def run_ok_def frag_samples_def)

lemma take_content:
  assumes "m \<le> length fs" and "list_all (frag_ok st) fs"
  shows "(m = 0) = (queue_content st (take m fs) = [])"
proof (cases "m = 0 \<or> fs = []")
  case True
  then show ?thesis using assms(1) by auto
next
  case False
  then obtain f rest where f: "take m fs = f # rest" by (cases fs; cases m) auto
  then have "f \<in> set fs" by (metis in_set_takeD list.set_intros(1))
  then have "frag_ok st f" using assms(2) by (simp add: list_all_iff)
  then have "frag_content st f \<noteq> []" by (rule frag_content_nonempty)
  then show ?thesis using False f by simp
qed

lemma remainder_plays:
  assumes "TryBuildEndOfStreamRemainder r = Inr (True, r')" and "queues_ok r"
    and "list_all positive (rd_video r)" and "list_all positive (rd_audio r)"
  shows "rd_video r' = [] \<and> rd_audio r' = [] \<and> (\<exists>segment media video audio dv da rest. rd_segments r' = rd_segments r @ [segment]
    \<and> segment_bytes segment = prefix_bytes r @ media
    \<and> play (rd_videoTrack r) (rd_audioTrack r) media = Inr
        ((if rd_video r = [] then [] else [(tk_id (rd_videoTrack r), dv, video)])
         @ (if audio = [] then [] else [(tk_id (rd_audioTrack r), da, audio)]))
    \<and> video = queue_content (rd_sourcePayload r) (rd_video r)
    \<and> queue_content (rd_sourcePayload r) (rd_audio r) = audio @ rest \<and> (rd_video r = [] \<longrightarrow> rest = []))"
  using assms(1)
proof (cases rule: remainder_parts)
  case (cut m r1 r2)
  note b = buildSegment_queues [OF cut(4)]
  have a: "\<exists>audio. r1 = r\<lparr>rd_audio := audio\<rparr>" "queues_ok r1" "list_all positive (rd_audio r1)"
    "queue_content (rd_sourcePayload r) (rd_audio r1) = queue_content (rd_sourcePayload r) (rd_audio r)"
    using cut(3) selectAudioCount_ok [OF _ assms(2)] assms(2,4) by (auto intro: exI [of _ "rd_audio r"])
  obtain audio where r1: "r1 = r\<lparr>rd_audio := audio\<rparr>" using a(1) by blast
  let ?st = "rd_sourcePayload r" and ?n = "length (rd_video r)"
  have e: "rd_video r1 = rd_video r" "rd_sourcePayload r1 = ?st" "rd_videoTrack r1 = rd_videoTrack r"
    "rd_audioTrack r1 = rd_audioTrack r" "rd_segments r1 = rd_segments r" "prefix_bytes r1 = prefix_bytes r"
    by (simp_all add: r1 prefix_bytes_def)
  have m: "rd_video r = [] \<longrightarrow> m = length (rd_audio r) \<and> r1 = r" using cut(3) by blast
  let ?audio = "queue_content ?st (take m (rd_audio r1))"
  obtain segment media dv da where w: "rd_segments r2 = rd_segments r @ [segment]" "segment_bytes segment = prefix_bytes r @ media"
    "play (rd_videoTrack r) (rd_audioTrack r) media = Inr
        ((if ?n = 0 then [] else [(tk_id (rd_videoTrack r), dv, queue_content ?st (take ?n (rd_video r)))])
         @ (if m = 0 then [] else [(tk_id (rd_audioTrack r), da, ?audio)]))"
    using buildSegment_plays [OF cut(4) a(2) _ a(3), unfolded e, OF assms(3)] by (elim exE conjE) rule
  have q: "rd_video r2 = []" "rd_audio r2 = drop m (rd_audio r1)" using b(1,2) e(1) by simp_all
  have empty: "rd_video r' = [] \<and> rd_audio r' = []" unfolding cut(5) using q m by auto
  have "(m = 0) = (?audio = [])"
    using buildSegment_queues(4) [OF cut(4)] queues_ok_frags(2) [OF a(2)] by (simp add: e take_content)
  with w have p: "play (rd_videoTrack r) (rd_audioTrack r) media = Inr
        ((if rd_video r = [] then [] else [(tk_id (rd_videoTrack r), dv, queue_content ?st (rd_video r))])
         @ (if ?audio = [] then [] else [(tk_id (rd_audioTrack r), da, ?audio)]))" by simp
  have "queue_content ?st (rd_audio r) = ?audio @ queue_content ?st (drop m (rd_audio r1))"
    unfolding a(4) [symmetric] queue_simps(6) [symmetric] append_take_drop_id ..
  moreover have "rd_video r = [] \<longrightarrow> queue_content ?st (drop m (rd_audio r1)) = []" using m by auto
  moreover have "rd_segments r' = rd_segments r @ [segment]" unfolding cut(5) using w(1) by simp
  ultimately show ?thesis using empty w(2) p by blast
qed simp

end
