(* ===== verification/Mp4Remux.thy ===== *)
theory Mp4Remux
  imports Mp4Finish
begin

text \<open>
  The properties of the re-muxer as a whole: what the segments contain, where they are cut, that the timeline is
  exact, and that a reset and the release of payloads leave what they should. A small reader with two tracks
  serves as the example.
\<close>

subsection \<open>An example\<close>

definition demo_run :: "(u32 \<times> u32) list \<Rightarrow> mp4Run" where
  "demo_run ss = \<lparr>rn_sourceDataOffset = 0, rn_hasSourceDataOffset = False,
     rn_samples = map (\<lambda>(d, s). \<lparr>sm_duration = d, sm_size = s, sm_flags = 0, sm_compositionTimeOffsetRaw = 0\<rparr>) ss,
     rn_version = 0, rn_hasCompositionTimeOffsets = False, rn_duration = sum_list (map (ucast \<circ> fst) ss),
     rn_dataSize = sum_list (map (ucast \<circ> snd) ss), rn_payloadOffset = 0, rn_outputOffset = 0,
     rn_startsWithSync = True, rn_hasInferredDuration = False\<rparr>"

definition demo_fragment :: "u32 \<Rightarrow> u32 \<Rightarrow> u64 \<Rightarrow> int \<Rightarrow> (u32 \<times> u32) list \<Rightarrow> mp4Fragment" where
  "demo_fragment track scale t start ss = \<lparr>fr_trackID = track, fr_timescale = scale, fr_decodeTime = t,
     fr_duration = sum_list (map (ucast \<circ> fst) ss), fr_startsWithSync = True, fr_sampleDescriptionIndex = 1,
     fr_tfhd = buildCanonicalTfhd track 1, fr_runs = [demo_run ss], fr_payloadStart = start,
     fr_payloadLen = int (sum_list (map (unat \<circ> snd) ss)), fr_hasInferredDuration = False\<rparr>"

definition demo_reader :: mp4BoxReader where
  "demo_reader = (Mp4BoxReader (Some 6) 0 False)\<lparr>rd_video := [demo_fragment 1 10 0 0 [(30, 2), (30, 1)], demo_fragment 1 10 60 3 [(60, 3)]],
     rd_audio := [demo_fragment 2 20 0 6 [(60, 1), (60, 1), (60, 1)]], rd_sourcePayload := [1, 2, 3, 4, 5, 6, 7, 8, 9],
     rd_videoTrack := \<lparr>tk_id = 1, tk_timescale = 10, tk_trex = no_trex\<rparr>,
     rd_audioTrack := \<lparr>tk_id = 2, tk_timescale = 20, tk_trex = no_trex\<rparr>\<rparr>"
lemmas demo_defs = demo_reader_def Mp4BoxReader_def demo_fragment_def demo_run_def

lemma demo_ok: "queues_ok demo_reader" "list_all positive (rd_video demo_reader)" "list_all positive (rd_audio demo_reader)"
  by (simp_all add: queues_ok_def video_ok_def audio_ok_def frag_ok_def parsed_ok_def run_ok_def demo_defs maxTrunSamples_def
    isSyncSample_def frag_samples_def positive_def)

lemma demo_split: "splitFragmentAtSample (demo_fragment 2 20 0 6 [(60, 1), (60, 1), (60, 1)]) (Suc (Suc 0))
    = Inr (demo_fragment 2 20 0 6 [(60, 1), (60, 1)], demo_fragment 2 20 120 8 [(60, 1)])"
  by (simp add: demo_defs splitFragmentAtSample_def Let_def add_run_def buildExplicitRun_def isSyncSample_def fragmentSampleCount_def)

lemma demo_audio: "select_audio 10 60 (rd_audio demo_reader)
    = Inr (1, [demo_fragment 2 20 0 6 [(60, 1), (60, 1)], demo_fragment 2 20 120 8 [(60, 1)]])"
proof -
  let ?f = "demo_fragment 2 20 0 6 [(60, 1), (60, 1), (60, 1)]"
  have "findAudioSplitSampleCount 10 ?f 60 = Inr (Suc (Suc 0), True)" "fragmentSampleCount ?f = Inr 3"
    by (simp_all add: demo_defs findAudioSplitSampleCount_def scaledGreaterOrEqual_iff fragmentSampleCount_def)
  moreover have "rd_audio demo_reader = [?f]" by (simp add: demo_reader_def)
  ultimately show ?thesis using demo_split by simp
qed

lemma demo_video: "selectVideoCount demo_reader = Inr 1"
proof -
  have "fl 60 = 60" using fl_int [of 60] by simp
  then have "toUnits 6 10 = Inr 60" by (simp add: toUnits_def)
  moreover have "\<not> take_first_sync demo_reader" by (simp add: take_first_sync_def demo_defs)
  ultimately show ?thesis by (simp add: selectVideoCount_def) (simp add: demo_defs)
qed

lemmas build_defs = buildSegment_def check_track_def validateTrack_def Let_def traf_size_def traf_bytes_def getTrafSize_def
  canonicalTrunSize_def entry_size_def writeTraf_def addTfdtOffset_def mdat_header_size_def writeCanonicalTrun_def
  collectPayloadRangesInto_def segment_times_def timelineNanoseconds_def endTime_def

lemma demo_build: "\<exists>r'. buildSegment (demo_reader\<lparr>rd_audio := [demo_fragment 2 20 0 6 [(60, 1), (60, 1)],
    demo_fragment 2 20 120 8 [(60, 1)]]\<rparr>) 1 1 False = Inr r'"
  by (simp add: build_defs demo_defs)

lemma demo_tracks:
  "tk_id (rd_audioTrack demo_reader) = 2" "tk_timescale (rd_videoTrack demo_reader) = 10" "tk_id (rd_videoTrack demo_reader) = 1"
  "endTime (rd_video demo_reader ! 0) = 60" "rd_pending demo_reader = None" "rd_segmentSeconds demo_reader = 6" "rd_segmentDiff demo_reader = 0"
  by (simp_all add: demo_defs endTime_def)

lemma demo_cut: "\<exists>r'. tryBuildSegment demo_reader = Inr (True, r')"
  using demo_build by (auto simp: tryBuildSegment_def demo_video demo_audio demo_tracks selectAudioCount_def)

text \<open>A stream that begins with an empty \<open>free\<close> box.\<close>

definition free_box :: "byte list" where
  "free_box = [0, 0, 0, 8, 102, 114, 101, 101]"

definition new_reader :: mp4BoxReader where
  "new_reader = Mp4BoxReader None 0 False"

lemma new_reader_simps:
  "rd_boxHeader new_reader = []" "rd_boxHeaderRequired new_reader = 8" "rd_pending new_reader = None" "rd_deferred new_reader = []"
  "tryBuildSegment new_reader = Inr (False, new_reader)"
  by (simp_all add: new_reader_def Mp4BoxReader_def tryBuildSegment_def selectVideoCount_def)

lemma new_reader_header: "length (rd_boxHeader new_reader) < rd_boxHeaderRequired new_reader"
  "8 = rd_boxHeaderRequired new_reader - length (rd_boxHeader new_reader)"
  by (simp_all add: new_reader_simps)

lemma new_reader_reach: "reader_reach new_reader"
  unfolding new_reader_def by (rule reach_new)

lemma new_reader_deferred: "TryProcessDeferred new_reader = Inr (False, new_reader)"
  by (simp add: TryProcessDeferred_def new_reader_simps)

lemma free_box_lengths: "length free_box = 8" "take 8 free_box = free_box" "drop 8 free_box = []" "free_box \<noteq> []"
  by (simp_all add: free_box_def)

lemma free_box_small: "push_small new_reader free_box"
proof -
  have "pending_small r'" if "n < length free_box" "processBytes new_reader (take n free_box) p = Inr (p', d, r')" for n p p' d r'
  proof -
    have "length (take n free_box) < 8" using that(1) free_box_lengths(1) by simp
    from processBytes_header(1) [OF new_reader_header this, of p] that(2) have "r' = new_reader\<lparr>rd_boxHeader := rd_boxHeader new_reader @ take n free_box\<rparr>"
      by simp
    then show ?thesis by (simp add: pending_small_def new_reader_simps)
  qed
  then have "chunk_small new_reader free_box" unfolding chunk_small_def by blast
  moreover have "chunk_small new_reader []" by (simp add: chunk_small_def)
  ultimately show ?thesis by (simp add: push_small_def deferred_small_def new_reader_simps new_reader_deferred)
qed

lemma free_box_header: "Uint32 free_box = 8" "Uint32 (drop 4 free_box) \<notin> {boxStyp, boxMoof, boxMdat, boxMfra, boxMoov}"
proof -
  have "boxFree = 1718773093" "boxFree \<notin> {boxStyp, boxMoof, boxMdat, boxMfra, boxMoov}" by code_simp+
  moreover have "Uint32 (drop 4 free_box) = 1718773093" by (simp add: Uint32_def be_value_def free_box_def)
  ultimately show "Uint32 (drop 4 free_box) \<notin> {boxStyp, boxMoof, boxMdat, boxMfra, boxMoov}" by simp
  show "Uint32 free_box = 8" by (simp add: Uint32_def be_value_def free_box_def)
qed

lemma free_box_read: "\<exists>r'. processBytes new_reader free_box 0 = Inr (8, False, r') \<and> rd_init r' = free_box"
proof -
  obtain t where t: "Uint32 (drop 4 free_box) = t" "t \<notin> {boxStyp, boxMoof, boxMdat, boxMfra, boxMoov}"
    using free_box_header(2) by blast
  obtain r1 where r1: "r1 = new_reader\<lparr>rd_boxHeader := free_box, rd_currentBoxType := t\<rparr>" by blast
  let ?r2 = "r1\<lparr>rd_currentBoxRemaining := 0, rd_currentTarget := boxTargetInit, rd_init := free_box\<rparr>"
  have n: "rd_initDone r1 = False" "rd_currentBoxType r1 = t" "rd_boxHeader r1 = free_box" "rd_init r1 = []"
    by (simp_all add: r1 new_reader_def Mp4BoxReader_def)
  have b: "beginBox r1 8 8 = Inr ?r2" using t(2) n by (simp add: beginBox_def Let_def writeCurrentBoxData_def free_box_lengths)
  have c: "completeBox ?r2 = Inr (False, ?r2)" using t(2) n by (simp add: completeBox_def Let_def)
  have "header_read (new_reader\<lparr>rd_boxHeader := free_box\<rparr>) = Inr (False, resetBoxState ?r2)"
    using b c by (simp add: header_read_def new_reader_simps free_box_header(1) t(1) finish_box_def Let_def flip: r1)
  moreover have "rd_init (resetBoxState ?r2) = free_box" by (simp add: resetBoxState_def)
  moreover have "processBytes new_reader free_box 0 = chain (header_read (new_reader\<lparr>rd_boxHeader := free_box\<rparr>))
      (\<lambda>(completed, r'). if completed then Inr (8, True, r') else processBytes r' [] 8)"
    using processBytes_header(2) [OF new_reader_header, of free_box 0]
    by (simp only: free_box_lengths new_reader_simps append.simps add_0 order_refl simp_thms True_implies_equals)
  ultimately show ?thesis by (simp add: processBytes_Nil)
qed

lemma free_box_pushed: "\<exists>r'. Push new_reader free_box = Inr r' \<and> rd_init r' = free_box"
  using free_box_read by (auto simp: Push_def new_reader_deferred free_box_lengths)

lemma demo_end: "selectAudioCount demo_reader 120 = Inr (0, demo_reader)"
proof -
  let ?f = "demo_fragment 2 20 0 6 [(60, 1), (60, 1), (60, 1)]"
  have "findAudioSplitSampleCount 10 ?f 120 = Inr (3, False)"
    by (simp add: demo_defs findAudioSplitSampleCount_def scaledGreaterOrEqual_iff endTime_def)
  moreover have "rd_audio demo_reader = [?f]" by (simp add: demo_reader_def)
  ultimately have "select_audio 10 120 (rd_audio demo_reader) = Inr (0, rd_audio demo_reader)" by simp
  then show ?thesis by (simp add: selectAudioCount_def demo_tracks)
qed

lemma demo_rest: "\<exists>r'. buildSegment demo_reader (Suc (Suc 0)) 1 True = Inr r'"
  by (simp add: build_defs demo_defs)

lemma demo_remainder: "\<exists>r'. TryBuildEndOfStreamRemainder demo_reader = Inr (True, r')"
proof -
  have v: "length (rd_video demo_reader) = Suc (Suc 0)" "length (rd_audio demo_reader) = 1" "fr_startsWithSync (hd (rd_video demo_reader))"
    "endTime (last (rd_video demo_reader)) = 120" "rd_cueMode demo_reader = False"
    by (simp_all add: demo_defs endTime_def)
  show ?thesis using demo_rest by (auto simp: TryBuildEndOfStreamRemainder_def Let_def v demo_end)
qed

subsection \<open>Properties\<close>

text \<open>
  C23. Segments lose and repeat nothing. When the reader cuts a segment, a client that reads the bytes of the segment
  (the kept styp and prefix boxes, then the moof with its tracks, then the payload) through the boxes and data
  offsets finds the video track and, if the source has audio, the audio track, each with exactly the samples that have left
  the queue of the track, in order, each with its durations, flags, composition offset and its bytes from the source; what has
  not left is still queued. If no segment can be cut yet, the queues hold the same samples as before.
  The hypotheses are that the queued fragments are well formed (that is what parsing gives) and have no sample of duration zero.
\<close>

theorem segments_conserve:
  assumes "queues_ok r" and "list_all positive (rd_video r)" and "list_all positive (rd_audio r)"
    and "tryBuildSegment r = Inr (completed, r')"
  shows "queues_ok r' \<and> (if completed
    then \<exists>segment media video audio dv da. rd_segments r' = rd_segments r @ [segment]
      \<and> segment_bytes segment = prefix_bytes r @ media
      \<and> play (rd_videoTrack r) (rd_audioTrack r) media = Inr ((tk_id (rd_videoTrack r), dv, video)
          # (if tk_id (rd_audioTrack r) = 0 then [] else [(tk_id (rd_audioTrack r), da, audio)]))
      \<and> (tk_id (rd_audioTrack r) = 0 \<longrightarrow> audio = [])
      \<and> queue_content (rd_sourcePayload r) (rd_video r) = video @ queue_content (rd_sourcePayload r') (rd_video r')
      \<and> queue_content (rd_sourcePayload r) (rd_audio r) = audio @ queue_content (rd_sourcePayload r') (rd_audio r')
    else rd_segments r' = rd_segments r
      \<and> queue_content (rd_sourcePayload r') (rd_video r') = queue_content (rd_sourcePayload r) (rd_video r)
      \<and> queue_content (rd_sourcePayload r') (rd_audio r') = queue_content (rd_sourcePayload r) (rd_audio r))"
proof (cases completed)
  case True
  then show ?thesis using tryBuildSegment_cut [of r r'] assms by (simp only: segment_cut_def moved_def if_True simp_thms)
next
  case False
  then show ?thesis using tryBuildSegment_waits [of r r'] assms by (simp add: moved_def)
qed

theorem segments_conserve_witness:
  "\<exists>(r' :: mp4BoxReader) segment media video audio dv da. rd_segments r' = [segment] \<and> segment_bytes segment = media
    \<and> play (rd_videoTrack demo_reader) (rd_audioTrack demo_reader) media = Inr [(1, dv, video), (2, da, audio)]
    \<and> queue_content (rd_sourcePayload demo_reader) (rd_video demo_reader) = video @ queue_content (rd_sourcePayload r') (rd_video r')
    \<and> queue_content (rd_sourcePayload demo_reader) (rd_audio demo_reader) = audio @ queue_content (rd_sourcePayload r') (rd_audio r')"
proof -
  obtain r' where r': "tryBuildSegment demo_reader = Inr (True, r')" using demo_cut by blast
  have "prefix_bytes demo_reader = []" "rd_segments demo_reader = []" by (simp_all add: prefix_bytes_def demo_defs)
  with segments_conserve [OF demo_ok r'] show ?thesis by - (rule exI [of _ r'], simp add: demo_tracks)
qed

text \<open>
  C24. Releasing payloads keeps what is queued. After ReleaseSegment (a fragment that waits for its payload has none yet), the queued
  fragments are well formed and hold the same samples with the same bytes as before, and nothing is
  kept in vain: the buffer is empty, or a queued payload starts at its beginning.
\<close>

theorem release_keeps:
  assumes "queues_ok r" and "\<forall>f. rd_pending r = Some f \<longrightarrow> fr_payloadLen f = 0"
  shows "queues_ok (ReleaseSegment r)
    \<and> queue_content (rd_sourcePayload (ReleaseSegment r)) (rd_video (ReleaseSegment r)) = queue_content (rd_sourcePayload r) (rd_video r)
    \<and> queue_content (rd_sourcePayload (ReleaseSegment r)) (rd_audio (ReleaseSegment r)) = queue_content (rd_sourcePayload r) (rd_audio r)
    \<and> (rd_sourcePayload (ReleaseSegment r) = []
      \<or> (\<exists>f \<in> set (rd_video (ReleaseSegment r) @ rd_audio (ReleaseSegment r)). fr_payloadStart f = 0))"
proof -
  let ?r = "r\<lparr>rd_segmentPayloads := []\<rparr>"
  have "video_ok ?r = video_ok r" "audio_ok ?r = audio_ok r" by (simp_all add: fun_eq_iff video_ok_def audio_ok_def)
  then have "queues_ok ?r" using assms(1) by (simp add: queues_ok_def)
  from ReclaimPayloads_keeps [OF this] assms(2) show ?thesis by (simp add: ReleaseSegment_def moved_def)
qed

theorem release_keeps_witness:
  "\<exists>r. rd_video r \<noteq> [] \<and> rd_sourcePayload (ReleaseSegment r) \<noteq> rd_sourcePayload r
    \<and> queue_content (rd_sourcePayload (ReleaseSegment r)) (rd_video (ReleaseSegment r)) = queue_content (rd_sourcePayload r) (rd_video r)"
proof -
  define r where "r = demo_reader\<lparr>rd_video := tl (rd_video demo_reader)\<rparr>"
  have v: "video_ok r = video_ok demo_reader" "audio_ok r = audio_ok demo_reader"
    by (simp_all add: fun_eq_iff video_ok_def audio_ok_def r_def)
  have "queues_ok r" unfolding queues_ok_def v using demo_ok(1) by (simp add: queues_ok_def r_def demo_reader_def)
  moreover have "\<forall>f. rd_pending r = Some f \<longrightarrow> fr_payloadLen f = 0" by (simp add: r_def demo_tracks)
  moreover have "rd_video r \<noteq> []" by (simp add: r_def demo_reader_def)
  moreover have "rd_sourcePayload (ReleaseSegment r) \<noteq> rd_sourcePayload r"
    by (simp add: r_def ReleaseSegment_def ReclaimPayloads_def minQueuedPayloadStart_def minPayloadStart_def demo_defs Let_def)
  ultimately show ?thesis using release_keeps [of r] by (intro exI [of _ r] conjI) simp_all
qed

text \<open>
  C25. The audio of a segment ends with the first sample that reaches the end of its video: the sample count that
  findAudioSplitSampleCount returns is the least positive one after which the audio has lasted at
  least until the end of the video, compared exactly across the two clocks; if it says that the fragment does not reach it,
  no sample of the fragment does.
\<close>

theorem audio_cut_first:
  assumes "findAudioSplitSampleCount videoScale fragment videoEnd = Inr (k, reached)"
  shows "k \<le> length (frag_samples fragment)
    \<and> (reached \<longrightarrow> 0 < k \<and> unat videoEnd * unat (fr_timescale fragment)
         \<le> (unat (fr_decodeTime fragment) + durations (take k (frag_samples fragment))) * unat videoScale)
    \<and> (\<forall>j. 0 < j \<and> j \<le> length (frag_samples fragment) \<and> (reached \<longrightarrow> j < k) \<longrightarrow>
         (unat (fr_decodeTime fragment) + durations (take j (frag_samples fragment))) * unat videoScale
           < unat videoEnd * unat (fr_timescale fragment))"
proof (cases reached)
  case True
  then show ?thesis using findAudioSplit_first [OF assms] by (simp add: first_reach_def reach_def not_le)
next
  case False
  then have "\<not> reach videoScale (fr_timescale fragment) videoEnd (unat (fr_decodeTime fragment) + durations (take j (frag_samples fragment)))"
    if "0 < j" "j \<le> length (frag_samples fragment)" for j
    using findAudioSplit_first [OF assms] that by (cases "j = length (frag_samples fragment)") (auto simp: first_reach_def)
  then show ?thesis using findAudioSplit_first [OF assms] False by (simp add: first_reach_def reach_def not_le)
qed

theorem audio_cut_first_witness:
  "let f = demo_fragment 2 20 0 6 [(60, 1), (60, 1), (60, 1)]
   in \<exists>k. findAudioSplitSampleCount 10 f 60 = Inr (k, True) \<and> 0 < k \<and> k \<le> length (frag_samples f)
     \<and> 60 * 20 \<le> durations (take k (frag_samples f)) * 10"
proof -
  let ?f = "demo_fragment 2 20 0 6 [(60, 1), (60, 1), (60, 1)]"
  have f: "findAudioSplitSampleCount 10 ?f 60 = Inr (Suc (Suc 0), True)"
    by (simp add: demo_defs findAudioSplitSampleCount_def scaledGreaterOrEqual_iff)
  have "fr_timescale ?f = 20" "fr_decodeTime ?f = 0" by (simp_all add: demo_fragment_def)
  with audio_cut_first [OF f] f show ?thesis by (simp add: Let_def)
qed

text \<open>
  C26. Times are exact: timelineNanoseconds is the quotient of the time in nanoseconds and the clock rate, rounded
  down, whenever that fits into 64 bits, and an error otherwise; none of its intermediate products overflows.
\<close>

theorem timeline_exact:
  "timelineNanoseconds v timescale =
     (if timescale = 0 then Inl ''timeline timescale is zero''
      else let ns = unat v * 10 ^ 9 div unat timescale
           in if ns < 2 ^ 64 then Inr (of_nat ns) else Inl ''timeline nanoseconds overflow'')"
  by (simp add: timelineNanoseconds_exact Let_def)

text \<open>
  C27. A reset leaves nothing of the stream before it: after SeekReset the reader is a new reader with the same settings,
  apart from the offset of the timeline (the position asked for, or 0 if it is not a positive number)
  and the initialization and segments passed on so far.
\<close>

theorem seek_reset_fresh:
  assumes "0 < rd_segmentSeconds r" and "0 \<le> rd_segmentDiff r"
  shows "SeekReset r seconds = (Mp4BoxReader (Some (rd_segmentSeconds r)) (rd_segmentDiff r) (rd_cueMode r))
    \<lparr>rd_tfdtOffsetSeconds := (case seconds of None \<Rightarrow> 0 | Some s \<Rightarrow> max s 0), rd_inits := rd_inits r, rd_segments := rd_segments r\<rparr>"
  by (rule SeekReset_fresh [OF assms])

theorem seek_reset_fresh_witness:
  "rd_video demo_reader \<noteq> [] \<and> SeekReset demo_reader (Some 90) = (Mp4BoxReader (Some 6) 0 False)\<lparr>rd_tfdtOffsetSeconds := 90\<rparr>"
  using seek_reset_fresh [of demo_reader "Some 90"] by (simp add: demo_tracks) (simp add: demo_defs)



text \<open>
  C29. How the source is cut into chunks does not matter: to process two chunks in one piece is to process the first and, unless it
  completes a segment, the second with the reader that the first has left, with the same result and the same error. A chunk that
  completes no segment is consumed whole.
\<close>

theorem chunks_irrelevant:
  assumes "reader_reach r"
  shows "processBytes r (xs @ ys) position = chain (processBytes r xs position)
      (\<lambda>(consumed, completed, r'). if completed then Inr (consumed, True, r') else processBytes r' ys consumed)
    \<and> (\<forall>consumed r'. processBytes r xs position = Inr (consumed, False, r') \<longrightarrow> consumed = position + length xs)"
proof -
  have s: "stream_ok r" using reader_reach_ok [OF assms] by (simp add: reader_ok_def)
  show ?thesis using processBytes_append [OF s] processBytes_consumes [OF s] by blast
qed

theorem chunks_irrelevant_witness:
  "\<exists>r. chain (processBytes new_reader [0, 0, 0] 0) (\<lambda>(consumed, completed, r').
      if completed then Inr (consumed, True, r') else processBytes r' [8, 102, 114, 101, 101] consumed) = Inr (8, False, r)
    \<and> rd_init r = free_box"
proof -
  have "free_box = [0, 0, 0] @ [8, 102, 114, 101, 101]" by (simp add: free_box_def)
  with chunks_irrelevant [OF new_reader_reach, of "[0, 0, 0]" "[8, 102, 114, 101, 101]" 0] free_box_read show ?thesis by metis
qed

text \<open>
  C30. The end of the stream loses no video. When TryBuildEndOfStreamRemainder cuts a last segment, a client finds in it all video
  samples that were queued and a beginning of the queued audio samples (all of them if there is no video), each with its bytes; then
  both queues are empty. The hypotheses are those of the segments before.
\<close>

theorem remainder_conserves:
  assumes "queues_ok r" and "list_all positive (rd_video r)" and "list_all positive (rd_audio r)"
    and "TryBuildEndOfStreamRemainder r = Inr (True, r')"
  shows "rd_video r' = [] \<and> rd_audio r' = [] \<and> (\<exists>segment media video audio dv da rest. rd_segments r' = rd_segments r @ [segment]
    \<and> segment_bytes segment = prefix_bytes r @ media
    \<and> play (rd_videoTrack r) (rd_audioTrack r) media = Inr
        ((if rd_video r = [] then [] else [(tk_id (rd_videoTrack r), dv, video)])
         @ (if audio = [] then [] else [(tk_id (rd_audioTrack r), da, audio)]))
    \<and> video = queue_content (rd_sourcePayload r) (rd_video r)
    \<and> queue_content (rd_sourcePayload r) (rd_audio r) = audio @ rest \<and> (rd_video r = [] \<longrightarrow> rest = []))"
  by (rule remainder_plays [OF assms(4,1,2,3)])

theorem remainder_conserves_witness:
  "\<exists>(r' :: mp4BoxReader) segment media dv rest. rd_video r' = [] \<and> rd_segments r' = [segment] \<and> segment_bytes segment = media
    \<and> play (rd_videoTrack demo_reader) (rd_audioTrack demo_reader) media
      = Inr ((1, dv, queue_content (rd_sourcePayload demo_reader) (rd_video demo_reader)) # rest)"
proof -
  obtain r' where r': "TryBuildEndOfStreamRemainder demo_reader = Inr (True, r')" using demo_remainder by blast
  have "prefix_bytes demo_reader = []" "rd_segments demo_reader = []" "rd_video demo_reader \<noteq> []"
    by (simp_all add: prefix_bytes_def demo_defs)
  with remainder_conserves [OF demo_ok r'] show ?thesis by - (rule exI [of _ r'], auto simp: demo_tracks)
qed

end
