(* ===== verification/Mp4Serve.thy ===== *)
theory Mp4Serve
  imports Mp4Segment Torrshash
begin

text \<open>
  Segments as they are served (\<open>segment.go\<close>, and the range requests of \<open>handlers.go\<close>): a segment is written whole or the part of it that a range asks for,
  piece by piece, without joining the pieces. The \<open>io.Writer\<close> is a parameter; its \<open>Write\<close> returns the number of bytes
  it took and an error, and its contract is \<open>writer_ok\<close>.
\<close>

type_synonym 's Write = "'s \<Rightarrow> byte list \<Rightarrow> int \<times> string option \<times> 's"

definition Len :: "Segment \<Rightarrow> int" where
  "Len s = int (length (sg_Header s)) + sum_list (map (\<lambda>payload. int (length payload)) (sg_Payloads s))"

definition Empty :: "Segment \<Rightarrow> bool" where
  "Empty s \<longleftrightarrow> Len s = 0"

definition writeBytes :: "'s Write \<Rightarrow> 's \<Rightarrow> byte list \<Rightarrow> int \<times> string option \<times> 's" where
  "writeBytes Write dst dat =
     (if dat = [] then (0, None, dst)
      else case Write dst dat of (written, err, dst') \<Rightarrow>
        if err \<noteq> None then (written, err, dst')
        else if written \<noteq> int (length dat) then (written, Some ''short write'', dst')
        else (written, None, dst'))"

fun write_payloads :: "'s Write \<Rightarrow> 's \<Rightarrow> byte list list \<Rightarrow> int \<Rightarrow> int \<times> string option \<times> 's" where
  "write_payloads Write dst [] written = (written, None, dst)"
| "write_payloads Write dst (payload # payloads) written =
     (if payload = [] then write_payloads Write dst payloads written
      else case writeBytes Write dst payload of (cnt, err, dst') \<Rightarrow>
        if err \<noteq> None then (written + cnt, err, dst') else write_payloads Write dst' payloads (written + cnt))"

definition WriteTo :: "'s Write \<Rightarrow> Segment \<Rightarrow> 's \<Rightarrow> int \<times> string option \<times> 's" where
  "WriteTo Write s dst =
     (case writeBytes Write dst (sg_Header s) of (cnt, err, dst') \<Rightarrow>
        if err \<noteq> None then (cnt, err, dst') else write_payloads Write dst' (sg_Payloads s) cnt)"

text \<open>A piece of a segment takes its share of the range; offset and count are what is left for the pieces behind it.\<close>

definition writeRangePart :: "'s Write \<Rightarrow> 's \<Rightarrow> byte list \<Rightarrow> int \<Rightarrow> int \<Rightarrow> string option \<times> int \<times> int \<times> 's" where
  "writeRangePart Write dst part offset cnt =
     (let partLength = int (length part); ln = min (partLength - offset) cnt
      in if part = [] \<or> cnt \<le> 0 then (None, offset, cnt, dst)
         else if offset \<ge> partLength then (None, offset - partLength, cnt, dst)
         else case writeBytes Write dst (take (nat ln) (drop (nat offset) part)) of (_, err, dst') \<Rightarrow>
           if err \<noteq> None then (err, offset, cnt, dst') else (None, 0, cnt - ln, dst'))"

fun write_parts :: "'s Write \<Rightarrow> 's \<Rightarrow> byte list list \<Rightarrow> int \<Rightarrow> int \<Rightarrow> string option \<times> 's" where
  "write_parts Write dst [] offset cnt = (None, dst)"
| "write_parts Write dst (part # parts) offset cnt =
     (case writeRangePart Write dst part offset cnt of (err, offset', cnt', dst') \<Rightarrow>
        if err \<noteq> None \<or> cnt' \<le> 0 then (err, dst') else write_parts Write dst' parts offset' cnt')"

definition WriteRange :: "'s Write \<Rightarrow> Segment \<Rightarrow> 's \<Rightarrow> int \<Rightarrow> int \<Rightarrow> string option \<times> 's" where
  "WriteRange Write s dst offset cnt =
     (if cnt \<le> 0 \<or> offset < 0 \<or> offset \<ge> Len s then (None, dst)
      else write_parts Write dst (sg_Header s # sg_Payloads s) offset cnt)"

subsection \<open>Range requests\<close>

text \<open>The range of a request, first and last byte: one range, with an end, without, or the last bytes.\<close>

definition parseSingleRange :: "byte list \<Rightarrow> int \<Rightarrow> (int \<times> int) option" where
  "parseSingleRange header totalLength =
     (let prefx = ascii ''bytes=''; spec = TrimSpace (drop (length prefx) header);
          left = takeWhile (\<lambda>c. c \<noteq> 45) spec; right = tl (dropWhile (\<lambda>c. c \<noteq> 45) spec);
          check = (\<lambda>start stop. if start < 0 \<or> stop < start \<or> start \<ge> totalLength then None
                    else Some (start, if stop \<ge> totalLength then totalLength - 1 else stop))
      in if totalLength \<le> 0 \<or> \<not> prefix prefx header then None
         else if spec = [] \<or> 44 \<in> set spec then None
         else if 45 \<notin> set spec then None
         else if left \<noteq> []
         then case ParseInt left of
                None \<Rightarrow> None
              | Some start \<Rightarrow>
                  if right = [] then check start (totalLength - 1)
                  else case ParseInt right of None \<Rightarrow> None | Some stop \<Rightarrow> check start stop
         else case ParseInt right of
                None \<Rightarrow> None
              | Some suffixLength \<Rightarrow>
                  if suffixLength \<le> 0 then None
                  else check (totalLength - min suffixLength totalLength) (totalLength - 1))"

text \<open>The response: headers in the order they are set, and a status that is 200 unless one is set. The body is what the writer takes.\<close>

record response =
  rp_status :: int
  rp_headers :: "(string \<times> byte list) list"

definition writeSegment :: "'s Write \<Rightarrow> byte list \<Rightarrow> Segment \<Rightarrow> 's \<Rightarrow> response \<times> string option \<times> 's" where
  "writeSegment Write rangeHeader s dst =
     (let totalLength = Len s;
          headers = [(''Content-Type'', ascii ''video/mp4''), (''Accept-Ranges'', ascii ''bytes'')]
      in if rangeHeader = []
         then case WriteTo Write s dst of (_, err, dst') \<Rightarrow>
           (\<lparr>rp_status = 200, rp_headers = headers @ [(''Content-Length'', show_int totalLength)]\<rparr>, err, dst')
         else case parseSingleRange rangeHeader totalLength of
           None \<Rightarrow> (\<lparr>rp_status = 416, rp_headers = headers @ [(''Content-Range'', ascii ''bytes */'' @ show_int totalLength)]\<rparr>, None, dst)
         | Some (start, stop) \<Rightarrow>
             let ln = stop - start + 1
             in case WriteRange Write s dst start ln of (err, dst') \<Rightarrow>
               (\<lparr>rp_status = 206, rp_headers = headers @
                  [(''Content-Range'', ascii ''bytes '' @ show_int start @ ascii ''-'' @ show_int stop @ ascii ''/'' @ show_int totalLength),
                   (''Content-Length'', show_int ln)]\<rparr>, err, dst'))"

subsection \<open>What a writer receives\<close>

text \<open>
  The contract of \<open>io.Writer\<close>: it takes as many bytes as it says, from the front. That an error comes with a number
  that is too small is not relied on. \<open>content\<close> is what the writer has taken so far.
\<close>

definition writer_ok :: "'s Write \<Rightarrow> ('s \<Rightarrow> byte list) \<Rightarrow> bool" where
  "writer_ok Write content \<longleftrightarrow> (\<forall>dst dat n err dst'. Write dst dat = (n, err, dst') \<longrightarrow>
     0 \<le> n \<and> n \<le> int (length dat) \<and> content dst' = content dst @ take (nat n) dat)"

lemma writeBytes_ok:
  assumes "writer_ok Write content" and "writeBytes Write dst dat = (n, err, dst')"
  shows "0 \<le> n \<and> n \<le> int (length dat) \<and> content dst' = content dst @ take (nat n) dat \<and> (err = None \<longrightarrow> n = int (length dat))"
  using assms by (auto simp: writeBytes_def writer_ok_def split: if_splits prod.splits)

text \<open>\<open>dst'\<close> has taken a beginning of \<open>bs\<close>, all of it if there is no error.\<close>

definition received :: "('s \<Rightarrow> byte list) \<Rightarrow> 's \<Rightarrow> byte list \<Rightarrow> string option \<Rightarrow> 's \<Rightarrow> bool" where
  "received content dst bs err dst' \<longleftrightarrow> (\<exists>k. content dst' = content dst @ take k bs) \<and> (err = None \<longrightarrow> content dst' = content dst @ bs)"

lemma received_Nil: "received content dst [] None dst"
  by (simp add: received_def)

lemma received_stop:
  assumes "received content dst bs err dst'" and "err \<noteq> None"
  shows "received content dst (bs @ cs) err dst'"
proof -
  obtain k where "content dst' = content dst @ take k bs" using assms(1) by (auto simp: received_def)
  then have "content dst' = content dst @ take (min k (length bs)) (bs @ cs)" by (simp add: min_def)
  then have "\<exists>k. content dst' = content dst @ take k (bs @ cs)" ..
  then show ?thesis unfolding received_def using assms(2) by blast
qed

lemma received_more:
  assumes "received content dst bs None dst1" and "received content dst1 cs err dst'"
  shows "received content dst (bs @ cs) err dst'"
proof -
  obtain k where k: "content dst' = content dst1 @ take k cs" using assms(2) by (auto simp: received_def)
  have b: "content dst1 = content dst @ bs" using assms(1) by (simp add: received_def)
  have "content dst' = content dst @ take (length bs + k) (bs @ cs)" using k b by simp
  then have "\<exists>k. content dst' = content dst @ take k (bs @ cs)" ..
  moreover have "err = None \<longrightarrow> content dst' = content dst @ bs @ cs" using assms(2) b by (simp add: received_def)
  ultimately show ?thesis unfolding received_def by blast
qed

lemma writeBytes_received:
  assumes "writer_ok Write content" and "writeBytes Write dst dat = (n, err, dst')"
  shows "received content dst dat err dst'"
  using writeBytes_ok [OF assms] by (auto simp: received_def)

lemma Len_bytes: "Len s = int (length (segment_bytes s))"
proof -
  have "sum_list (map (\<lambda>payload. int (length payload)) ps) = int (length (concat ps))" for ps :: "byte list list"
    by (induction ps) simp_all
  then show ?thesis by (simp add: Len_def segment_bytes_def)
qed

lemma write_payloads_received:
  assumes "writer_ok Write content" and "write_payloads Write dst ps n = (n', err, dst')"
  shows "received content dst (concat ps) err dst'"
  using assms(2)
proof (induction ps arbitrary: dst n)
  case Nil
  then show ?case by (auto simp: received_Nil)
next
  case (Cons p ps)
  show ?case
  proof (cases "p = []")
    case True
    then show ?thesis using Cons by simp
  next
    case False
    obtain k e d1 where w: "writeBytes Write dst p = (k, e, d1)" by (cases "writeBytes Write dst p") auto
    note r = writeBytes_received [OF assms(1) w]
    show ?thesis
    proof (cases e)
      case None
      then show ?thesis using Cons.IH [of d1 "n + k"] Cons.prems False w r received_more by fastforce
    next
      case (Some x)
      then show ?thesis using Cons.prems False w received_stop [OF r] by auto
    qed
  qed
qed

lemma WriteTo_received:
  assumes "writer_ok Write content" and "WriteTo Write s dst = (n, err, dst')"
  shows "received content dst (segment_bytes s) err dst'"
proof -
  obtain k e d1 where w: "writeBytes Write dst (sg_Header s) = (k, e, d1)" by (cases "writeBytes Write dst (sg_Header s)") auto
  note r = writeBytes_received [OF assms(1) w]
  show ?thesis
  proof (cases e)
    case None
    then have "write_payloads Write d1 (sg_Payloads s) k = (n, err, dst')" using assms(2) w by (simp add: WriteTo_def)
    from received_more [OF r [unfolded None] write_payloads_received [OF assms(1) this]]
    show ?thesis by (simp add: segment_bytes_def)
  next
    case (Some x)
    then show ?thesis using assms(2) w received_stop [OF r] by (auto simp: WriteTo_def segment_bytes_def)
  qed
qed

lemma range_split:
  assumes "0 \<le> off" and "off < int (length part)" and "0 < n"
  shows "take (nat n) (drop (nat off) (part @ rest)) = take (nat (min (int (length part) - off) n)) (drop (nat off) part)
    @ take (nat (n - min (int (length part) - off) n)) rest"
proof (cases "n \<le> int (length part) - off")
  case True
  then show ?thesis using assms by (simp add: min_def nat_le_iff)
next
  case False
  then have "nat n - (length part - nat off) = nat (n - (int (length part) - off))" "length part - nat off \<le> nat n"
    "nat (int (length part) - off) = length part - nat off" "nat off - length part = 0" using assms by linarith+
  then show ?thesis using False assms(1,2) by (simp only: take_append drop_append min_def if_False if_True length_drop drop_0) simp
qed

lemma write_parts_received:
  assumes "writer_ok Write content" and "0 \<le> off" and "0 < n" and "write_parts Write dst ps off n = (err, dst')"
  shows "received content dst (take (nat n) (drop (nat off) (concat ps))) err dst'"
  using assms(2-4)
proof (induction ps arbitrary: dst off n)
  case Nil
  then show ?case by (auto simp: received_Nil)
next
  case (Cons p ps)
  note prem = Cons.prems
  consider "p = []" | "p \<noteq> []" "int (length p) \<le> off" | "off < int (length p)" by linarith
  then show ?case
  proof cases
    case 1
    then show ?thesis using Cons by (simp add: writeRangePart_def)
  next
    case 2
    then have "received content dst (take (nat n) (drop (nat (off - int (length p))) (concat ps))) err dst'"
      using Cons.IH [of "off - int (length p)" n dst] prem by (simp add: writeRangePart_def)
    then show ?thesis using 2 prem by (simp add: nat_diff_distrib)
  next
    case 3
    let ?ln = "min (int (length p) - off) n"
    let ?x = "take (nat ?ln) (drop (nat off) p)"
    obtain k e d1 where w: "writeBytes Write dst ?x = (k, e, d1)" by (cases "writeBytes Write dst ?x") auto
    note r = writeBytes_received [OF assms(1) w]
    have p: "p \<noteq> []" "\<not> int (length p) \<le> off" "\<not> n \<le> 0" using 3 prem(1,2) by auto
    have s: "take (nat n) (drop (nat off) (concat (p # ps))) = ?x @ take (nat (n - ?ln)) (concat ps)"
      using range_split [OF prem(1) 3 prem(2), of "concat ps"] by simp
    have go: "writeRangePart Write dst p off n = (if e \<noteq> None then (e, off, n, d1) else (None, 0, n - ?ln, d1))"
      using p w by (simp add: writeRangePart_def Let_def)
    show ?thesis
    proof (cases "e \<noteq> None \<or> n - ?ln \<le> 0")
      case True
      then have e: "err = e" "dst' = d1" using prem(3) go by (auto split: if_splits)
      show ?thesis
      proof (cases e)
        case None
        then have "nat (n - ?ln) = 0" using True by simp
        then show ?thesis using r e unfolding s by simp
      next
        case (Some x)
        then show ?thesis using received_stop [OF r] e unfolding s by simp
      qed
    next
      case False
      then have "write_parts Write d1 ps 0 (n - ?ln) = (err, dst')" using prem(3) go by simp
      then have "received content d1 (take (nat (n - ?ln)) (concat ps)) err dst'" using Cons.IH [of 0 "n - ?ln" d1] False by simp
      moreover have "e = None" using False by simp
      ultimately show ?thesis unfolding s using r by (intro received_more) simp_all
    qed
  qed
qed

lemma WriteRange_received:
  assumes "writer_ok Write content" and "WriteRange Write s dst off n = (err, dst')"
  shows "received content dst (if off < 0 then [] else take (nat n) (drop (nat off) (segment_bytes s))) err dst'"
proof (cases "n \<le> 0 \<or> off < 0 \<or> off \<ge> Len s")
  case True
  then have "err = None" "dst' = dst" using assms(2) by (auto simp: WriteRange_def)
  moreover have "(if off < 0 then [] else take (nat n) (drop (nat off) (segment_bytes s))) = []"
    using True by (auto simp: Len_bytes)
  ultimately show ?thesis using received_Nil by metis
next
  case False
  then have "write_parts Write dst (sg_Header s # sg_Payloads s) off n = (err, dst')" using assms(2) by (simp add: WriteRange_def)
  from write_parts_received [OF assms(1) _ _ this] False show ?thesis by (simp add: segment_bytes_def)
qed

lemma parseSingleRange_bounds:
  assumes "parseSingleRange header totalLength = Some (start, stop)"
  shows "0 \<le> start \<and> start \<le> stop \<and> stop < totalLength"
  using assms by (auto simp: parseSingleRange_def Let_def split: if_splits option.splits)

subsection \<open>The forms of a range\<close>

lemma ParseInt_digits: "n < 2 ^ 63 \<Longrightarrow> ParseInt (digits n) = Some (int n)"
proof -
  assume "n < 2 ^ 63"
  then have i: "in64 (int n)" by (simp add: in64_def)
  have d: "digit b" if "b \<in> set (digits n)" for b using that by (rule digits_digit)
  have h: "hd (digits n) \<noteq> 45" "hd (digits n) \<noteq> 43" using d [OF hd_in_set [OF digits_ne]] by (auto simp: digit_def)
  show ?thesis using i d h digits_ne [of n] by (auto simp: ParseInt_def Let_def value_of_digits)
qed

lemma TrimSpace_range:
  assumes "\<forall>c \<in> set s. digit c \<or> c = 45"
  shows "TrimSpace s = s"
proof (rule TrimSpace_plain)
  have w: "list_all (\<lambda>w. w \<noteq> [] \<and> \<not> digit (hd w) \<and> hd w \<noteq> 45 \<and> \<not> digit (last w) \<and> last w \<noteq> 45) white_space" by code_simp
  show "w \<noteq> [] \<and> hd w \<noteq> c \<and> last w \<noteq> c" if "w \<in> set white_space" "c \<in> set s" for w c
    using w assms that by (auto simp: list_all_iff)
qed

text \<open>A header that asks for the range \<open>spec\<close>.\<close>

definition range_header :: "byte list \<Rightarrow> byte list" where
  "range_header spec = ascii ''bytes='' @ spec"

lemma parseSingleRange_spec:
  assumes "0 < totalLength" and "\<forall>c \<in> set (left @ right). digit c"
  shows "parseSingleRange (range_header (left @ 45 # right)) totalLength =
    (let check = (\<lambda>start stop. if start < 0 \<or> stop < start \<or> start \<ge> totalLength then None
                    else Some (start, if stop \<ge> totalLength then totalLength - 1 else stop))
     in if left \<noteq> []
        then case ParseInt left of None \<Rightarrow> None | Some start \<Rightarrow>
          if right = [] then check start (totalLength - 1)
          else case ParseInt right of None \<Rightarrow> None | Some stop \<Rightarrow> check start stop
        else case ParseInt right of None \<Rightarrow> None | Some n \<Rightarrow>
          if n \<le> 0 then None else check (totalLength - min n totalLength) (totalLength - 1))"
proof -
  let ?spec = "left @ 45 # right"
  have d: "\<not> digit 45" "\<not> digit 44" by (simp_all add: digit_def)
  have t: "TrimSpace ?spec = ?spec" using assms(2) by (intro TrimSpace_range) auto
  have w: "takeWhile (\<lambda>c. c \<noteq> 45) ?spec = left" "dropWhile (\<lambda>c. c \<noteq> 45) ?spec = 45 # right"
    using assms(2) d by (subst takeWhile_append2 dropWhile_append2; auto)+
  have f: "prefix (ascii ''bytes='') (range_header ?spec)" "drop (length (ascii ''bytes='')) (range_header ?spec) = ?spec"
    by (simp_all add: range_header_def)
  have g: "\<not> (totalLength \<le> 0 \<or> False)" "\<not> (?spec = [] \<or> 44 \<in> set ?spec)" "45 \<in> set ?spec" using assms d by auto
  show ?thesis unfolding parseSingleRange_def Let_def f(2) t w list.sel
    by (simp only: f(1) g not_True_eq_False if_False)
qed

lemma parse_forms:
  assumes "a < totalLength" and "a \<le> b" and "0 < n" and "totalLength < 2 ^ 63" and "b < 2 ^ 63" and "n < 2 ^ 63"
  shows "parseSingleRange (range_header (digits a @ 45 # digits b)) (int totalLength) = Some (int a, int (min b (totalLength - 1)))"
    and "parseSingleRange (range_header (digits a @ [45])) (int totalLength) = Some (int a, int totalLength - 1)"
    and "parseSingleRange (range_header (45 # digits n)) (int totalLength) = Some (int (totalLength - n), int totalLength - 1)"
proof -
  have t: "0 < int totalLength" "a < 2 ^ 63" using assms by simp_all
  note p = ParseInt_digits [OF t(2)] ParseInt_digits [OF assms(5)] ParseInt_digits [OF assms(6)]
  note d = digits_digit digits_ne
  show "parseSingleRange (range_header (digits a @ 45 # digits b)) (int totalLength) = Some (int a, int (min b (totalLength - 1)))"
    using assms(1,2) d by (subst parseSingleRange_spec [OF t(1)]) (auto simp: p)
  show "parseSingleRange (range_header (digits a @ [45])) (int totalLength) = Some (int a, int totalLength - 1)"
    using assms(1) d by (subst parseSingleRange_spec [OF t(1)]) (auto simp: p)
  show "parseSingleRange (range_header (45 # digits n)) (int totalLength) = Some (int (totalLength - n), int totalLength - 1)"
    using assms(1,3) d parseSingleRange_spec [OF t(1), of "[]" "digits n"] by (auto simp: p)
qed

subsection \<open>Properties\<close>

text \<open>
  C31. A client gets the bytes it asks for. For any writer that takes as many bytes as it says: a request without a range is answered
  with status 200, the length of the segment and its bytes; a request with a range that parseSingleRange accepts with 206 and exactly the bytes
  from the first to the last of the range, which lies within the segment, under a Content-Length that is their number;
  any other with 416 and no byte. If writing fails, what was written is a beginning of that, and if it does not, nothing is missing.
\<close>

theorem range_served:
  assumes "writer_ok Write content" and "writeSegment Write rangeHeader s dst = (rp, err, dst')"
  shows "let bytes = segment_bytes s; answered = (\<lambda>status body. rp_status rp = status
        \<and> map_of (rp_headers rp) ''Content-Length'' = Some (show_int (int (length body)))
        \<and> (\<exists>k. content dst' = content dst @ take k body) \<and> (err = None \<longrightarrow> content dst' = content dst @ body))
    in if rangeHeader = [] then answered 200 bytes
       else case parseSingleRange rangeHeader (int (length bytes)) of
         None \<Rightarrow> rp_status rp = 416 \<and> err = None \<and> dst' = dst
       | Some (start, stop) \<Rightarrow> 0 \<le> start \<and> start \<le> stop \<and> stop < int (length bytes)
           \<and> answered 206 (take (nat (stop - start + 1)) (drop (nat start) bytes))"
proof (cases "rangeHeader = []")
  case True
  then obtain n where "WriteTo Write s dst = (n, err, dst')"
    using assms(2) by (auto simp: writeSegment_def Let_def split: prod.splits)
  from WriteTo_received [OF assms(1) this] True assms(2) show ?thesis
    by (auto simp: writeSegment_def Let_def received_def Len_bytes split: prod.splits)
next
  case range: False
  show ?thesis
  proof (cases "parseSingleRange rangeHeader (int (length (segment_bytes s)))")
    case None
    then show ?thesis using range assms(2) by (auto simp: writeSegment_def Let_def Len_bytes)
  next
    case (Some p)
    obtain start stop where p: "parseSingleRange rangeHeader (int (length (segment_bytes s))) = Some (start, stop)"
      using Some by (cases p) simp
    note b = parseSingleRange_bounds [OF p]
    let ?body = "take (nat (stop - start + 1)) (drop (nat start) (segment_bytes s))"
    have "WriteRange Write s dst start (stop - start + 1) = (err, dst')"
      using range assms(2) p by (auto simp: writeSegment_def Let_def Len_bytes split: prod.splits)
    from WriteRange_received [OF assms(1) this] have r: "received content dst ?body err dst'" using b by simp
    have "int (length ?body) = stop - start + 1" using b by (simp add: min_def) linarith
    then have "rp_status rp = 206 \<and> map_of (rp_headers rp) ''Content-Length'' = Some (show_int (int (length ?body)))"
      using range assms(2) p by (auto simp: writeSegment_def Let_def Len_bytes split: prod.splits)
    then show ?thesis using range p b r by (simp add: Let_def received_def)
  qed
qed

text \<open>A writer with room for a few bytes, and a segment of three pieces.\<close>

definition small_writer :: "nat \<Rightarrow> (byte list) Write" where
  "small_writer room dst dat = (let n = min (length dat) (room - length dst)
     in (int n, if n < length dat then Some ''full'' else None, dst @ take n dat))"

definition demo_segment :: Segment where
  "demo_segment = \<lparr>sg_Header = [1, 2, 3], sg_Payloads = [[4], [], [5, 6, 7]], sg_StartNS = 0, sg_EndNS = 0, sg_StartSeconds = 0, sg_EndSeconds = 0\<rparr>"

theorem range_served_witness:
  "\<exists>rp dst'. writeSegment (small_writer 9) (range_header (digits 2 @ 45 # digits 5)) demo_segment [] = (rp, None, dst')
    \<and> rp_status rp = 206 \<and> dst' = [3, 4, 5, 6] \<and> map_of (rp_headers rp) ''Content-Length'' = Some (show_int 4)"
proof -
  let ?h = "range_header (digits 2 @ 45 # digits 5)"
  have w: "writer_ok (small_writer 9) id" by (auto simp: writer_ok_def small_writer_def Let_def)
  have h: "?h \<noteq> []" by (simp add: range_header_def)
  have p: "parseSingleRange ?h 7 = Some (2, 5)" using parse_forms(1) [of 2 7 5 1] by simp
  have b: "segment_bytes demo_segment = [1, 2, 3, 4, 5, 6, 7]" by (simp add: segment_bytes_def demo_segment_def)
  have l: "Len demo_segment = 7" by (simp add: Len_bytes b)
  have "\<exists>dst'. WriteRange (small_writer 9) demo_segment [] 2 4 = (None, dst')"
    by (simp add: WriteRange_def l) (simp add: demo_segment_def writeRangePart_def writeBytes_def small_writer_def Let_def)
  then obtain rp dst' where s: "writeSegment (small_writer 9) ?h demo_segment [] = (rp, None, dst')"
    by (auto simp: writeSegment_def h l p Let_def)
  from range_served [OF w s] show ?thesis using s h p by (auto simp: Let_def b)
qed



end
