(* ===== verification/Spec2Isabelle.thy ===== *)
theory Spec2Isabelle
  imports Shield WebUi Webpack Bencode Waf Mp4Remux Mp4Serve
begin

text \<open>
  Verification of TorrServer-Turbo (\<^verbatim>\<open>torrserver-gst\<close>), a server that streams the files of torrents over
  HTTP while they are downloaded.

  \<^bold>\<open>The program.\<close> The server is written in Go. A BitTorrent engine (\<^verbatim>\<open>src/anacrolix-torrent\<close>, a fork of
  a library) downloads pieces and stores them through an interface that \<^verbatim>\<open>src/server/torr/storage/torrstor\<close>
  implements in memory: one cache per torrent with a bounded capacity, readers that stand for HTTP
  clients, a cleaner that evicts pieces no reader needs, and an index cache on disk for the first and
  last pieces of large files. Around it are the torrent list, the web API, the transcoder, a Telegram
  bot, share tokens (\<^verbatim>\<open>src/server/torrshash\<close>), a firewall, and a web interface in JavaScript, which is in the
  repository only as its build output: \<^verbatim>\<open>runtime-main.5ed86a79.js\<close> (the module loader),
  \<^verbatim>\<open>main.c4612288.chunk.js\<close> (the application) and \<^verbatim>\<open>2.f454f580.chunk.js\<close> (bundled packages), each one
  minified line. The names used here for JavaScript functions are those of the source maps beside
  these files.

  \<^bold>\<open>The theories.\<close>

  \<^item> \<^verbatim>\<open>Prelude\<close>: Go's 64-bit integers (\<open>wrap64\<close>, truncating division \<open>tdiv\<close>), \<^verbatim>\<open>sort.Slice\<close> as the locale
    \<open>slice_sort\<close> with an insertion sort as its instance, \<^verbatim>\<open>sort.Search\<close>, list lemmas. \<^verbatim>\<open>Float64\<close>: rounding
    to binary64 (\<open>fl\<close>) and its error bounds. \<^verbatim>\<open>Decimal\<close>: decimal notation as bytes.

  \<^item> \<^verbatim>\<open>Ranges\<close> (\<^verbatim>\<open>ranges.go\<close>): windows of pieces. \<open>mergeRange\<close> joins windows in place and keeps exactly the
    covered pieces; the binary search \<open>inRanges\<close> agrees with membership for windows that are not
    empty and can miss otherwise; \<open>fillPieceInRange\<close> fills a bitmap without leaving it; the two budget
    functions keep their bounds.

  \<^item> \<^verbatim>\<open>PieceStore\<close> (\<^verbatim>\<open>piece.go\<close>, \<^verbatim>\<open>mempiece.go\<close>, the buffer pool of \<^verbatim>\<open>cache.go\<close>): the record \<open>mem\<close> holds the piece
    objects, a heap of buffers and the free list, so that sharing of buffers can be expressed. The locale
    \<open>piece_store\<close> is the contract of a store of byte stretches; the model is interpreted as one, which
    gives that a written chunk is read back after any sequence of other operations.

  \<^item> \<^verbatim>\<open>Cache\<close> (\<^verbatim>\<open>cache.go\<close>, \<^verbatim>\<open>reader.go\<close>): the record \<open>cache\<close> extends \<open>mem\<close> by the readers and the bookkeeping. Opening
    a cache, index pieces and the index cache on disk (a round trip), readers that are parked when idle
    and woken on use, seeking and reading, the windows of the readers and that they fit the capacity.

  \<^item> \<^verbatim>\<open>Eviction\<close> (\<^verbatim>\<open>cache.go\<close>): load priorities and \<open>cleanPieces\<close>. The cleaner takes only pieces that may go, least
    recently used first, as many as needed, and never one under an active reader.

  \<^item> \<^verbatim>\<open>Torrstor\<close> (\<^verbatim>\<open>storage.go\<close>, \<^verbatim>\<open>piecefake.go\<close>, the rest of \<^verbatim>\<open>cache.go\<close>): closing, \<open>GetState\<close>, the map of caches, and the
    step relation \<open>cache_step\<close> in which the engine, the clients, the cleaner and the API act on a cache in any
    order; the invariant \<open>sys_inv\<close> holds in every reachable state.

  \<^item> \<^verbatim>\<open>Shield\<close> (\<^verbatim>\<open>piece.go\<close>): the switch to strict reading after corrupted pieces. Watchdog goroutines are program
    counters that take one atomic operation per step; \<open>calm\<close> runs do not interrupt a watchdog on its way
    out and always recover, \<open>racy\<close> runs may get stuck.

  \<^item> \<^verbatim>\<open>Torrshash\<close> (\<^verbatim>\<open>src/server/torrshash\<close>): share tokens. The locale \<open>positional\<close> is interpreted for the bases 62
    and 256; packing and unpacking is a round trip. The compression is a parameter.

  \<^item> \<^verbatim>\<open>Iplist\<close> and \<^verbatim>\<open>Waf\<close> (\<^verbatim>\<open>src/server/web/waf\<close>, \<^verbatim>\<open>wafdb.go\<close>): the firewall. Addresses are lists of bytes; a network stands for
    exactly the addresses that agree with it on its prefix, parsed lists are well formed and sorted, and
    after an update the handler decides as the texts say.

  \<^item> \<^verbatim>\<open>Mp4Box\<close>, \<^verbatim>\<open>Mp4Frag\<close> and \<^verbatim>\<open>Mp4Reader\<close> (\<^verbatim>\<open>src/server/gstreamer/mp4box.go\<close>): the re-muxer that turns the fragments of the
    multiplexer into segments. Boxes, the fragments of a track and their operations, and the record \<open>mp4BoxReader\<close> with
    one definition per method. \<^verbatim>\<open>Mp4Content\<close>: the samples of a fragment and their bytes, and that parsing, attaching
    payloads and splitting keep them. \<^verbatim>\<open>Mp4Write\<close>: written boxes are read back. \<^verbatim>\<open>Mp4Segment\<close>: a reference player finds in a segment
    what was queued. \<^verbatim>\<open>Mp4Queue\<close>: cutting a segment and releasing payloads lose and repeat nothing. \<^verbatim>\<open>Mp4Time\<close>: exact times, the cut of the
    audio. \<^verbatim>\<open>Mp4Stream\<close>: how the input is cut into chunks does not matter. \<^verbatim>\<open>Mp4Invariant\<close>: the invariant of the reader, kept by every
    box and every byte, and the readers that the operations lead to (\<open>reader_reach\<close>). \<^verbatim>\<open>Mp4Finish\<close>: the end of the stream.
    \<^verbatim>\<open>Mp4Remux\<close>: the properties of the whole.

  \<^item> \<^verbatim>\<open>Mp4Serve\<close> (\<^verbatim>\<open>segment.go\<close> and \<open>writeSegment\<close>, \<open>parseSingleRange\<close> of \<^verbatim>\<open>handlers.go\<close> in \<^verbatim>\<open>src/server/gstreamer\<close>): segments as they are served. The
    writer is a parameter with the contract \<open>writer_ok\<close>; a client gets exactly the range it asks for.

  \<^item> \<^verbatim>\<open>Webpack\<close> (\<^verbatim>\<open>runtime-main.5ed86a79.js\<close>): the module loader. A module function runs at most once, loading always
    ends, a push loses no entry, and the order in which the two chunks arrive does not matter.

  \<^item> \<^verbatim>\<open>WebUi\<close> (\<^verbatim>\<open>main.c4612288.chunk.js\<close>): the cache view, from the state that \<open>GetState\<close> reports to the
    colours of the blocks, and the choice of a player.

  \<^item> \<^verbatim>\<open>Bencode\<close> (\<^verbatim>\<open>2.f454f580.chunk.js\<close>): the bencode codec of the dialog that adds torrent files. Encoding and
    decoding is a round trip; decoding ends on data without a minus sign and need not end with one.

  \<^bold>\<open>Conventions.\<close> Go's \<^verbatim>\<open>int\<close> and \<^verbatim>\<open>int64\<close> are \<open>int\<close> with \<open>wrap64\<close> where the code adds, subtracts or multiplies;
  \<open>None\<close> is a panic or an exception unless a definition says otherwise. Objects that the code shares by
  pointer are indices into lists. Time is an argument (nanoseconds \<open>now\<close>). Map iteration in Go has
  no fixed order; the lists \<open>pieces\<close> and \<open>readers\<close> stand for an arbitrary one. Calls to the engine are
  recorded in \<open>calls\<close>. Mutexes are not modelled: an operation under a lock is one step.

  \<^bold>\<open>Fuel.\<close> The functions of \<^verbatim>\<open>Webpack\<close> and the decoder of \<^verbatim>\<open>Bencode\<close> take fuel, because module functions and
  damaged data decide how far they run. \<open>loader_terminates\<close>, \<open>decode_terminates\<close> and \<open>bencode_roundtrip\<close> show
  that enough fuel exists, and for \<open>decode_diverges\<close> that no amount is enough. All other loops are
  total functions with their termination proofs.

  \<^bold>\<open>Not modelled.\<close> The engine apart from seeking and priorities, the other HTTP handlers, databases and files, GStreamer pipelines,
  the Telegram bot and DLNA are input and output over libraries outside the repository or drive
  them. Of the web interface the React components, styles and requests are not modelled, nor the other bundled
  packages and \<^verbatim>\<open>lord-icon-2.0.2.js\<close>, which are third-party code the application only calls.
\<close>

end
